(* ===== verification/Muduo_Prelude.thy ===== *)
theory Muduo_Prelude
  imports Main "HOL-Library.Word" "HOL-Library.Signed_Division"
begin

text \<open>
  Shared vocabulary of the development: the failure values of the modelled C++
  code, the result type with its sequencing operator, the memory operations of the
  standard library that the sources use on character arrays (\<open>std::copy\<close>,
  \<open>std::find\<close>, \<open>std::search\<close>, \<open>memchr\<close>), the conversions between C++
  integer types, and the generic list lemmas of the component theories.

  The model is the build with assertions enabled: an \<open>assert\<close> whose condition is
  false is the value \<open>Inl AssertFailed\<close>.
\<close>

section \<open>Failures and results\<close>

datatype error =
    AssertFailed          \<comment> \<open>a failed \<open>assert\<close>\<close>
  | LengthError           \<comment> \<open>\<open>std::length_error\<close> thrown by a container\<close>
  | UndefinedBehaviour    \<comment> \<open>an access outside an object\<close>
  | LogFatal              \<comment> \<open>\<open>LOG_FATAL\<close> or \<open>LOG_SYSFATAL\<close>: the process aborts\<close>
  | BadAlloc              \<comment> \<open>\<open>std::bad_alloc\<close> thrown by \<open>new\<close>\<close>
  | LogicError string     \<comment> \<open>\<open>throw logic_error(...)\<close>\<close>

type_synonym 'a res = "error + 'a"

definition bindR :: "'a res \<Rightarrow> ('a \<Rightarrow> 'b res) \<Rightarrow> 'b res" where
  "bindR m f = (case m of Inl e \<Rightarrow> Inl e | Inr x \<Rightarrow> f x)"

definition assertR :: "bool \<Rightarrow> 'a \<Rightarrow> 'a res" where
  "assertR P x = (if P then Inr x else Inl AssertFailed)"

lemma bindR_simps [simp]:
  "bindR (Inl e) f = Inl e"
  "bindR (Inr x) f = f x"
  by (simp_all add: bindR_def)

lemma bindR_Inr_iff: "bindR m f = Inr y \<longleftrightarrow> (\<exists>x. m = Inr x \<and> f x = Inr y)"
  by (cases m) simp_all

lemma bindR_assoc: "bindR (bindR m f) g = bindR m (\<lambda>x. bindR (f x) g)"
  by (cases m) simp_all

lemma assertR_simps [simp]:
  "P \<Longrightarrow> assertR P x = Inr x"
  "\<not> P \<Longrightarrow> assertR P x = Inl AssertFailed"
  by (simp_all add: assertR_def)

lemma assertR_Inr_iff [simp]: "assertR P x = Inr y \<longleftrightarrow> P \<and> x = y"
  by (simp add: assertR_def)

text \<open>Running a list of fallible state changes, stopping at the first failure.\<close>

fun foldR :: "('x \<Rightarrow> 's \<Rightarrow> 's res) \<Rightarrow> 'x list \<Rightarrow> 's \<Rightarrow> 's res" where
  "foldR f [] s = Inr s"
| "foldR f (x # xs) s = bindR (f x s) (foldR f xs)"

lemma foldR_append: "foldR f (xs @ ys) s = bindR (foldR f xs s) (foldR f ys)"
proof (induction xs arbitrary: s)
  case (Cons x xs)
  then show ?case by (cases "f x s") simp_all
qed simp

lemma foldR_map: "foldR f (map g xs) s = foldR (\<lambda>x. f (g x)) xs s"
proof (induction xs arbitrary: s)
  case (Cons x xs)
  then show ?case by (cases "f (g x) s") simp_all
qed simp

lemma foldR_invariant:
  assumes "\<And>x s s'. x \<in> set xs \<Longrightarrow> I s \<Longrightarrow> f x s = Inr s' \<Longrightarrow> I s'"
    and "I s" and "foldR f xs s = Inr s'"
  shows "I s'"
  using assms
proof (induction xs arbitrary: s)
  case (Cons x xs)
  then obtain t where "f x s = Inr t" "foldR f xs t = Inr s'"
    by (auto simp: bindR_Inr_iff)
  with Cons show ?case by (metis list.set_intros)
qed simp

lemma foldR_fun:
  "foldR f [] = Inr"
  "foldR f (x # xs) = (\<lambda>s. bindR (f x s) (foldR f xs))"
  "foldR f (xs @ ys) = (\<lambda>s. bindR (foldR f xs s) (foldR f ys))"
  by (simp_all add: fun_eq_iff foldR_append)

lemma bindR_Inr [simp]: "bindR m Inr = m"
  by (cases m) simp_all

text \<open>
  \<open>ends X m P\<close>: \<open>m\<close> ends with a result that satisfies \<open>P\<close>, or with one of the errors in \<open>X\<close>.
\<close>

definition ends :: "error set \<Rightarrow> 'a res \<Rightarrow> ('a \<Rightarrow> bool) \<Rightarrow> bool" where
  "ends X m P \<longleftrightarrow> (case m of Inl e \<Rightarrow> e \<in> X | Inr x \<Rightarrow> P x)"

lemma ends_simps [simp]:
  "ends X (Inl e) P \<longleftrightarrow> e \<in> X"
  "ends X (Inr x) P \<longleftrightarrow> P x"
  by (simp_all add: ends_def)

lemma ends_mono: "ends X m P \<Longrightarrow> (\<And>x. P x \<Longrightarrow> Q x) \<Longrightarrow> ends X m Q"
  by (cases m) simp_all

lemma ends_bind: "ends X m P \<Longrightarrow> (\<And>x. P x \<Longrightarrow> ends X (f x) Q) \<Longrightarrow> ends X (bindR m f) Q"
  by (cases m) simp_all

lemma ends_foldR:
  assumes "I xs s" and "\<And>x xs s. I (x # xs) s \<Longrightarrow> ends X (f x s) (I xs)"
  shows "ends X (foldR f xs s) (I [])"
  using assms(1)
proof (induction xs arbitrary: s)
  case (Cons x xs)
  show ?case using ends_bind [OF assms(2) [OF Cons.prems], of "foldR f xs" "I []"] Cons.IH by simp
qed simp

lemma ends_empty: "ends {} m P \<longleftrightarrow> (\<exists>x. m = Inr x \<and> P x)"
  by (cases m) simp_all

section \<open>C++ integer conversions\<close>

text \<open>
  \<open>size_t\<close> is 64 bits wide and wraps; \<open>to_int\<close> is \<open>static_cast<int>\<close> of a
  wider integer (32 bits, two's complement); \<open>to_size\<close> converts a signed value to
  \<open>size_t\<close>. \<open>max_size\<close> is \<open>std::vector<char>::max_size()\<close>.
\<close>

definition two64 :: nat where
  "two64 = 18446744073709551616"

definition max_size :: nat where
  "max_size = 9223372036854775807"

definition szt :: "nat \<Rightarrow> nat" where
  "szt n = n mod two64"

definition to_int :: "int \<Rightarrow> int" where
  "to_int n = (n + 2147483648) mod 4294967296 - 2147483648"

definition to_size :: "int \<Rightarrow> nat" where
  "to_size n = nat (n mod int two64)"

lemma szt_id [simp]: "n < two64 \<Longrightarrow> szt n = n"
  by (simp add: szt_def)

lemma max_size_lt_two64: "max_size < two64"
  by (simp add: max_size_def two64_def)

lemma to_int_id [simp]: "- 2147483648 \<le> n \<Longrightarrow> n < 2147483648 \<Longrightarrow> to_int n = n"
  by (simp add: to_int_def)

lemma to_int_bounds: "- 2147483648 \<le> to_int n \<and> to_int n < 2147483648"
  unfolding to_int_def by (simp add: pos_mod_bound)

lemma to_size_id [simp]: "0 \<le> n \<Longrightarrow> n < int two64 \<Longrightarrow> to_size n = nat n"
  by (simp add: to_size_def)

text \<open>Division and remainder truncate towards zero.\<close>

lemma sdiv_nonneg: "0 \<le> a \<Longrightarrow> 0 < b \<Longrightarrow> a sdiv b = a div (b :: int)"
  by (cases "a = 0") (simp_all add: signed_divide_int_def sgn_if zero_less_mult_iff)

lemma smod_nonneg: "0 \<le> a \<Longrightarrow> 0 < b \<Longrightarrow> a smod b = a mod (b :: int)"
  by (simp add: minus_sdiv_mult_eq_smod [symmetric] sdiv_nonneg minus_div_mult_eq_mod)

section \<open>Memory and ranges\<close>

text \<open>
  \<open>overwrite xs i ys\<close> is the array \<open>xs\<close> after \<open>std::copy\<close> or \<open>memcpy\<close> has
  written \<open>ys\<close> at offset \<open>i\<close>; \<open>range_of xs i j\<close> is the range \<open>[i, j)\<close> of \<open>xs\<close>.
\<close>

definition overwrite :: "'a list \<Rightarrow> nat \<Rightarrow> 'a list \<Rightarrow> 'a list" where
  "overwrite xs i ys = take i xs @ ys @ drop (i + length ys) xs"

definition range_of :: "'a list \<Rightarrow> nat \<Rightarrow> nat \<Rightarrow> 'a list" where
  "range_of xs i j = take (j - i) (drop i xs)"

lemma length_overwrite [simp]:
  "i + length ys \<le> length xs \<Longrightarrow> length (overwrite xs i ys) = length xs"
  by (simp add: overwrite_def)

lemma length_range_of [simp]: "i \<le> j \<Longrightarrow> j \<le> length xs \<Longrightarrow> length (range_of xs i j) = j - i"
  by (simp add: range_of_def)

lemma range_of_empty [simp]: "range_of xs i i = []"
  by (simp add: range_of_def)

lemma range_of_append:
  "i \<le> j \<Longrightarrow> j \<le> k \<Longrightarrow> range_of xs i j @ range_of xs j k = range_of xs i k"
proof -
  assume "i \<le> j" "j \<le> k"
  then have "k - i = (j - i) + (k - j)" and "drop j xs = drop (j - i) (drop i xs)"
    by simp_all
  then show ?thesis by (simp add: range_of_def take_add)
qed

lemma range_of_overwrite_same:
  "i + length ys \<le> length xs \<Longrightarrow> range_of (overwrite xs i ys) i (i + length ys) = ys"
  by (simp add: range_of_def overwrite_def)

lemma range_of_overwrite_before:
  "j \<le> k \<Longrightarrow> k + length ys \<le> length xs \<Longrightarrow> range_of (overwrite xs k ys) i j = range_of xs i j"
  unfolding range_of_def overwrite_def
  by (cases "i \<le> j") (simp_all add: drop_take min_def)

lemma range_of_overwrite_after:
  "k + length ys \<le> i \<Longrightarrow> k + length ys \<le> length xs \<Longrightarrow>
   range_of (overwrite xs k ys) i j = range_of xs i j"
  unfolding range_of_def overwrite_def by simp

lemma range_of_append_left: "j \<le> length xs \<Longrightarrow> range_of (xs @ ys) i j = range_of xs i j"
  unfolding range_of_def by (cases "i \<le> j") simp_all

lemma drop_range_of: "drop n (range_of xs i j) = range_of xs (i + n) j"
  unfolding range_of_def by (simp add: drop_take add.commute)

lemma take_range_of: "n \<le> j - i \<Longrightarrow> take n (range_of xs i j) = range_of xs i (i + n)"
  unfolding range_of_def by (simp add: min_def)

section \<open>Searching\<close>

text \<open>
  The searches return an offset into the range they scan: \<open>std_find\<close> and
  \<open>std_search\<close> return the length of the range where C++ returns the end iterator,
  \<open>memchr\<close> returns \<open>None\<close> for a null pointer.
\<close>

fun std_find :: "'a \<Rightarrow> 'a list \<Rightarrow> nat" where
  "std_find c [] = 0"
| "std_find c (x # xs) = (if x = c then 0 else Suc (std_find c xs))"

fun std_search :: "'a list \<Rightarrow> 'a list \<Rightarrow> nat" where
  "std_search pat [] = 0"
| "std_search pat (x # xs) =
     (if take (length pat) (x # xs) = pat then 0 else Suc (std_search pat xs))"

definition memchr :: "'a \<Rightarrow> 'a list \<Rightarrow> nat option" where
  "memchr c xs = (if std_find c xs = length xs then None else Some (std_find c xs))"

lemma std_find_le: "std_find c xs \<le> length xs"
  by (induction xs) auto

lemma std_find_eq_length: "std_find c xs = length xs \<longleftrightarrow> c \<notin> set xs"
  by (induction xs) auto

lemma std_find_takeWhile: "take (std_find c xs) xs = takeWhile (\<lambda>x. x \<noteq> c) xs"
  by (induction xs) auto

lemma std_find_append: "c \<notin> set xs \<Longrightarrow> std_find c (xs @ c # ys) = length xs"
  by (induction xs) auto

lemma std_find_append_notin: "c \<notin> set xs \<Longrightarrow> std_find c (xs @ ys) = length xs + std_find c ys"
  by (induction xs) auto

lemma std_search_le: "std_search pat xs \<le> length xs"
  by (induction xs) auto

lemma std_search_found:
  "std_search pat xs < length xs \<Longrightarrow>
   range_of xs (std_search pat xs) (std_search pat xs + length pat) = pat"
  by (induction xs) (auto simp: range_of_def split: if_splits)

lemma std_search_first:
  "i < std_search pat xs \<Longrightarrow> range_of xs i (i + length pat) \<noteq> pat"
proof (induction xs arbitrary: i)
  case (Cons x xs)
  then show ?case by (cases i) (auto simp: range_of_def split: if_splits)
qed simp

lemma std_search_bound:
  "std_search pat xs < length xs \<Longrightarrow> std_search pat xs + length pat \<le> length xs"
proof (induction xs)
  case (Cons x xs)
  then show ?case
    by (auto split: if_splits dest: arg_cong [where f = length])
qed simp

lemma std_search_append:
  "std_search pat xs < length xs \<Longrightarrow> std_search pat (xs @ ys) = std_search pat xs"
proof (induction xs)
  case (Cons x xs)
  show ?case
  proof (cases "take (length pat) (x # xs) = pat")
    case True
    then have "length pat \<le> length (x # xs)" by (metis length_take min.absorb_iff1 min.commute nat_le_linear take_all)
    then have "take (length pat) ((x # xs) @ ys) = take (length pat) (x # xs)" unfolding take_append by simp
    with True show ?thesis by simp
  next
    case False
    with Cons.prems have lt: "std_search pat xs < length xs" by simp
    have "take (length pat) ((x # xs) @ ys) \<noteq> pat"
    proof
      assume a: "take (length pat) ((x # xs) @ ys) = pat"
      have "length pat \<le> length (x # xs)" using std_search_bound [OF lt] by simp
      with a False show False unfolding take_append by simp
    qed
    with False Cons.IH [OF lt] show ?thesis by simp
  qed
qed simp

section \<open>Decimal output\<close>

text \<open>The decimal form \<open>operator<<\<close> and \<open>printf\<close>'s \<open>%d\<close> give an integer.\<close>

fun nat_digits :: "nat \<Rightarrow> string" where
  "nat_digits n =
     (if n < 10 then [char_of (48 + n)] else nat_digits (n div 10) @ [char_of (48 + n mod 10)])"

declare nat_digits.simps [simp del]

definition int_digits :: "int \<Rightarrow> string" where
  "int_digits n = (if n < 0 then CHR ''-'' # nat_digits (nat (- n)) else nat_digits (nat n))"

end
