(* ===== verification/Net_Channel.thy ===== *)
theory Net_Channel
  imports Muduo_Prelude
begin

text \<open>
  \<open>muduo/net/Channel.h\<close> and \<open>Channel.cc\<close>, with the part of \<open>EventLoop\<close> that a channel
  calls. A channel is an object that loop, poller and owner share through pointers, so
  the loop state holds a heap from pointers to channels. The poller behind
  \<open>EventLoop::updateChannel\<close> and \<open>removeChannel\<close> is a virtual base class: its two
  operations are arguments here and are supplied by the theory of the pollers.
  Callbacks are arguments of \<open>handleEvent\<close>; an unset callback is \<open>None\<close>.
\<close>

unbundle bit_operations_syntax

section \<open>State\<close>

type_synonym ptr = nat

definition POLLIN :: "32 word" where "POLLIN = 1"
definition POLLPRI :: "32 word" where "POLLPRI = 2"
definition POLLOUT :: "32 word" where "POLLOUT = 4"
definition POLLERR :: "32 word" where "POLLERR = 8"
definition POLLHUP :: "32 word" where "POLLHUP = 16"
definition POLLNVAL :: "32 word" where "POLLNVAL = 32"
definition POLLRDHUP :: "32 word" where "POLLRDHUP = 8192"

definition kNoneEvent :: "32 word" where "kNoneEvent = 0"
definition kReadEvent :: "32 word" where "kReadEvent = POLLIN OR POLLPRI"
definition kWriteEvent :: "32 word" where "kWriteEvent = POLLOUT"

lemmas poll_flags = POLLIN_def POLLPRI_def POLLOUT_def POLLERR_def POLLHUP_def POLLNVAL_def
  POLLRDHUP_def kNoneEvent_def kReadEvent_def kWriteEvent_def

record Channel =
  ownerLoop :: nat
  fd :: int
  events :: "32 word"
  revents :: "32 word"
  index :: int
  logHup :: bool
  tie :: "nat option"
  tied :: bool
  eventHandling :: bool
  addedToLoop :: bool

definition Channel_new :: "nat \<Rightarrow> int \<Rightarrow> Channel" where
  "Channel_new eventLoop sockfd =
     \<lparr>ownerLoop = eventLoop, fd = sockfd, events = 0, revents = 0, index = -1, logHup = True, tie = None,
      tied = False, eventHandling = False, addedToLoop = False\<rparr>"

text \<open>
  The loop as its channels see it: \<open>self\<close> is the loop's identity, \<open>threadId\<close> the thread
  that created it, \<open>tid\<close> the thread that is running, \<open>channels\<close> the poller's map from
  descriptors to channels.
\<close>

record Loop =
  self :: nat
  threadId :: nat
  tid :: nat
  heap :: "ptr \<rightharpoonup> Channel"
  channels :: "int \<rightharpoonup> ptr"
  eventHandling_loop :: bool
  activeChannels :: "ptr list"
  currentActiveChannel :: "ptr option"

definition isInLoopThread :: "'z Loop_scheme \<Rightarrow> bool" where
  "isInLoopThread s \<longleftrightarrow> threadId s = tid s"

definition assertInLoopThread :: "'z Loop_scheme \<Rightarrow> unit res" where
  "assertInLoopThread s = (if isInLoopThread s then Inr () else Inl LogFatal)"

definition deref :: "ptr \<Rightarrow> 'z Loop_scheme \<Rightarrow> Channel res" where
  "deref p s = (case heap s p of None \<Rightarrow> Inl UndefinedBehaviour | Some c \<Rightarrow> Inr c)"

definition modChan :: "ptr \<Rightarrow> (Channel \<Rightarrow> Channel) \<Rightarrow> 'z Loop_scheme \<Rightarrow> 'z Loop_scheme res" where
  "modChan p f s = bindR (deref p s) (\<lambda>c. Inr (s\<lparr>heap := (heap s)(p \<mapsto> f c)\<rparr>))"

section \<open>Queries\<close>

definition isNoneEvent :: "Channel \<Rightarrow> bool" where
  "isNoneEvent c \<longleftrightarrow> events c = kNoneEvent"

definition isWriting :: "Channel \<Rightarrow> bool" where
  "isWriting c \<longleftrightarrow> events c AND kWriteEvent \<noteq> 0"

definition isReading :: "Channel \<Rightarrow> bool" where
  "isReading c \<longleftrightarrow> events c AND kReadEvent \<noteq> 0"

definition eventsToString_fd :: "int \<Rightarrow> 32 word \<Rightarrow> string" where
  "eventsToString_fd fdArg ev =
     int_digits fdArg @ '': '' @
     (if ev AND POLLIN \<noteq> 0 then ''IN '' else []) @
     (if ev AND POLLPRI \<noteq> 0 then ''PRI '' else []) @
     (if ev AND POLLOUT \<noteq> 0 then ''OUT '' else []) @
     (if ev AND POLLHUP \<noteq> 0 then ''HUP '' else []) @
     (if ev AND POLLRDHUP \<noteq> 0 then ''RDHUP '' else []) @
     (if ev AND POLLERR \<noteq> 0 then ''ERR '' else []) @
     (if ev AND POLLNVAL \<noteq> 0 then ''NVAL '' else [])"

definition reventsToString :: "Channel \<Rightarrow> string" where
  "reventsToString c = eventsToString_fd (fd c) (revents c)"

definition eventsToString :: "Channel \<Rightarrow> string" where
  "eventsToString c = eventsToString_fd (fd c) (events c)"

section \<open>The loop's part\<close>

type_synonym 'z poller_op = "ptr \<Rightarrow> 'z Loop_scheme \<Rightarrow> 'z Loop_scheme res"

definition EventLoop_updateChannel :: "'z poller_op \<Rightarrow> 'z poller_op" where
  "EventLoop_updateChannel poller_updateChannel p s =
     bindR (deref p s) (\<lambda>c.
     bindR (assertR (ownerLoop c = self s) ()) (\<lambda>_.
     bindR (assertInLoopThread s) (\<lambda>_.
     poller_updateChannel p s)))"

definition EventLoop_removeChannel :: "'z poller_op \<Rightarrow> 'z poller_op" where
  "EventLoop_removeChannel poller_removeChannel p s =
     bindR (deref p s) (\<lambda>c.
     bindR (assertR (ownerLoop c = self s) ()) (\<lambda>_.
     bindR (assertInLoopThread s) (\<lambda>_.
     bindR (if eventHandling_loop s
            then assertR (currentActiveChannel s = Some p \<or> p \<notin> set (activeChannels s)) ()
            else Inr ()) (\<lambda>_.
     poller_removeChannel p s))))"

definition Poller_hasChannel :: "ptr \<Rightarrow> 'z Loop_scheme \<Rightarrow> bool res" where
  "Poller_hasChannel p s =
     bindR (assertInLoopThread s) (\<lambda>_.
     bindR (deref p s) (\<lambda>c. Inr (channels s (fd c) = Some p)))"

definition EventLoop_hasChannel :: "ptr \<Rightarrow> 'z Loop_scheme \<Rightarrow> bool res" where
  "EventLoop_hasChannel p s =
     bindR (deref p s) (\<lambda>c.
     bindR (assertR (ownerLoop c = self s) ()) (\<lambda>_.
     bindR (assertInLoopThread s) (\<lambda>_.
     Poller_hasChannel p s)))"

section \<open>Operations\<close>

definition Channel_dtor :: "ptr \<Rightarrow> 'z Loop_scheme \<Rightarrow> 'z Loop_scheme res" where
  "Channel_dtor p s =
     bindR (deref p s) (\<lambda>c.
     bindR (assertR (\<not> eventHandling c) ()) (\<lambda>_.
     bindR (assertR (\<not> addedToLoop c) ()) (\<lambda>_.
     bindR (if isInLoopThread s
            then bindR (EventLoop_hasChannel p s) (\<lambda>h. assertR (\<not> h) ())
            else Inr ()) (\<lambda>_.
     Inr (s\<lparr>heap := (heap s)(p := None)\<rparr>)))))"

definition Channel_tie :: "nat \<Rightarrow> ptr \<Rightarrow> 'z Loop_scheme \<Rightarrow> 'z Loop_scheme res" where
  "Channel_tie obj p s = modChan p (\<lambda>c. c\<lparr>tie := Some obj, tied := True\<rparr>) s"

definition Channel_update :: "'z poller_op \<Rightarrow> 'z poller_op" where
  "Channel_update upd p s =
     bindR (modChan p (\<lambda>c. c\<lparr>addedToLoop := True\<rparr>) s) (EventLoop_updateChannel upd p)"

definition Channel_remove :: "'z poller_op \<Rightarrow> 'z poller_op" where
  "Channel_remove rem p s =
     bindR (deref p s) (\<lambda>c.
     bindR (assertR (isNoneEvent c) ()) (\<lambda>_.
     bindR (modChan p (\<lambda>c. c\<lparr>addedToLoop := False\<rparr>) s) (EventLoop_removeChannel rem p)))"

definition enableReading :: "'z poller_op \<Rightarrow> 'z poller_op" where
  "enableReading upd p s =
     bindR (modChan p (\<lambda>c. c\<lparr>events := events c OR kReadEvent\<rparr>) s) (Channel_update upd p)"

definition disableReading :: "'z poller_op \<Rightarrow> 'z poller_op" where
  "disableReading upd p s =
     bindR (modChan p (\<lambda>c. c\<lparr>events := events c AND NOT kReadEvent\<rparr>) s) (Channel_update upd p)"

definition enableWriting :: "'z poller_op \<Rightarrow> 'z poller_op" where
  "enableWriting upd p s =
     bindR (modChan p (\<lambda>c. c\<lparr>events := events c OR kWriteEvent\<rparr>) s) (Channel_update upd p)"

definition disableWriting :: "'z poller_op \<Rightarrow> 'z poller_op" where
  "disableWriting upd p s =
     bindR (modChan p (\<lambda>c. c\<lparr>events := events c AND NOT kWriteEvent\<rparr>) s) (Channel_update upd p)"

definition disableAll :: "'z poller_op \<Rightarrow> 'z poller_op" where
  "disableAll upd p s =
     bindR (modChan p (\<lambda>c. c\<lparr>events := kNoneEvent\<rparr>) s) (Channel_update upd p)"

text \<open>
  \<open>handleEvent\<close> runs the callbacks the received events ask for, in the order close,
  error, read, write; a callback may change the whole state, and \<open>revents\<close> is read
  again before each test. \<open>lock\<close> tells whether the tied object is still alive.
\<close>

type_synonym 'z callback = "('z Loop_scheme \<Rightarrow> 'z Loop_scheme res) option"

definition call :: "'z callback \<Rightarrow> 'z Loop_scheme \<Rightarrow> 'z Loop_scheme res" where
  "call cb s = (case cb of None \<Rightarrow> Inr s | Some f \<Rightarrow> f s)"

definition when_revents :: "(32 word \<Rightarrow> bool) \<Rightarrow> 'z callback \<Rightarrow> ptr \<Rightarrow> 'z Loop_scheme \<Rightarrow> 'z Loop_scheme res" where
  "when_revents P cb p s = bindR (deref p s) (\<lambda>c. if P (revents c) then call cb s else Inr s)"

definition handleEventWithGuard ::
  "'z callback \<Rightarrow> 'z callback \<Rightarrow> 'z callback \<Rightarrow> 'z callback \<Rightarrow> ptr \<Rightarrow> 'z Loop_scheme \<Rightarrow> 'z Loop_scheme res" where
  "handleEventWithGuard closeCb errorCb readCb writeCb p s =
     bindR (modChan p (\<lambda>c. c\<lparr>eventHandling := True\<rparr>) s) (\<lambda>s.
     bindR (when_revents (\<lambda>r. r AND POLLHUP \<noteq> 0 \<and> r AND POLLIN = 0) closeCb p s) (\<lambda>s.
     bindR (when_revents (\<lambda>r. r AND (POLLERR OR POLLNVAL) \<noteq> 0) errorCb p s) (\<lambda>s.
     bindR (when_revents (\<lambda>r. r AND (POLLIN OR POLLPRI OR POLLRDHUP) \<noteq> 0) readCb p s) (\<lambda>s.
     bindR (when_revents (\<lambda>r. r AND POLLOUT \<noteq> 0) writeCb p s) (\<lambda>s.
     modChan p (\<lambda>c. c\<lparr>eventHandling := False\<rparr>) s)))))"

definition handleEvent ::
  "(nat option \<Rightarrow> 'z Loop_scheme \<Rightarrow> bool) \<Rightarrow> 'z callback \<Rightarrow> 'z callback \<Rightarrow> 'z callback \<Rightarrow> 'z callback \<Rightarrow>
   ptr \<Rightarrow> 'z Loop_scheme \<Rightarrow> 'z Loop_scheme res" where
  "handleEvent lock closeCb errorCb readCb writeCb p s =
     bindR (deref p s) (\<lambda>c.
     if tied c then
       (if lock (tie c) s then handleEventWithGuard closeCb errorCb readCb writeCb p s else Inr s)
     else handleEventWithGuard closeCb errorCb readCb writeCb p s)"

section \<open>Event masks\<close>

text \<open>A channel's interest is built from the read and the write mask only.\<close>

definition valid_events :: "32 word \<Rightarrow> bool" where
  "valid_events ev \<longleftrightarrow> ev = 0 \<or> ev = 3 \<or> ev = 4 \<or> ev = 7"

lemma valid_events_masks [simp]:
  "valid_events 0"
  "valid_events ev \<Longrightarrow> valid_events (ev OR kReadEvent)"
  "valid_events ev \<Longrightarrow> valid_events (ev AND NOT kReadEvent)"
  "valid_events ev \<Longrightarrow> valid_events (ev OR kWriteEvent)"
  "valid_events ev \<Longrightarrow> valid_events (ev AND NOT kWriteEvent)"
  "valid_events kNoneEvent"
  by (auto simp: valid_events_def poll_flags)

lemma valid_events_effect:
  assumes "valid_events ev"
  shows "(ev OR kReadEvent) AND kReadEvent \<noteq> 0"
    and "(ev OR kReadEvent) AND kWriteEvent = ev AND kWriteEvent"
    and "(ev AND NOT kReadEvent) AND kReadEvent = 0"
    and "(ev AND NOT kReadEvent) AND kWriteEvent = ev AND kWriteEvent"
    and "(ev OR kWriteEvent) AND kWriteEvent \<noteq> 0"
    and "(ev OR kWriteEvent) AND kReadEvent = ev AND kReadEvent"
    and "(ev AND NOT kWriteEvent) AND kWriteEvent = 0"
    and "(ev AND NOT kWriteEvent) AND kReadEvent = ev AND kReadEvent"
    and "kNoneEvent AND kReadEvent = 0" and "kNoneEvent AND kWriteEvent = 0"
    and "ev OR kReadEvent \<noteq> 0" and "ev OR kWriteEvent \<noteq> 0"
  using assms by (auto simp: valid_events_def poll_flags)

lemma deref_simps [simp]: "heap s p = Some c \<Longrightarrow> deref p s = Inr c"
  by (simp add: deref_def)

lemma modChan_simps [simp]:
  "heap s p = Some c \<Longrightarrow> modChan p f s = Inr (s\<lparr>heap := (heap s)(p \<mapsto> f c)\<rparr>)"
  by (simp add: modChan_def)

lemma assertInLoopThread_simps [simp]:
  "threadId s = tid s \<Longrightarrow> assertInLoopThread s = Inr ()"
  by (simp add: assertInLoopThread_def isInLoopThread_def)

text \<open>Every change of interest is one store to \<open>events_\<close> followed by \<open>update()\<close>.\<close>

definition set_events :: "'z poller_op \<Rightarrow> 32 word \<Rightarrow> 'z poller_op" where
  "set_events upd ev p s = bindR (modChan p (\<lambda>c. c\<lparr>events := ev\<rparr>) s) (Channel_update upd p)"

lemma interest_ops:
  assumes "heap s p = Some c"
  shows "enableReading upd p s = set_events upd (events c OR kReadEvent) p s"
    and "disableReading upd p s = set_events upd (events c AND NOT kReadEvent) p s"
    and "enableWriting upd p s = set_events upd (events c OR kWriteEvent) p s"
    and "disableWriting upd p s = set_events upd (events c AND NOT kWriteEvent) p s"
    and "disableAll upd p s = set_events upd 0 p s"
  using assms
  by (simp_all add: set_events_def enableReading_def disableReading_def enableWriting_def
      disableWriting_def disableAll_def kNoneEvent_def)

lemma set_events_unfold:
  assumes "heap s p = Some c" and "ownerLoop c = self s" and "threadId s = tid s"
  shows "set_events upd ev p s =
    upd p (s\<lparr>heap := (heap s)(p \<mapsto> c\<lparr>events := ev, addedToLoop := True\<rparr>)\<rparr>)"
  using assms by (simp add: set_events_def Channel_update_def EventLoop_updateChannel_def)

lemma Channel_remove_unfold:
  assumes "heap s p = Some c" and "ownerLoop c = self s" and "threadId s = tid s" and "events c = 0"
    and "eventHandling_loop s \<Longrightarrow> currentActiveChannel s = Some p \<or> p \<notin> set (activeChannels s)"
  shows "Channel_remove rem p s = rem p (s\<lparr>heap := (heap s)(p \<mapsto> c\<lparr>addedToLoop := False\<rparr>)\<rparr>)"
  using assms
  by (simp add: Channel_remove_def EventLoop_removeChannel_def isNoneEvent_def kNoneEvent_def)

end
