(* ===== verification/Net_Poller.thy ===== *)
theory Net_Poller
  imports Net_Channel
begin

text \<open>
  \<open>muduo/net/Poller.h\<close>, \<open>poller/EPollPoller.cc\<close> and \<open>poller/PollPoller.cc\<close>. The loop
  record is extended by each poller's own members. The system calls \<open>epoll_ctl\<close>,
  \<open>epoll_wait\<close> and \<open>poll\<close> are arguments; \<open>epoll_ctl\<close> works on the kernel's interest set,
  a map from descriptors to the event mask and the user data.

  The locale \<open>poller\<close> is the contract of the virtual base class: what a change of a
  channel's interest and its removal do to the registered channels and to the set of
  watched descriptors. Both pollers are shown to implement it.
\<close>

section \<open>EPollPoller\<close>

datatype epoll_op = EPOLL_CTL_ADD | EPOLL_CTL_DEL | EPOLL_CTL_MOD

type_synonym epoll_set = "int \<rightharpoonup> (32 word \<times> ptr)"
type_synonym epoll_ctl = "epoll_op \<Rightarrow> int \<Rightarrow> (32 word \<times> ptr) \<Rightarrow> epoll_set \<Rightarrow> bool \<times> epoll_set"

record EPoll = Loop +
  epoll :: epoll_set
  eventsSize :: nat

definition kNew :: int where "kNew = -1"
definition kAdded :: int where "kAdded = 1"
definition kDeleted :: int where "kDeleted = 2"

definition kInitEventListSize :: nat where "kInitEventListSize = 16"

fun operationToString :: "epoll_op \<Rightarrow> string" where
  "operationToString EPOLL_CTL_ADD = ''ADD''"
| "operationToString EPOLL_CTL_DEL = ''DEL''"
| "operationToString EPOLL_CTL_MOD = ''MOD''"

definition EPollPoller_update :: "epoll_ctl \<Rightarrow> epoll_op \<Rightarrow> 'z EPoll_ext poller_op" where
  "EPollPoller_update ctl operation p s =
     bindR (deref p s) (\<lambda>c.
     let event = (events c, p);
         r = ctl operation (fd c) event (epoll s);
         s = s\<lparr>epoll := snd r\<rparr>
     in if fst r then Inr s
        else if operation = EPOLL_CTL_DEL then Inr s
        else Inl LogFatal)"

definition EPollPoller_updateChannel :: "epoll_ctl \<Rightarrow> 'z EPoll_ext poller_op" where
  "EPollPoller_updateChannel ctl p s =
     bindR (assertInLoopThread s) (\<lambda>_.
     bindR (deref p s) (\<lambda>c.
     if index c = kNew \<or> index c = kDeleted then
       bindR (if index c = kNew
              then bindR (assertR (channels s (fd c) = None) ()) (\<lambda>_.
                   Inr (s\<lparr>channels := (channels s)(fd c \<mapsto> p)\<rparr>))
              else bindR (assertR (channels s (fd c) \<noteq> None) ()) (\<lambda>_.
                   assertR (channels s (fd c) = Some p) s)) (\<lambda>s.
       bindR (modChan p (\<lambda>c. c\<lparr>index := kAdded\<rparr>) s)
         (EPollPoller_update ctl EPOLL_CTL_ADD p))
     else
       bindR (assertR (channels s (fd c) \<noteq> None) ()) (\<lambda>_.
       bindR (assertR (channels s (fd c) = Some p) ()) (\<lambda>_.
       bindR (assertR (index c = kAdded) ()) (\<lambda>_.
       if isNoneEvent c then
         bindR (EPollPoller_update ctl EPOLL_CTL_DEL p s) (modChan p (\<lambda>c. c\<lparr>index := kDeleted\<rparr>))
       else EPollPoller_update ctl EPOLL_CTL_MOD p s)))))"

definition EPollPoller_removeChannel :: "epoll_ctl \<Rightarrow> 'z EPoll_ext poller_op" where
  "EPollPoller_removeChannel ctl p s =
     bindR (assertInLoopThread s) (\<lambda>_.
     bindR (deref p s) (\<lambda>c.
     bindR (assertR (channels s (fd c) \<noteq> None) ()) (\<lambda>_.
     bindR (assertR (channels s (fd c) = Some p) ()) (\<lambda>_.
     bindR (assertR (isNoneEvent c) ()) (\<lambda>_.
     bindR (assertR (index c = kAdded \<or> index c = kDeleted) ()) (\<lambda>_.
     let s = s\<lparr>channels := (channels s)(fd c := None)\<rparr> in
     bindR (if index c = kAdded then EPollPoller_update ctl EPOLL_CTL_DEL p s else Inr s)
       (modChan p (\<lambda>c. c\<lparr>index := kNew\<rparr>))))))))"

text \<open>
  \<open>epoll_wait\<close> is given the capacity of the event list and the interest set; it returns
  \<open>errno\<close> or the events it stored. \<open>Timestamp::now()\<close> is not part of the state.
\<close>

type_synonym epoll_wait = "nat \<Rightarrow> epoll_set \<Rightarrow> int + (32 word \<times> ptr) list"

definition EPollPoller_activate :: "32 word \<times> ptr \<Rightarrow> 'z Loop_scheme \<Rightarrow> 'z Loop_scheme res" where
  "EPollPoller_activate e s =
     (let p = snd e in
      bindR (deref p s) (\<lambda>c.
      bindR (assertR (channels s (fd c) \<noteq> None) ()) (\<lambda>_.
      bindR (assertR (channels s (fd c) = Some p) ()) (\<lambda>_.
      bindR (modChan p (\<lambda>c. c\<lparr>revents := fst e\<rparr>) s) (\<lambda>s.
      Inr (s\<lparr>activeChannels := activeChannels s @ [p]\<rparr>))))))"

definition EPollPoller_fillActiveChannels ::
  "(32 word \<times> ptr) list \<Rightarrow> 'z EPoll_scheme \<Rightarrow> 'z EPoll_scheme res" where
  "EPollPoller_fillActiveChannels evs s =
     bindR (assertR (length evs \<le> eventsSize s) ()) (\<lambda>_. foldR EPollPoller_activate evs s)"

definition EPollPoller_poll :: "epoll_wait \<Rightarrow> 'z EPoll_scheme \<Rightarrow> 'z EPoll_scheme res" where
  "EPollPoller_poll wait s =
     (case wait (eventsSize s) (epoll s) of
        Inl savedErrno \<Rightarrow> Inr s
      | Inr evs \<Rightarrow>
          if evs = [] then Inr s
          else bindR (EPollPoller_fillActiveChannels evs s) (\<lambda>s.
               if length evs = eventsSize s then Inr (s\<lparr>eventsSize := eventsSize s * 2\<rparr>)
               else Inr s))"

section \<open>PollPoller\<close>

record pollfd =
  pfd_fd :: int
  pfd_events :: "16 word"
  pfd_revents :: "16 word"

record PollP = Loop +
  pollfds :: "pollfd list"

definition PollPoller_updateChannel :: "'z PollP_ext poller_op" where
  "PollPoller_updateChannel p s =
     bindR (assertInLoopThread s) (\<lambda>_.
     bindR (deref p s) (\<lambda>c.
     if index c < 0 then
       bindR (assertR (channels s (fd c) = None) ()) (\<lambda>_.
       let s = s\<lparr>pollfds := pollfds s @ [\<lparr>pfd_fd = fd c, pfd_events = ucast (events c), pfd_revents = 0\<rparr>]\<rparr>;
           idx = int (length (pollfds s)) - 1
       in bindR (modChan p (\<lambda>c. c\<lparr>index := idx\<rparr>) s) (\<lambda>s.
          Inr (s\<lparr>channels := (channels s)(fd c \<mapsto> p)\<rparr>)))
     else
       bindR (assertR (channels s (fd c) \<noteq> None) ()) (\<lambda>_.
       bindR (assertR (channels s (fd c) = Some p) ()) (\<lambda>_.
       let idx = index c in
       bindR (assertR (0 \<le> idx \<and> idx < int (length (pollfds s))) ()) (\<lambda>_.
       let pfd = pollfds s ! nat idx in
       bindR (assertR (pfd_fd pfd = fd c \<or> pfd_fd pfd = - fd c - 1) ()) (\<lambda>_.
       let pfd = pfd\<lparr>pfd_fd := fd c, pfd_events := ucast (events c), pfd_revents := 0\<rparr>;
           pfd = (if isNoneEvent c then pfd\<lparr>pfd_fd := - fd c - 1\<rparr> else pfd)
       in Inr (s\<lparr>pollfds := (pollfds s)[nat idx := pfd]\<rparr>)))))))"

definition PollPoller_removeChannel :: "'z PollP_ext poller_op" where
  "PollPoller_removeChannel p s =
     bindR (assertInLoopThread s) (\<lambda>_.
     bindR (deref p s) (\<lambda>c.
     bindR (assertR (channels s (fd c) \<noteq> None) ()) (\<lambda>_.
     bindR (assertR (channels s (fd c) = Some p) ()) (\<lambda>_.
     bindR (assertR (isNoneEvent c) ()) (\<lambda>_.
     let idx = index c in
     bindR (assertR (0 \<le> idx \<and> idx < int (length (pollfds s))) ()) (\<lambda>_.
     let pfd = pollfds s ! nat idx in
     bindR (assertR (pfd_fd pfd = - fd c - 1 \<and> scast (pfd_events pfd) = events c) ()) (\<lambda>_.
     let s = s\<lparr>channels := (channels s)(fd c := None)\<rparr> in
     if nat idx = length (pollfds s) - 1 then Inr (s\<lparr>pollfds := butlast (pollfds s)\<rparr>)
     else
       let channelAtEnd = pfd_fd (last (pollfds s));
           s = s\<lparr>pollfds := (pollfds s)[nat idx := last (pollfds s), length (pollfds s) - 1 := pfd]\<rparr>;
           channelAtEnd = (if channelAtEnd < 0 then - channelAtEnd - 1 else channelAtEnd)
       in case channels s channelAtEnd of
            None \<Rightarrow> Inl UndefinedBehaviour
          | Some q \<Rightarrow> bindR (modChan q (\<lambda>c. c\<lparr>index := idx\<rparr>) s) (\<lambda>s.
              Inr (s\<lparr>pollfds := butlast (pollfds s)\<rparr>)))))))))"

text \<open>\<open>::poll\<close> returns \<open>errno\<close> or the list with its \<open>revents\<close> filled in.\<close>

type_synonym poll_sys = "pollfd list \<Rightarrow> int + pollfd list"

fun PollPoller_fill :: "pollfd list \<Rightarrow> int \<Rightarrow> 'z Loop_scheme \<Rightarrow> 'z Loop_scheme res" where
  "PollPoller_fill [] numEvents s = Inr s"
| "PollPoller_fill (pfd # pfds) numEvents s =
     (if numEvents > 0 then
        if sint (pfd_revents pfd) > 0 then
          (case channels s (pfd_fd pfd) of
             None \<Rightarrow> Inl AssertFailed
           | Some p \<Rightarrow>
               bindR (deref p s) (\<lambda>c.
               bindR (assertR (fd c = pfd_fd pfd) ()) (\<lambda>_.
               bindR (modChan p (\<lambda>c. c\<lparr>revents := scast (pfd_revents pfd)\<rparr>) s) (\<lambda>s.
               PollPoller_fill pfds (numEvents - 1)
                 (s\<lparr>activeChannels := activeChannels s @ [p]\<rparr>)))))
        else PollPoller_fill pfds numEvents s
      else Inr s)"

definition PollPoller_fillActiveChannels :: "int \<Rightarrow> 'z PollP_scheme \<Rightarrow> 'z PollP_scheme res" where
  "PollPoller_fillActiveChannels numEvents s = PollPoller_fill (pollfds s) numEvents s"

definition PollPoller_poll :: "poll_sys \<Rightarrow> 'z PollP_scheme \<Rightarrow> 'z PollP_scheme res" where
  "PollPoller_poll poll s =
     (case poll (pollfds s) of
        Inl savedErrno \<Rightarrow> Inr s
      | Inr pfds \<Rightarrow>
          let numEvents = int (length (filter (\<lambda>p. pfd_revents p \<noteq> 0) pfds));
              s = s\<lparr>pollfds := pfds\<rparr>
          in if numEvents > 0 then PollPoller_fillActiveChannels numEvents s else Inr s)"

section \<open>The contract of a poller\<close>

text \<open>
  \<open>watched\<close> is the set of descriptors the kernel is asked to watch, with their masks;
  \<open>same s s'\<close> says that only the poller's state and the channel heap differ. A channel is
  registered by its first change of interest (even one to no events), unregistered by
  \<open>remove\<close>, and stays registered but unwatched after its interest becomes empty.
\<close>

locale poller =
  fixes upd rem :: "'z poller_op"
    and inv :: "'z Loop_scheme \<Rightarrow> bool"
    and watched :: "'z Loop_scheme \<Rightarrow> int \<rightharpoonup> 32 word"
    and same :: "'z Loop_scheme \<Rightarrow> 'z Loop_scheme \<Rightarrow> bool"
  assumes upd_new: "\<lbrakk>inv s; threadId s = tid s; heap s p = Some c; ownerLoop c = self s; index c = kNew;
      channels s (fd c) = None; 0 \<le> fd c; valid_events ev\<rbrakk> \<Longrightarrow>
      \<exists>s' i. set_events upd ev p s = Inr s' \<and> inv s' \<and> same s s' \<and>
        channels s' = (channels s)(fd c \<mapsto> p) \<and> watched s' = (watched s)(fd c \<mapsto> ev) \<and>
        heap s' = (heap s)(p \<mapsto> c\<lparr>events := ev, addedToLoop := True, index := i\<rparr>)"
    and upd_mod: "\<lbrakk>inv s; threadId s = tid s; heap s p = Some c; channels s (fd c) = Some p; valid_events ev;
      ev \<noteq> 0 \<or> watched s (fd c) \<noteq> None\<rbrakk> \<Longrightarrow>
      \<exists>s' i. set_events upd ev p s = Inr s' \<and> inv s' \<and> same s s' \<and> channels s' = channels s \<and>
        watched s' = (watched s)(fd c := if ev = 0 then None else Some ev) \<and>
        heap s' = (heap s)(p \<mapsto> c\<lparr>events := ev, addedToLoop := True, index := i\<rparr>)"
    and rem_law: "\<lbrakk>inv s; threadId s = tid s; heap s p = Some c; channels s (fd c) = Some p;
      watched s (fd c) = None;
      eventHandling_loop s \<Longrightarrow> currentActiveChannel s = Some p \<or> p \<notin> set (activeChannels s)\<rbrakk> \<Longrightarrow>
      \<exists>s' i. Channel_remove rem p s = Inr s' \<and> inv s' \<and> same s s' \<and>
        channels s' = (channels s)(fd c := None) \<and> watched s' = watched s \<and>
        heap s' p = Some (c\<lparr>addedToLoop := False, index := i\<rparr>) \<and>
        (\<forall>q. q \<noteq> p \<longrightarrow> map_option (index_update (\<lambda>_. 0)) (heap s' q) =
                      map_option (index_update (\<lambda>_. 0)) (heap s q)) \<and>
        (\<forall>q. q \<notin> ran (channels s) \<longrightarrow> heap s' q = heap s q)"
    and registered: "\<lbrakk>inv s; channels s k = Some p\<rbrakk> \<Longrightarrow>
      \<exists>c. heap s p = Some c \<and> fd c = k \<and> ownerLoop c = self s \<and> valid_events (events c) \<and>
        (watched s k = Some (events c) \<or> watched s k = None \<and> events c = 0)"
    and same_fields: "same s s' \<Longrightarrow> self s' = self s \<and> threadId s' = threadId s \<and> tid s' = tid s \<and>
      eventHandling_loop s' = eventHandling_loop s \<and> activeChannels s' = activeChannels s \<and>
      currentActiveChannel s' = currentActiveChannel s"
begin

lemma change_ok:
  assumes "inv s" and "threadId s = tid s" and "heap s p = Some c" and "channels s (fd c) = Some p"
    and "valid_events ev" and "ev \<noteq> 0 \<or> events c \<noteq> 0"
  shows "\<exists>s' c'. set_events upd ev p s = Inr s' \<and> inv s' \<and> same s s' \<and> channels s' = channels s \<and>
    heap s' p = Some c' \<and> fd c' = fd c \<and> events c' = ev \<and> ownerLoop c' = self s' \<and>
    watched s' = (watched s)(fd c := if ev = 0 then None else Some ev)"
proof -
  have "ev \<noteq> 0 \<or> watched s (fd c) \<noteq> None" and o: "ownerLoop c = self s"
    using registered [OF assms(1,4)] assms(3,6) by auto
  from upd_mod [OF assms(1-5) this(1)] obtain s' i where
    "set_events upd ev p s = Inr s'" "inv s'" "same s s'" "channels s' = channels s"
    "watched s' = (watched s)(fd c := if ev = 0 then None else Some ev)"
    "heap s' = (heap s)(p \<mapsto> c\<lparr>events := ev, addedToLoop := True, index := i\<rparr>)"
    by blast
  with o same_fields [of s s'] show ?thesis by simp
qed

text \<open>
  A channel that is registered, changes its interest any number of times, is disabled
  and removed leaves the poller as it was.
\<close>

lemma changes_ok:
  assumes "inv s" and "threadId s = tid s" and "heap s p = Some c" and "channels s (fd c) = Some p"
    and "watched s (fd c) \<noteq> None" and "\<And>ev. ev \<in> set evs \<Longrightarrow> valid_events ev \<and> ev \<noteq> 0"
  shows "\<exists>s' c'. foldR (\<lambda>ev. set_events upd ev p) evs s = Inr s' \<and> inv s' \<and>
    (threadId s' = tid s' \<and> self s' = self s \<and> eventHandling_loop s' = eventHandling_loop s \<and>
     activeChannels s' = activeChannels s \<and> currentActiveChannel s' = currentActiveChannel s) \<and>
    channels s' = channels s \<and> heap s' p = Some c' \<and> fd c' = fd c \<and> watched s' (fd c) \<noteq> None \<and>
    (\<forall>k. k \<noteq> fd c \<longrightarrow> watched s' k = watched s k)"
  using assms
proof (induction evs arbitrary: s c)
  case (Cons ev evs)
  then obtain s1 c1 where s1: "set_events upd ev p s = Inr s1" "inv s1" "same s s1"
    "channels s1 = channels s" "heap s1 p = Some c1" "fd c1 = fd c"
    "watched s1 = (watched s)(fd c \<mapsto> ev)"
    using change_ok [OF Cons.prems(1-4), of ev] by auto
  with Cons.IH [of s1 c1] Cons.prems same_fields [OF s1(3)] show ?case by simp
qed auto

lemma lifecycle:
  assumes "inv s" and "threadId s = tid s" and "heap s p = Some c" and "ownerLoop c = self s"
    and "index c = kNew" and "channels s (fd c) = None" and "0 \<le> fd c" and "watched s (fd c) = None"
    and "eventHandling_loop s \<Longrightarrow> currentActiveChannel s = Some p \<or> p \<notin> set (activeChannels s)"
    and "valid_events ev" and "\<And>ev. ev \<in> set evs \<Longrightarrow> valid_events ev \<and> ev \<noteq> 0"
  shows "\<exists>s'. bindR (foldR (\<lambda>ev. set_events upd ev p) (ev # evs) s)
      (\<lambda>s. bindR (disableAll upd p s) (Channel_remove rem p)) = Inr s' \<and>
    inv s' \<and> channels s' = channels s \<and> watched s' = watched s"
proof -
  obtain s1 i where s1: "set_events upd ev p s = Inr s1" "inv s1" "same s s1"
    "channels s1 = (channels s)(fd c \<mapsto> p)" "watched s1 = (watched s)(fd c \<mapsto> ev)"
    "heap s1 = (heap s)(p \<mapsto> c\<lparr>events := ev, addedToLoop := True, index := i\<rparr>)"
    using upd_new [OF assms(1-7,10)] by auto
  note f1 = same_fields [OF s1(3)]
  obtain s2 c2 where s2: "foldR (\<lambda>ev. set_events upd ev p) evs s1 = Inr s2" "inv s2"
    "threadId s2 = tid s2" "eventHandling_loop s2 = eventHandling_loop s"
    "activeChannels s2 = activeChannels s" "currentActiveChannel s2 = currentActiveChannel s"
    "channels s2 = channels s1" "heap s2 p = Some c2" "fd c2 = fd c" "watched s2 (fd c) \<noteq> None"
    "\<forall>k. k \<noteq> fd c \<longrightarrow> watched s2 k = watched s1 k"
    using changes_ok [OF s1(2), of p "c\<lparr>events := ev, addedToLoop := True, index := i\<rparr>" evs]
      assms(2,11) f1 s1(4-6) by auto
  obtain s3 j where s3: "set_events upd 0 p s2 = Inr s3" "inv s3" "same s2 s3"
    "channels s3 = channels s2" "watched s3 = (watched s2)(fd c := None)"
    "heap s3 = (heap s2)(p \<mapsto> c2\<lparr>events := 0, addedToLoop := True, index := j\<rparr>)"
    using upd_mod [OF s2(2,3,8), of 0] s2(7,9,10) s1(4) by auto
  have w: "watched s3 = watched s"
    using s3(5) s2(11) s1(5) assms(8) by (auto simp: fun_eq_iff)
  have "\<exists>s'. Channel_remove rem p s3 = Inr s' \<and> inv s' \<and> channels s' = (channels s3)(fd c := None) \<and>
      watched s' = watched s3"
    using rem_law [OF s3(2), of p "c2\<lparr>events := 0, addedToLoop := True, index := j\<rparr>"]
      same_fields [OF s3(3)] s2 s3(4-6) s1(4) assms(9) by fastforce
  with s1(1,4) s2(1,7) s3(1,4) w assms(6) show ?thesis
    by (auto simp: interest_ops(5) [OF s2(8)] fun_upd_idem)
qed

end

section \<open>EPollPoller implements the contract\<close>

text \<open>
  What \<open>epoll_ctl\<close> documents, for valid descriptors and while resources last: adding a
  descriptor that is not in the interest set, changing and deleting one that is,
  succeed and have exactly that effect.
\<close>

locale epoll_kernel =
  fixes ctl :: epoll_ctl
  assumes ctl_add: "0 \<le> k \<Longrightarrow> K k = None \<Longrightarrow> ctl EPOLL_CTL_ADD k ev K = (True, K(k \<mapsto> ev))"
    and ctl_mod: "0 \<le> k \<Longrightarrow> K k = Some ev' \<Longrightarrow> ctl EPOLL_CTL_MOD k ev K = (True, K(k \<mapsto> ev))"
    and ctl_del: "0 \<le> k \<Longrightarrow> K k = Some ev' \<Longrightarrow> ctl EPOLL_CTL_DEL k ev K = (True, K(k := None))"

definition epoll_inv :: "'z EPoll_scheme \<Rightarrow> bool" where
  "epoll_inv s \<longleftrightarrow>
     (\<forall>k p. channels s k = Some p \<longrightarrow> (\<exists>c. heap s p = Some c \<and> fd c = k \<and> 0 \<le> k \<and>
        ownerLoop c = self s \<and> valid_events (events c) \<and>
        (index c = kAdded \<and> epoll s k = Some (events c, p) \<or>
         index c = kDeleted \<and> events c = 0 \<and> epoll s k = None))) \<and>
     (\<forall>k. channels s k = None \<longrightarrow> epoll s k = None)"

definition epoll_watched :: "'z EPoll_scheme \<Rightarrow> int \<rightharpoonup> 32 word" where
  "epoll_watched s k = map_option fst (epoll s k)"

definition epoll_same :: "'z EPoll_scheme \<Rightarrow> 'z EPoll_scheme \<Rightarrow> bool" where
  "epoll_same s s' \<longleftrightarrow> (\<exists>h c k. s' = s\<lparr>heap := h, channels := c, epoll := k\<rparr>)"

lemma epoll_sameI [simp]:
  "epoll_same s (s\<lparr>heap := h, channels := c, epoll := k\<rparr>)"
  "epoll_same s (s\<lparr>heap := h, channels := c\<rparr>)"
proof -
  show "epoll_same s (s\<lparr>heap := h, channels := c, epoll := k\<rparr>)" for k
    unfolding epoll_same_def by blast
  from this [of "epoll s"] show "epoll_same s (s\<lparr>heap := h, channels := c\<rparr>)" by simp
qed

lemma epoll_invD:
  assumes "epoll_inv s" and "channels s k = Some p"
  shows "\<exists>c. heap s p = Some c \<and> fd c = k \<and> 0 \<le> k \<and> ownerLoop c = self s \<and> valid_events (events c) \<and>
    (index c = kAdded \<and> epoll s k = Some (events c, p) \<or>
     index c = kDeleted \<and> events c = 0 \<and> epoll s k = None)"
  using assms by (simp add: epoll_inv_def)

text \<open>The invariant after a change at one descriptor and its channel.\<close>

lemma epoll_inv_upd:
  assumes "epoll_inv s" and "heap s p = Some c" and "channels s (fd c) = None \<or> channels s (fd c) = Some p"
    and "fd c' = fd c" and "ownerLoop c' = self s" and "valid_events (events c')" and "0 \<le> fd c"
    and "index c' = kAdded \<and> e = Some (events c', p) \<or> index c' = kDeleted \<and> events c' = 0 \<and> e = None"
  shows "epoll_inv (s\<lparr>heap := (heap s)(p \<mapsto> c'), channels := (channels s)(fd c \<mapsto> p),
    epoll := (epoll s)(fd c := e)\<rparr>)"
proof -
  have "q \<noteq> p" if "channels s k = Some q" "k \<noteq> fd c" for k q
    using epoll_invD [OF assms(1) that(1)] assms(2) that(2) by auto
  with assms show ?thesis unfolding epoll_inv_def by auto
qed

lemma index_idem:
  "index c = i \<Longrightarrow> c\<lparr>events := e, addedToLoop := a, index := i\<rparr> = c\<lparr>events := e, addedToLoop := a\<rparr>"
  by (cases c) simp

context epoll_kernel
begin

lemma epoll_update_new:
  assumes "epoll_inv s" and "threadId s = tid s" and "heap s p = Some c" and "ownerLoop c = self s"
    and "index c = kNew" and "channels s (fd c) = None" and "0 \<le> fd c"
  shows "set_events (EPollPoller_updateChannel ctl) ev p s = Inr (s\<lparr>
    heap := (heap s)(p \<mapsto> c\<lparr>events := ev, addedToLoop := True, index := kAdded\<rparr>),
    channels := (channels s)(fd c \<mapsto> p), epoll := (epoll s)(fd c \<mapsto> (ev, p))\<rparr>)"
proof -
  have "epoll s (fd c) = None" using assms(1,6) by (simp add: epoll_inv_def)
  with assms ctl_add show ?thesis
    by (simp add: set_events_unfold EPollPoller_updateChannel_def EPollPoller_update_def)
qed

lemma epoll_update_mod:
  assumes "epoll_inv s" and "threadId s = tid s" and "heap s p = Some c" and "channels s (fd c) = Some p"
    and "ev \<noteq> 0 \<or> epoll s (fd c) \<noteq> None"
  defines "i \<equiv> if ev = 0 then kDeleted else kAdded"
  shows "set_events (EPollPoller_updateChannel ctl) ev p s = Inr (s\<lparr>
    heap := (heap s)(p \<mapsto> c\<lparr>events := ev, addedToLoop := True, index := i\<rparr>),
    channels := (channels s)(fd c \<mapsto> p),
    epoll := (epoll s)(fd c := if ev = 0 then None else Some (ev, p))\<rparr>)"
proof -
  have idem: "(channels s)(fd c \<mapsto> p) = channels s" using assms(4) by (rule fun_upd_idem)
  have o: "ownerLoop c = self s" "0 \<le> fd c" and
    "index c = kAdded \<and> epoll s (fd c) = Some (events c, p) \<or> index c = kDeleted \<and> epoll s (fd c) = None"
    using epoll_invD [OF assms(1,4)] assms(3) by auto
  then consider (added) "index c = kAdded" "epoll s (fd c) = Some (events c, p)"
    | (deleted) "index c = kDeleted" "epoll s (fd c) = None" by auto
  then show ?thesis
  proof cases
    case added
    then have "index c \<noteq> kNew" "index c \<noteq> kDeleted"
      by (simp_all add: kNew_def kAdded_def kDeleted_def)
    with added o assms(2-4) idem show ?thesis
      by (simp add: set_events_unfold EPollPoller_updateChannel_def EPollPoller_update_def i_def
          ctl_mod ctl_del index_idem isNoneEvent_def kNoneEvent_def)
  next
    case deleted
    with o assms(2-5) idem show ?thesis
      by (simp add: set_events_unfold EPollPoller_updateChannel_def EPollPoller_update_def i_def
          ctl_add kNew_def kDeleted_def)
  qed
qed

text \<open>
  Emptying an interest that is already empty is not a no-op: a channel that was deleted
  from the interest set is added to it again, with an empty mask.
\<close>

lemma epoll_update_zero:
  assumes "epoll_inv s" and "threadId s = tid s" and "heap s p = Some c" and "channels s (fd c) = Some p"
    and "events c = 0"
  defines "i \<equiv> if epoll s (fd c) = None then kAdded else kDeleted"
  shows "set_events (EPollPoller_updateChannel ctl) 0 p s = Inr (s\<lparr>
    heap := (heap s)(p \<mapsto> c\<lparr>events := 0, addedToLoop := True, index := i\<rparr>),
    channels := (channels s)(fd c \<mapsto> p),
    epoll := (epoll s)(fd c := if epoll s (fd c) = None then Some (0, p) else None)\<rparr>)"
proof -
  have idem: "(channels s)(fd c \<mapsto> p) = channels s" using assms(4) by (rule fun_upd_idem)
  have o: "ownerLoop c = self s" "0 \<le> fd c" and
    "index c = kAdded \<and> epoll s (fd c) = Some (events c, p) \<or> index c = kDeleted \<and> epoll s (fd c) = None"
    using epoll_invD [OF assms(1,4)] assms(3) by auto
  then consider (added) "index c = kAdded" "epoll s (fd c) = Some (events c, p)"
    | (deleted) "index c = kDeleted" "epoll s (fd c) = None" by auto
  then show ?thesis
  proof cases
    case added
    then have "index c \<noteq> kNew" "index c \<noteq> kDeleted"
      by (simp_all add: kNew_def kAdded_def kDeleted_def)
    with added o assms(2-4) idem show ?thesis
      by (simp add: set_events_unfold EPollPoller_updateChannel_def EPollPoller_update_def i_def
          ctl_del isNoneEvent_def kNoneEvent_def)
  next
    case deleted
    with o assms(2-5) idem show ?thesis
      by (simp add: set_events_unfold EPollPoller_updateChannel_def EPollPoller_update_def i_def
          ctl_add kNew_def kDeleted_def)
  qed
qed

lemma epoll_remove:
  assumes "epoll_inv s" and "threadId s = tid s" and "heap s p = Some c" and "channels s (fd c) = Some p"
    and "events c = 0"
    and "eventHandling_loop s \<Longrightarrow> currentActiveChannel s = Some p \<or> p \<notin> set (activeChannels s)"
  shows "Channel_remove (EPollPoller_removeChannel ctl) p s = Inr (s\<lparr>
    heap := (heap s)(p \<mapsto> c\<lparr>addedToLoop := False, index := kNew\<rparr>),
    channels := (channels s)(fd c := None), epoll := (epoll s)(fd c := None)\<rparr>)"
proof -
  have "ownerLoop c = self s" "0 \<le> fd c"
    "index c = kAdded \<and> epoll s (fd c) = Some (0, p) \<or> index c = kDeleted \<and> epoll s (fd c) = None"
    using epoll_invD [OF assms(1,4)] assms(3,5) by auto
  with assms(2-6) ctl_del show ?thesis
    by (auto simp: Channel_remove_unfold EPollPoller_removeChannel_def EPollPoller_update_def
        isNoneEvent_def kNoneEvent_def kAdded_def kDeleted_def fun_upd_idem)
qed

lemma epoll_inv_remove:
  assumes "epoll_inv s" and "heap s p = Some c" and "channels s (fd c) = Some p"
  shows "epoll_inv (s\<lparr>heap := (heap s)(p \<mapsto> c'), channels := (channels s)(fd c := None),
    epoll := (epoll s)(fd c := None)\<rparr>)"
proof -
  have "q \<noteq> p" if "channels s k = Some q" "k \<noteq> fd c" for k q
    using epoll_invD [OF assms(1) that(1)] assms(2) that(2) by auto
  with assms(1) show ?thesis unfolding epoll_inv_def by auto
qed

end

sublocale epoll_kernel \<subseteq> epoll: poller "EPollPoller_updateChannel ctl" "EPollPoller_removeChannel ctl"
  epoll_inv epoll_watched epoll_same
proof
  fix s :: "'a EPoll_scheme" and s' p c ev k
  show "\<exists>s' i. set_events (EPollPoller_updateChannel ctl) ev p s = Inr s' \<and> epoll_inv s' \<and> epoll_same s s' \<and>
      channels s' = (channels s)(fd c \<mapsto> p) \<and> epoll_watched s' = (epoll_watched s)(fd c \<mapsto> ev) \<and>
      heap s' = (heap s)(p \<mapsto> c\<lparr>events := ev, addedToLoop := True, index := i\<rparr>)"
    if "epoll_inv s" "threadId s = tid s" "heap s p = Some c" "ownerLoop c = self s" "index c = kNew"
      "channels s (fd c) = None" "0 \<le> fd c" "valid_events ev"
    using epoll_update_new [OF that(1-7), of ev] that
      epoll_inv_upd [OF that(1,3), of "c\<lparr>events := ev, addedToLoop := True, index := kAdded\<rparr>" "Some (ev, p)"]
    by (auto simp: epoll_same_def epoll_watched_def fun_eq_iff)
  show "\<exists>s' i. set_events (EPollPoller_updateChannel ctl) ev p s = Inr s' \<and> epoll_inv s' \<and> epoll_same s s' \<and>
      channels s' = channels s \<and>
      epoll_watched s' = (epoll_watched s)(fd c := if ev = 0 then None else Some ev) \<and>
      heap s' = (heap s)(p \<mapsto> c\<lparr>events := ev, addedToLoop := True, index := i\<rparr>)"
    if "epoll_inv s" "threadId s = tid s" "heap s p = Some c" "channels s (fd c) = Some p" "valid_events ev"
      "ev \<noteq> 0 \<or> epoll_watched s (fd c) \<noteq> None"
  proof -
    let ?c = "c\<lparr>events := ev, addedToLoop := True, index := if ev = 0 then kDeleted else kAdded\<rparr>"
    let ?s = "s\<lparr>heap := (heap s)(p \<mapsto> ?c), channels := (channels s)(fd c \<mapsto> p),
      epoll := (epoll s)(fd c := if ev = 0 then None else Some (ev, p))\<rparr>"
    have "epoll_inv ?s"
      using epoll_inv_upd [OF that(1,3), of ?c "if ev = 0 then None else Some (ev, p)"]
        that epoll_invD [OF that(1,4)] by auto
    moreover have "set_events (EPollPoller_updateChannel ctl) ev p s = Inr ?s"
      using epoll_update_mod [OF that(1-4), of ev] that(6) by (auto simp: epoll_watched_def)
    moreover have "channels ?s = channels s"
      using that(4) by (auto simp: fun_eq_iff)
    moreover have "epoll_same s ?s" unfolding epoll_same_def by blast
    moreover have "epoll_watched ?s = (epoll_watched s)(fd c := if ev = 0 then None else Some ev)"
      by (auto simp: epoll_watched_def fun_eq_iff)
    moreover have "heap ?s = (heap s)(p \<mapsto> ?c)" by simp
    ultimately show ?thesis by blast
  qed
  show "\<exists>s' i. Channel_remove (EPollPoller_removeChannel ctl) p s = Inr s' \<and> epoll_inv s' \<and> epoll_same s s' \<and>
      channels s' = (channels s)(fd c := None) \<and> epoll_watched s' = epoll_watched s \<and>
      heap s' p = Some (c\<lparr>addedToLoop := False, index := i\<rparr>) \<and>
      (\<forall>q. q \<noteq> p \<longrightarrow> map_option (index_update (\<lambda>_. 0)) (heap s' q) =
                    map_option (index_update (\<lambda>_. 0)) (heap s q)) \<and>
      (\<forall>q. q \<notin> ran (channels s) \<longrightarrow> heap s' q = heap s q)"
    if "epoll_inv s" "threadId s = tid s" "heap s p = Some c" "channels s (fd c) = Some p"
      "epoll_watched s (fd c) = None"
      "eventHandling_loop s \<Longrightarrow> currentActiveChannel s = Some p \<or> p \<notin> set (activeChannels s)"
  proof -
    have "events c = 0" "epoll s (fd c) = None"
      using epoll_invD [OF that(1,4)] that(3,5) by (auto simp: epoll_watched_def)
    with epoll_remove [OF that(1-4) _ that(6)] epoll_inv_remove [OF that(1,3,4)]
      ranI [of "channels s", OF that(4)] show ?thesis
      by (auto simp: epoll_watched_def fun_upd_idem)
  qed
  show "\<exists>c. heap s p = Some c \<and> fd c = k \<and> ownerLoop c = self s \<and> valid_events (events c) \<and>
      (epoll_watched s k = Some (events c) \<or> epoll_watched s k = None \<and> events c = 0)"
    if "epoll_inv s" "channels s k = Some p"
    using epoll_invD [OF that] by (auto simp: epoll_watched_def)
  show "self s' = self s \<and> threadId s' = threadId s \<and> tid s' = tid s \<and>
      eventHandling_loop s' = eventHandling_loop s \<and> activeChannels s' = activeChannels s \<and>
      currentActiveChannel s' = currentActiveChannel s"
    if "epoll_same s s'"
    using that by (auto simp: epoll_same_def)
qed

text \<open>The kernel's \<open>epoll_ctl\<close> as documented, with its failures \<open>EEXIST\<close> and \<open>ENOENT\<close>.\<close>

fun linux_epoll_ctl :: epoll_ctl where
  "linux_epoll_ctl EPOLL_CTL_ADD k ev K = (if K k = None then (True, K(k \<mapsto> ev)) else (False, K))"
| "linux_epoll_ctl EPOLL_CTL_MOD k ev K = (if K k = None then (False, K) else (True, K(k \<mapsto> ev)))"
| "linux_epoll_ctl EPOLL_CTL_DEL k ev K = (if K k = None then (False, K) else (True, K(k := None)))"

interpretation linux: epoll_kernel linux_epoll_ctl
  by unfold_locales simp_all

section \<open>PollPoller implements the contract\<close>

text \<open>
  A registered channel's \<open>index_\<close> is its position in \<open>pollfds_\<close>; the entry holds the
  descriptor, or its negation minus one when the entry is to be ignored.
\<close>

definition real_fd :: "int \<Rightarrow> int" where
  "real_fd k = (if k < 0 then - k - 1 else k)"

definition poll_entry :: "pollfd list \<Rightarrow> nat \<Rightarrow> int \<Rightarrow> Channel \<Rightarrow> bool" where
  "poll_entry pfds loop k c \<longleftrightarrow>
     fd c = k \<and> 0 \<le> k \<and> ownerLoop c = loop \<and> valid_events (events c) \<and>
     0 \<le> index c \<and> nat (index c) < length pfds \<and>
     real_fd (pfd_fd (pfds ! nat (index c))) = k \<and>
     pfd_events (pfds ! nat (index c)) = ucast (events c) \<and>
     (events c \<noteq> 0 \<longrightarrow> 0 \<le> pfd_fd (pfds ! nat (index c)))"

definition poll_inv :: "'z PollP_scheme \<Rightarrow> bool" where
  "poll_inv s \<longleftrightarrow>
     (\<forall>k p. channels s k = Some p \<longrightarrow> (\<exists>c. heap s p = Some c \<and> poll_entry (pollfds s) (self s) k c)) \<and>
     (\<forall>i < length (pollfds s). \<exists>p c. channels s (real_fd (pfd_fd (pollfds s ! i))) = Some p \<and>
        heap s p = Some c \<and> index c = int i)"

definition poll_watched :: "'z PollP_scheme \<Rightarrow> int \<rightharpoonup> 32 word" where
  "poll_watched s k =
     (if k < 0 then None
      else map_option (\<lambda>e. ucast (pfd_events e)) (List.find (\<lambda>e. pfd_fd e = k) (pollfds s)))"

definition poll_same :: "'z PollP_scheme \<Rightarrow> 'z PollP_scheme \<Rightarrow> bool" where
  "poll_same s s' \<longleftrightarrow> (\<exists>h c k. s' = s\<lparr>heap := h, channels := c, pollfds := k\<rparr>)"

lemma poll_sameI [simp]:
  "poll_same s (s\<lparr>heap := h, channels := c, pollfds := k\<rparr>)"
  "poll_same s (s\<lparr>heap := h, pollfds := k\<rparr>)"
proof -
  show "poll_same s (s\<lparr>heap := h, channels := c, pollfds := k\<rparr>)" for c
    unfolding poll_same_def by blast
  from this [of "channels s"] show "poll_same s (s\<lparr>heap := h, pollfds := k\<rparr>)" by simp
qed

lemma short_events:
  "valid_events ev \<Longrightarrow> ucast (ucast ev :: 16 word) = ev"
  "valid_events ev \<Longrightarrow> scast (ucast ev :: 16 word) = ev"
  by (auto simp: valid_events_def)

lemma poll_invE:
  "poll_inv s \<Longrightarrow> channels s k = Some p \<Longrightarrow>
   \<exists>c. heap s p = Some c \<and> poll_entry (pollfds s) (self s) k c"
  by (simp add: poll_inv_def)

lemma poll_invD:
  assumes "poll_inv s" and "channels s k = Some p" and "heap s p = Some c"
  shows "poll_entry (pollfds s) (self s) k c"
  using assms unfolding poll_inv_def by force

lemma poll_inv_entry:
  assumes "poll_inv s" and "i < length (pollfds s)"
  shows "\<exists>p c. channels s (real_fd (pfd_fd (pollfds s ! i))) = Some p \<and> heap s p = Some c \<and> index c = int i"
  using assms by (auto simp: poll_inv_def)

lemma poll_inv_ptr:
  assumes "poll_inv s" and "heap s p = Some c" and "channels s k = Some p"
  shows "k = fd c"
  using poll_invD [OF assms(1,3,2)] by (simp add: poll_entry_def)

text \<open>The watched descriptors in terms of the registered channels.\<close>

lemma poll_watched_eq:
  assumes "poll_inv s"
  shows "poll_watched s k = (case channels s k of None \<Rightarrow> None | Some p \<Rightarrow>
    (case heap s p of None \<Rightarrow> None | Some c \<Rightarrow>
       if 0 \<le> pfd_fd (pollfds s ! nat (index c)) then Some (events c) else None))"
proof (cases "channels s k")
  case None
  have "pfd_fd e \<noteq> k" if "e \<in> set (pollfds s)" "0 \<le> k" for e
    using that None by (auto simp: in_set_conv_nth real_fd_def dest!: poll_inv_entry [OF assms])
  then have "0 \<le> k \<Longrightarrow> List.find (\<lambda>e. pfd_fd e = k) (pollfds s) = None"
    by (auto simp: find_None_iff)
  with None show ?thesis by (simp add: poll_watched_def)
next
  case (Some p)
  then obtain c where c: "heap s p = Some c" using poll_invE [OF assms] by blast
  let ?e = "pollfds s ! nat (index c)"
  have e: "fd c = k" "0 \<le> k" "valid_events (events c)" "real_fd (pfd_fd ?e) = k"
    "pfd_events ?e = ucast (events c)" "nat (index c) < length (pollfds s)" "0 \<le> index c"
    using poll_invD [OF assms Some c] by (simp_all add: poll_entry_def)
  show ?thesis
  proof (cases "List.find (\<lambda>e. pfd_fd e = k) (pollfds s)")
    case None
    then have "pfd_fd ?e \<noteq> k" using e(6) by (auto simp: find_None_iff)
    then have "pfd_fd ?e < 0" using e(4) by (simp add: real_fd_def split: if_splits)
    with None Some c show ?thesis by (simp add: poll_watched_def)
  next
    case (Some e')
    then obtain i where i: "i < length (pollfds s)" "pfd_fd (pollfds s ! i) = k" "e' = pollfds s ! i"
      by (auto simp: find_Some_iff)
    then have "real_fd (pfd_fd (pollfds s ! i)) = k" using e(2) by (simp add: real_fd_def)
    with poll_inv_entry [OF assms i(1)] \<open>channels s k = Some p\<close> c have "index c = int i" by auto
    with Some i e(2,3,5) c \<open>channels s k = Some p\<close> show ?thesis
      by (simp add: poll_watched_def short_events)
  qed
qed

text \<open>Registering a new channel, changing one, removing one: the three updates of the state.\<close>

lemma poll_inv_new:
  assumes "poll_inv s" and "heap s p = Some c" and "channels s (fd c) = None" and "0 \<le> fd c"
    and "ownerLoop c = self s" and "valid_events ev"
  defines "c' \<equiv> c\<lparr>events := ev, addedToLoop := True, index := int (length (pollfds s))\<rparr>"
  defines "s' \<equiv> s\<lparr>heap := (heap s)(p \<mapsto> c'), channels := (channels s)(fd c \<mapsto> p),
    pollfds := pollfds s @ [\<lparr>pfd_fd = fd c, pfd_events = ucast ev, pfd_revents = 0\<rparr>]\<rparr>"
  shows "poll_inv s'"
proof -
  have ne: "q \<noteq> p" if "channels s k = Some q" for k q
    using poll_inv_ptr [OF assms(1,2)] that assms(3) by auto
  have "\<exists>d. heap s' q = Some d \<and> poll_entry (pollfds s') (self s') k d" if "channels s' k = Some q" for k q
  proof (cases "k = fd c")
    case True
    with that assms(4-6) show ?thesis by (simp add: s'_def c'_def poll_entry_def real_fd_def)
  next
    case False
    with that have q: "channels s k = Some q" by (simp add: s'_def)
    with poll_invE [OF assms(1)] obtain d where "heap s q = Some d" "poll_entry (pollfds s) (self s) k d"
      by blast
    with ne [OF q] show ?thesis by (auto simp: s'_def poll_entry_def nth_append)
  qed
  moreover have "\<exists>q d. channels s' (real_fd (pfd_fd (pollfds s' ! i))) = Some q \<and> heap s' q = Some d \<and>
      index d = int i" if "i < length (pollfds s')" for i
  proof (cases "i < length (pollfds s)")
    case True
    with poll_inv_entry [OF assms(1) True] ne assms(3) show ?thesis
      by (auto simp: s'_def nth_append)
  next
    case False
    with that have "i = length (pollfds s)" by (simp add: s'_def)
    with assms(4) show ?thesis by (auto simp: s'_def c'_def real_fd_def)
  qed
  ultimately show ?thesis unfolding poll_inv_def by blast
qed

lemma poll_inv_mod:
  assumes "poll_inv s" and "heap s p = Some c" and "channels s (fd c) = Some p" and "valid_events ev"
    and "real_fd n = fd c" and "ev \<noteq> 0 \<Longrightarrow> 0 \<le> n"
  defines "c' \<equiv> c\<lparr>events := ev, addedToLoop := True\<rparr>"
  defines "s' \<equiv> s\<lparr>heap := (heap s)(p \<mapsto> c'), pollfds := (pollfds s)
    [nat (index c) := \<lparr>pfd_fd = n, pfd_events = ucast ev, pfd_revents = 0\<rparr>]\<rparr>"
  shows "poll_inv s'"
proof -
  have c: "poll_entry (pollfds s) (self s) (fd c) c" by (rule poll_invD [OF assms(1,3,2)])
  have "\<exists>d. heap s' q = Some d \<and> poll_entry (pollfds s') (self s') k d" if "channels s' k = Some q" for k q
  proof (cases "k = fd c")
    case True
    with that c assms(3-6) show ?thesis by (simp add: s'_def c'_def poll_entry_def)
  next
    case False
    with that have q: "channels s k = Some q" by (simp add: s'_def)
    with poll_invE [OF assms(1)] obtain d where d: "heap s q = Some d" "poll_entry (pollfds s) (self s) k d"
      by blast
    have "q \<noteq> p" using poll_inv_ptr [OF assms(1,2)] q False by auto
    moreover have "nat (index d) \<noteq> nat (index c)" using c d(2) False by (auto simp: poll_entry_def)
    ultimately show ?thesis using d by (simp add: s'_def poll_entry_def)
  qed
  moreover have "\<exists>q d. channels s' (real_fd (pfd_fd (pollfds s' ! i))) = Some q \<and> heap s' q = Some d \<and>
      index d = int i" if "i < length (pollfds s')" for i
  proof (cases "i = nat (index c)")
    case True
    with that c assms(3,5) show ?thesis by (simp add: s'_def c'_def poll_entry_def)
  next
    case False
    from that have "i < length (pollfds s)" by (simp add: s'_def)
    from poll_inv_entry [OF assms(1) this] obtain q d where
      d: "channels s (real_fd (pfd_fd (pollfds s ! i))) = Some q" "heap s q = Some d" "index d = int i"
      by blast
    have "q \<noteq> p" using d assms(2) False by auto
    with d False show ?thesis by (simp add: s'_def)
  qed
  ultimately show ?thesis unfolding poll_inv_def by blast
qed

lemma poll_inv_pop:
  fixes c' :: Channel
  assumes "poll_inv s" and "heap s p = Some c" and "channels s (fd c) = Some p"
    and "nat (index c) = length (pollfds s) - 1"
  defines "s' \<equiv> s\<lparr>heap := (heap s)(p \<mapsto> c'), channels := (channels s)(fd c := None),
    pollfds := butlast (pollfds s)\<rparr>"
  shows "poll_inv s'"
proof -
  have c: "poll_entry (pollfds s) (self s) (fd c) c" by (rule poll_invD [OF assms(1,3,2)])
  have "\<exists>d. heap s' q = Some d \<and> poll_entry (pollfds s') (self s') k d" if "channels s' k = Some q" for k q
  proof -
    from that have q: "channels s k = Some q" and k: "k \<noteq> fd c" by (auto simp: s'_def split: if_splits)
    with poll_invE [OF assms(1)] obtain d where d: "heap s q = Some d" "poll_entry (pollfds s) (self s) k d"
      by blast
    have "q \<noteq> p" using poll_inv_ptr [OF assms(1,2)] q k by auto
    moreover have "nat (index d) \<noteq> nat (index c)" using c d(2) k by (auto simp: poll_entry_def)
    ultimately show ?thesis
      using d assms(4) by (auto simp: s'_def poll_entry_def nth_butlast)
  qed
  moreover have "\<exists>q d. channels s' (real_fd (pfd_fd (pollfds s' ! i))) = Some q \<and> heap s' q = Some d \<and>
      index d = int i" if "i < length (pollfds s')" for i
  proof -
    from that have i: "i < length (pollfds s) - 1" by (simp add: s'_def)
    then have i': "i < length (pollfds s)" by simp
    from poll_inv_entry [OF assms(1) i'] obtain q d where
      d: "channels s (real_fd (pfd_fd (pollfds s ! i))) = Some q" "heap s q = Some d" "index d = int i"
      by blast
    have "q \<noteq> p" using d assms(2,4) i by auto
    moreover have "real_fd (pfd_fd (pollfds s ! i)) \<noteq> fd c" using d assms(2,3) \<open>q \<noteq> p\<close> by auto
    ultimately show ?thesis using d i by (simp add: s'_def nth_butlast)
  qed
  ultimately show ?thesis unfolding poll_inv_def by blast
qed

text \<open>The last entry moves into the removed one's place, and its channel learns the new index.\<close>

lemma poll_inv_swap:
  fixes c' :: Channel and e :: pollfd
  assumes "poll_inv s" and "heap s p = Some c" and "channels s (fd c) = Some p"
    and "nat (index c) < length (pollfds s) - 1"
    and "channels s (real_fd (pfd_fd (last (pollfds s)))) = Some q" and "heap s q = Some d"
  defines "s' \<equiv> s\<lparr>heap := (heap s)(p \<mapsto> c', q \<mapsto> d\<lparr>index := index c\<rparr>),
    channels := (channels s)(fd c := None),
    pollfds := butlast ((pollfds s)[nat (index c) := last (pollfds s), length (pollfds s) - 1 := e])\<rparr>"
  shows "q \<noteq> p \<and> poll_inv s'"
proof -
  let ?n = "length (pollfds s)" and ?i = "nat (index c)"
  have last: "last (pollfds s) = pollfds s ! (?n - 1)" 
    using assms(4) by (cases "pollfds s = []") (simp_all add: last_conv_nth)
  have nth: "pollfds s' ! j = (if j = ?i then pollfds s ! (?n - 1) else pollfds s ! j)" if "j < ?n - 1" for j
    using that assms(4) by (simp add: s'_def nth_butlast nth_list_update last)
  have len: "length (pollfds s') = ?n - 1" by (simp add: s'_def)
  have c: "poll_entry (pollfds s) (self s) (fd c) c" by (rule poll_invD [OF assms(1,3,2)])
  have dq: "poll_entry (pollfds s) (self s) (fd d) d" "index d = int (?n - 1)"
    "real_fd (pfd_fd (pollfds s ! (?n - 1))) = fd d"
    using poll_invD [OF assms(1,5,6)] poll_inv_entry [OF assms(1), of "?n - 1"] assms(4-6) last
    by (auto simp: poll_entry_def)
  have dn: "nat (index d) = ?n - 1" using dq(2) by simp
  have qp: "q \<noteq> p" using assms(2,4,6) dq(2) by auto
  have fdne: "fd d \<noteq> fd c" using assms(3,5) dq(3) last qp by auto
  have "\<exists>d. heap s' r = Some d \<and> poll_entry (pollfds s') (self s') k d" if "channels s' k = Some r" for k r
  proof -
    from that have r: "channels s k = Some r" and k: "k \<noteq> fd c" by (auto simp: s'_def split: if_splits)
    with poll_invE [OF assms(1)] obtain a where a: "heap s r = Some a" "poll_entry (pollfds s) (self s) k a"
      by blast
    have rp: "r \<noteq> p" using poll_inv_ptr [OF assms(1,2)] r k by auto
    show ?thesis
    proof (cases "r = q")
      case True
      with a assms(6) have "a = d" by simp
      with a(2) True dq(1,3) dn c assms(4) nth [of ?i] qp len show ?thesis
        by (simp add: s'_def poll_entry_def)
    next
      case False
      have "nat (index a) \<noteq> ?i" using c a(2) k by (auto simp: poll_entry_def)
      moreover have "nat (index a) \<noteq> ?n - 1"
        using False r assms(5) a(2) last by (auto simp: poll_entry_def)
      moreover have "nat (index a) < ?n" using a(2) by (simp add: poll_entry_def)
      ultimately have lt: "nat (index a) < ?n - 1" and "nat (index a) \<noteq> ?i" by auto
      with a False rp nth [OF lt] len show ?thesis by (simp add: s'_def poll_entry_def)
    qed
  qed
  moreover have "\<exists>r a. channels s' (real_fd (pfd_fd (pollfds s' ! j))) = Some r \<and> heap s' r = Some a \<and>
      index a = int j" if "j < length (pollfds s')" for j
  proof (cases "j = ?i")
    case True
    with that len nth [of j] dq(3) fdne assms(5) last c show ?thesis
      by (auto simp: s'_def poll_entry_def)
  next
    case False
    from that len have j: "j < ?n - 1" by simp
    then have "j < ?n" by simp
    from poll_inv_entry [OF assms(1) this] obtain r a where
      a: "channels s (real_fd (pfd_fd (pollfds s ! j))) = Some r" "heap s r = Some a" "index a = int j"
      by blast
    have "r \<noteq> p" "r \<noteq> q" using a assms(2,6) False j dq(2) by auto
    moreover have "real_fd (pfd_fd (pollfds s ! j)) \<noteq> fd c" using a(1) assms(3) \<open>r \<noteq> p\<close> by auto
    ultimately show ?thesis using a nth [OF j] False by (simp add: s'_def)
  qed
  ultimately show ?thesis using qp unfolding poll_inv_def by blast
qed

lemma pollfd_updates:
  fixes e :: pollfd
  shows "e\<lparr>pfd_fd := k, pfd_events := v, pfd_revents := r\<rparr> = \<lparr>pfd_fd = k, pfd_events = v, pfd_revents = r\<rparr>"
    and "e\<lparr>pfd_events := v, pfd_revents := r, pfd_fd := k\<rparr> = \<lparr>pfd_fd = k, pfd_events = v, pfd_revents = r\<rparr>"
  by (cases e, simp)+

lemma find_snoc:
  "List.find P (xs @ [x]) = (case List.find P xs of None \<Rightarrow> if P x then Some x else None | Some y \<Rightarrow> Some y)"
  by (induction xs) auto

lemma poll_update_new:
  assumes "threadId s = tid s" and "heap s p = Some c" and "ownerLoop c = self s" and "index c = kNew"
    and "channels s (fd c) = None"
  shows "set_events PollPoller_updateChannel ev p s = Inr (s\<lparr>
    heap := (heap s)(p \<mapsto> c\<lparr>events := ev, addedToLoop := True, index := int (length (pollfds s))\<rparr>),
    channels := (channels s)(fd c \<mapsto> p),
    pollfds := pollfds s @ [\<lparr>pfd_fd = fd c, pfd_events = ucast ev, pfd_revents = 0\<rparr>]\<rparr>)"
  using assms by (simp add: set_events_unfold PollPoller_updateChannel_def kNew_def Let_def)

lemma poll_update_mod:
  assumes "poll_inv s" and "threadId s = tid s" and "heap s p = Some c" and "channels s (fd c) = Some p"
  shows "set_events PollPoller_updateChannel ev p s = Inr (s\<lparr>
    heap := (heap s)(p \<mapsto> c\<lparr>events := ev, addedToLoop := True\<rparr>),
    pollfds := (pollfds s)[nat (index c) := \<lparr>pfd_fd = if ev = 0 then - fd c - 1 else fd c,
      pfd_events = ucast ev, pfd_revents = 0\<rparr>]\<rparr>)"
proof -
  let ?e = "pollfds s ! nat (index c)"
  have "ownerLoop c = self s" "0 \<le> index c" "nat (index c) < length (pollfds s)"
    "real_fd (pfd_fd ?e) = fd c"
    using poll_invD [OF assms(1,4,3)] by (simp_all add: poll_entry_def)
  moreover from this have "pfd_fd ?e = fd c \<or> pfd_fd ?e = - fd c - 1" "index c < int (length (pollfds s))"
    by (auto simp: real_fd_def split: if_splits)
  ultimately show ?thesis
    using assms(2-4)
    by (simp add: set_events_unfold PollPoller_updateChannel_def Let_def isNoneEvent_def kNoneEvent_def
        not_less pollfd_updates)
qed

lemma poll_remove:
  assumes "poll_inv s" and "threadId s = tid s" and "heap s p = Some c" and "channels s (fd c) = Some p"
    and "pfd_fd (pollfds s ! nat (index c)) < 0"
    and "eventHandling_loop s \<Longrightarrow> currentActiveChannel s = Some p \<or> p \<notin> set (activeChannels s)"
  shows "\<exists>s'. Channel_remove PollPoller_removeChannel p s = Inr s' \<and> poll_inv s' \<and> poll_same s s' \<and>
    channels s' = (channels s)(fd c := None) \<and>
    heap s' p = Some (c\<lparr>addedToLoop := False\<rparr>) \<and>
    (\<forall>k q d. k \<noteq> fd c \<longrightarrow> channels s k = Some q \<longrightarrow> heap s q = Some d \<longrightarrow>
      (\<exists>d'. heap s' q = Some d' \<and> d'\<lparr>index := 0\<rparr> = d\<lparr>index := 0\<rparr> \<and>
        pollfds s' ! nat (index d') = pollfds s ! nat (index d))) \<and>
    (\<forall>q. q \<noteq> p \<longrightarrow> map_option (index_update (\<lambda>_. 0)) (heap s' q) =
                  map_option (index_update (\<lambda>_. 0)) (heap s q)) \<and>
    (\<forall>q. q \<notin> ran (channels s) \<longrightarrow> heap s' q = heap s q)"
proof -
  let ?c = "c\<lparr>addedToLoop := False\<rparr>"
  let ?n = "length (pollfds s)" and ?i = "nat (index c)"
  have c: "poll_entry (pollfds s) (self s) (fd c) c" by (rule poll_invD [OF assms(1,4,3)])
  then have e: "events c = 0" "ownerLoop c = self s" "0 \<le> index c" "?i < ?n" "index c < int ?n"
    "pfd_fd (pollfds s ! ?i) = - fd c - 1" "pfd_events (pollfds s ! ?i) = 0"
    using assms(5) by (auto simp: poll_entry_def real_fd_def split: if_splits)
  note unf = Channel_remove_unfold [OF assms(3) e(2) assms(2) e(1) assms(6)]
    PollPoller_removeChannel_def isNoneEvent_def kNoneEvent_def Let_def
  have other: "q \<noteq> p \<and> nat (index d) \<noteq> ?i \<and> nat (index d) < ?n"
    if "k \<noteq> fd c" "channels s k = Some q" "heap s q = Some d" for k q d
    using poll_invD [OF assms(1) that(2,3)] c poll_inv_ptr [OF assms(1,3)] that
    by (auto simp: poll_entry_def)
  show ?thesis
  proof (cases "?i = ?n - 1")
    case True
    let ?s = "s\<lparr>heap := (heap s)(p \<mapsto> ?c), channels := (channels s)(fd c := None),
      pollfds := butlast (pollfds s)\<rparr>"
    have "Channel_remove PollPoller_removeChannel p s = Inr ?s"
      using True e assms(2-4) by (simp add: unf)
    moreover have "poll_inv ?s" by (rule poll_inv_pop [OF assms(1,3,4) True])
    moreover have "butlast (pollfds s) ! nat (index d) = pollfds s ! nat (index d)"
      if "k \<noteq> fd c" "channels s k = Some q" "heap s q = Some d" for k q d
    proof -
      have "nat (index d) < length (butlast (pollfds s))" using other [OF that] True by auto
      then show ?thesis by (rule nth_butlast)
    qed
    ultimately show ?thesis
      using other ranI [of "channels s", OF assms(4)] by (auto intro!: exI [of _ ?s])
  next
    case False
    with e(4) have lt: "?i < ?n - 1" by simp
    let ?k = "real_fd (pfd_fd (last (pollfds s)))"
    have last: "last (pollfds s) = pollfds s ! (?n - 1)" 
      using e(4) by (cases "pollfds s = []") (simp_all add: last_conv_nth)
    obtain q d where q: "channels s ?k = Some q" "heap s q = Some d" "index d = int (?n - 1)"
    proof -
      have "?n - 1 < ?n" using e(4) by simp
      from poll_inv_entry [OF assms(1) this] that last show ?thesis by auto
    qed
    let ?s = "s\<lparr>heap := (heap s)(p \<mapsto> ?c, q \<mapsto> d\<lparr>index := index c\<rparr>),
      channels := (channels s)(fd c := None),
      pollfds := butlast ((pollfds s)[?i := last (pollfds s), ?n - 1 := pollfds s ! ?i])\<rparr>"
    have inv: "q \<noteq> p" "poll_inv ?s"
      using poll_inv_swap [where c' = ?c and e = "pollfds s ! ?i", OF assms(1,3,4) lt q(1,2)] by simp_all
    have k: "?k \<noteq> fd c" using q(1) assms(4) inv(1) by auto
    have "Channel_remove PollPoller_removeChannel p s = Inr ?s"
      using False e assms(2-4) q(1,2) k inv(1) by (simp add: unf real_fd_def split: if_splits)
    moreover have "\<exists>d'. heap ?s r = Some d' \<and> d'\<lparr>index := 0\<rparr> = a\<lparr>index := 0\<rparr> \<and>
        pollfds ?s ! nat (index d') = pollfds s ! nat (index a)"
      if "j \<noteq> fd c" "channels s j = Some r" "heap s r = Some a" for j r a
    proof (cases "r = q")
      case True
      moreover have "nat (index d) = ?n - 1" using q(3) by simp
      ultimately show ?thesis using q(1,2) that inv(1) lt last by (simp add: nth_butlast)
    next
      case False
      have "nat (index a) \<noteq> ?n - 1"
        using poll_invD [OF assms(1) that(2,3)] q False that(2) last by (auto simp: poll_entry_def)
      with other [OF that] have "nat (index a) < ?n - 1" "nat (index a) \<noteq> ?i" "r \<noteq> p" by auto
      with False that(3) show ?thesis by (simp add: nth_butlast)
    qed
    ultimately show ?thesis
      using inv q(2) ranI [of "channels s", OF assms(4)] ranI [of "channels s", OF q(1)]
      by (intro exI [of _ ?s]) auto
  qed
qed

interpretation poll: poller PollPoller_updateChannel PollPoller_removeChannel poll_inv poll_watched poll_same
proof
  fix s :: "'a PollP_scheme" and s' p c ev k
  show "\<exists>s' i. set_events PollPoller_updateChannel ev p s = Inr s' \<and> poll_inv s' \<and> poll_same s s' \<and>
      channels s' = (channels s)(fd c \<mapsto> p) \<and> poll_watched s' = (poll_watched s)(fd c \<mapsto> ev) \<and>
      heap s' = (heap s)(p \<mapsto> c\<lparr>events := ev, addedToLoop := True, index := i\<rparr>)"
    if "poll_inv s" "threadId s = tid s" "heap s p = Some c" "ownerLoop c = self s" "index c = kNew"
      "channels s (fd c) = None" "0 \<le> fd c" "valid_events ev"
  proof -
    let ?c = "c\<lparr>events := ev, addedToLoop := True, index := int (length (pollfds s))\<rparr>"
    let ?s = "s\<lparr>heap := (heap s)(p \<mapsto> ?c), channels := (channels s)(fd c \<mapsto> p),
      pollfds := pollfds s @ [\<lparr>pfd_fd = fd c, pfd_events = ucast ev, pfd_revents = 0\<rparr>]\<rparr>"
    have i: "poll_inv ?s" by (rule poll_inv_new [OF that(1,3,6,7,4,8)])
    have "poll_watched s (fd c) = None" using that(6) poll_watched_eq [OF that(1), of "fd c"] by simp
    then have "poll_watched ?s = (poll_watched s)(fd c \<mapsto> ev)"
      using that(7,8)
      by (auto simp: fun_eq_iff poll_watched_def find_snoc short_events split: option.splits)
    with i poll_update_new [OF that(2-6), of ev] show ?thesis
      by (intro exI [of _ ?s] exI [of _ "int (length (pollfds s))"]) simp
  qed
  show "\<exists>s' i. set_events PollPoller_updateChannel ev p s = Inr s' \<and> poll_inv s' \<and> poll_same s s' \<and>
      channels s' = channels s \<and>
      poll_watched s' = (poll_watched s)(fd c := if ev = 0 then None else Some ev) \<and>
      heap s' = (heap s)(p \<mapsto> c\<lparr>events := ev, addedToLoop := True, index := i\<rparr>)"
    if "poll_inv s" "threadId s = tid s" "heap s p = Some c" "channels s (fd c) = Some p" "valid_events ev"
  proof -
    let ?c = "c\<lparr>events := ev, addedToLoop := True\<rparr>"
    let ?e = "\<lparr>pfd_fd = if ev = 0 then - fd c - 1 else fd c, pfd_events = ucast ev, pfd_revents = 0\<rparr>"
    let ?s = "s\<lparr>heap := (heap s)(p \<mapsto> ?c), pollfds := (pollfds s)[nat (index c) := ?e]\<rparr>"
    have e: "poll_entry (pollfds s) (self s) (fd c) c" by (rule poll_invD [OF that(1,4,3)])
    have i: "poll_inv ?s"
      using poll_inv_mod [OF that(1,3,4,5), of "pfd_fd ?e"] e by (simp add: poll_entry_def real_fd_def)
    have w: "poll_watched ?s j = ((poll_watched s)(fd c := if ev = 0 then None else Some ev)) j" for j
    proof (cases "j = fd c")
      case True
      with that(4) e show ?thesis by (simp add: poll_watched_eq [OF i] poll_entry_def)
    next
      case False
      show ?thesis
      proof (cases "channels s j")
        case None
        with False show ?thesis by (simp add: poll_watched_eq [OF i] poll_watched_eq [OF that(1)])
      next
        case (Some q)
        then obtain d where d: "heap s q = Some d" "poll_entry (pollfds s) (self s) j d"
          using poll_invE [OF \<open>poll_inv s\<close>] by blast
        then have "q \<noteq> p" "nat (index d) \<noteq> nat (index c)"
          using e False that(3) by (auto simp: poll_entry_def)
        with Some d(1) False show ?thesis
          by (simp add: poll_watched_eq [OF i] poll_watched_eq [OF that(1)])
      qed
    qed
    have "poll_watched ?s = (poll_watched s)(fd c := if ev = 0 then None else Some ev)"
      by (rule ext) (rule w)
    with i poll_update_mod [OF that(1-4), of ev] show ?thesis
      by (intro exI [of _ ?s] exI [of _ "index c"]) (simp add: index_idem)
  qed
  show "\<exists>s' i. Channel_remove PollPoller_removeChannel p s = Inr s' \<and> poll_inv s' \<and> poll_same s s' \<and>
      channels s' = (channels s)(fd c := None) \<and> poll_watched s' = poll_watched s \<and>
      heap s' p = Some (c\<lparr>addedToLoop := False, index := i\<rparr>) \<and>
      (\<forall>q. q \<noteq> p \<longrightarrow> map_option (index_update (\<lambda>_. 0)) (heap s' q) =
                    map_option (index_update (\<lambda>_. 0)) (heap s q)) \<and>
      (\<forall>q. q \<notin> ran (channels s) \<longrightarrow> heap s' q = heap s q)"
    if "poll_inv s" "threadId s = tid s" "heap s p = Some c" "channels s (fd c) = Some p"
      "poll_watched s (fd c) = None"
      "eventHandling_loop s \<Longrightarrow> currentActiveChannel s = Some p \<or> p \<notin> set (activeChannels s)"
  proof -
    have "pfd_fd (pollfds s ! nat (index c)) < 0"
      using that(3-5) poll_watched_eq [OF that(1), of "fd c"] by (simp split: if_splits)
    from poll_remove [OF that(1-4) this that(6)] obtain s' where s':
      "Channel_remove PollPoller_removeChannel p s = Inr s'" "poll_inv s'" "poll_same s s'"
      "channels s' = (channels s)(fd c := None)" "heap s' p = Some (c\<lparr>addedToLoop := False\<rparr>)"
      "\<And>k q d. k \<noteq> fd c \<Longrightarrow> channels s k = Some q \<Longrightarrow> heap s q = Some d \<Longrightarrow>
        \<exists>d'. heap s' q = Some d' \<and> d'\<lparr>index := 0\<rparr> = d\<lparr>index := 0\<rparr> \<and>
          pollfds s' ! nat (index d') = pollfds s ! nat (index d)"
      "\<forall>q. q \<noteq> p \<longrightarrow> map_option (index_update (\<lambda>_. 0)) (heap s' q) =
                    map_option (index_update (\<lambda>_. 0)) (heap s q)"
      "\<forall>q. q \<notin> ran (channels s) \<longrightarrow> heap s' q = heap s q"
      by blast
    have w: "poll_watched s' j = poll_watched s j" for j
    proof (cases "j = fd c \<or> channels s j = None")
      case True
      with that(5) s'(4) show ?thesis
        by (auto simp: poll_watched_eq [OF s'(2)] poll_watched_eq [OF that(1)])
    next
      case False
      then obtain q d where q: "channels s j = Some q" "heap s q = Some d"
        using poll_invE [OF \<open>poll_inv s\<close>] by blast
      with s'(6) False obtain d' where d': "heap s' q = Some d'" "d'\<lparr>index := 0\<rparr> = d\<lparr>index := 0\<rparr>"
        "pollfds s' ! nat (index d') = pollfds s ! nat (index d)"
        by blast
      from arg_cong [OF d'(2), of events] have "events d' = events d" by simp
      with q d' False s'(4) show ?thesis
        by (simp add: poll_watched_eq [OF s'(2)] poll_watched_eq [OF that(1)])
    qed
    have "poll_watched s' = poll_watched s" by (rule ext) (rule w)
    moreover have "c\<lparr>addedToLoop := False\<rparr> = c\<lparr>addedToLoop := False, index := index c\<rparr>" by (cases c) simp
    ultimately show ?thesis
      using s'(1-5,7,8) by (intro exI [of _ s'] exI [of _ "index c"]) simp
  qed
  show "\<exists>c. heap s p = Some c \<and> fd c = k \<and> ownerLoop c = self s \<and> valid_events (events c) \<and>
      (poll_watched s k = Some (events c) \<or> poll_watched s k = None \<and> events c = 0)"
    if "poll_inv s" "channels s k = Some p"
    using poll_invE [OF that] that(2) poll_watched_eq [OF that(1), of k]
    by (auto simp: poll_entry_def split: if_splits)
  show "self s' = self s \<and> threadId s' = threadId s \<and> tid s' = tid s \<and>
      eventHandling_loop s' = eventHandling_loop s \<and> activeChannels s' = activeChannels s \<and>
      currentActiveChannel s' = currentActiveChannel s"
    if "poll_same s s'"
    using that by (auto simp: poll_same_def)
qed

section \<open>Both pollers agree\<close>

text \<open>
  Changes of interest and removals as commands. A command is legal when its channel is
  registered, and is watched or becomes watched; or is new; a removal needs a registered
  channel that is not watched. \<open>agree\<close> relates a loop with \<open>EPollPoller\<close> to one with
  \<open>PollPoller\<close>: same registrations, same watched set, same channels up to \<open>index_\<close>.
\<close>

datatype chan_op = OpEvents ptr "32 word" | OpRemove ptr

fun chan_step :: "'z poller_op \<Rightarrow> 'z poller_op \<Rightarrow> chan_op \<Rightarrow> 'z Loop_scheme \<Rightarrow> 'z Loop_scheme res" where
  "chan_step upd rem (OpEvents p ev) s = set_events upd ev p s"
| "chan_step upd rem (OpRemove p) s = Channel_remove rem p s"

fun chan_legal :: "(int \<rightharpoonup> 32 word) \<Rightarrow> 'z Loop_scheme \<Rightarrow> chan_op \<Rightarrow> bool" where
  "chan_legal w s (OpEvents p ev) =
     (valid_events ev \<and> (case heap s p of None \<Rightarrow> False | Some c \<Rightarrow>
        channels s (fd c) = Some p \<and> (ev \<noteq> 0 \<or> w (fd c) \<noteq> None) \<or>
        channels s (fd c) = None \<and> index c = kNew \<and> 0 \<le> fd c \<and> ownerLoop c = self s))"
| "chan_legal w s (OpRemove p) =
     (case heap s p of None \<Rightarrow> False | Some c \<Rightarrow>
        channels s (fd c) = Some p \<and> w (fd c) = None \<and>
        (eventHandling_loop s \<longrightarrow> currentActiveChannel s = Some p \<or> p \<notin> set (activeChannels s)))"

definition agree :: "'a EPoll_scheme \<Rightarrow> 'b PollP_scheme \<Rightarrow> bool" where
  "agree s t \<longleftrightarrow> epoll_inv s \<and> poll_inv t \<and> channels s = channels t \<and> epoll_watched s = poll_watched t \<and>
     self s = self t \<and> threadId s = tid s \<and> threadId t = tid t \<and>
     eventHandling_loop s = eventHandling_loop t \<and> activeChannels s = activeChannels t \<and>
     currentActiveChannel s = currentActiveChannel t \<and>
     (\<forall>p. map_option (index_update (\<lambda>_. 0)) (heap s p) = map_option (index_update (\<lambda>_. 0)) (heap t p)) \<and>
     (\<forall>p c d. p \<notin> ran (channels t) \<longrightarrow> heap s p = Some c \<longrightarrow> heap t p = Some d \<longrightarrow>
        index d = kNew \<longrightarrow> index c = kNew)"

lemma same_up_to_index:
  assumes "map_option (index_update (\<lambda>_. 0)) x = map_option (index_update (\<lambda>_. 0)) y" and "y = Some d"
  shows "\<exists>c. x = Some c \<and> fd c = fd d \<and> ownerLoop c = ownerLoop d \<and> c\<lparr>index := 0\<rparr> = d\<lparr>index := 0\<rparr>"
proof -
  from assms obtain c where c: "x = Some c" "c\<lparr>index := 0\<rparr> = d\<lparr>index := 0\<rparr>" by auto
  have "fd c = fd d" "ownerLoop c = ownerLoop d" using c(2) by (cases c; cases d; simp)+
  with c show ?thesis by blast
qed

lemma index_irrelevant:
  "c\<lparr>index := 0\<rparr> = d\<lparr>index := 0\<rparr> \<Longrightarrow>
   c\<lparr>events := ev, addedToLoop := a, index := 0\<rparr> = d\<lparr>events := ev, addedToLoop := a, index := 0\<rparr>"
  "c\<lparr>index := 0\<rparr> = d\<lparr>index := 0\<rparr> \<Longrightarrow>
   c\<lparr>addedToLoop := a, index := 0\<rparr> = d\<lparr>addedToLoop := a, index := 0\<rparr>"
  by (cases c; cases d; simp)+

lemma agree_simps:
  "agree s t \<Longrightarrow> channels s = channels t" "agree s t \<Longrightarrow> epoll_watched s = poll_watched t"
  "agree s t \<Longrightarrow> self s = self t" "agree s t \<Longrightarrow> threadId s = tid s" "agree s t \<Longrightarrow> threadId t = tid t"
  "agree s t \<Longrightarrow> eventHandling_loop s = eventHandling_loop t"
  "agree s t \<Longrightarrow> activeChannels s = activeChannels t"
  "agree s t \<Longrightarrow> currentActiveChannel s = currentActiveChannel t"
  "agree s t \<Longrightarrow> epoll_inv s" "agree s t \<Longrightarrow> poll_inv t"
  "agree s t \<Longrightarrow> map_option (index_update (\<lambda>_. 0)) (heap s p) = map_option (index_update (\<lambda>_. 0)) (heap t p)"
  by (simp_all add: agree_def)

context epoll_kernel
begin

lemma agree_events:
  assumes "agree s t" and "chan_legal (poll_watched t) t (OpEvents p ev)"
  shows "\<exists>s' t'. set_events (EPollPoller_updateChannel ctl) ev p s = Inr s' \<and>
    set_events PollPoller_updateChannel ev p t = Inr t' \<and> agree s' t'"
proof -
  note a = agree_simps [OF assms(1)]
  from assms(2) obtain d where d: "heap t p = Some d" by (auto split: option.splits)
  obtain c where c: "heap s p = Some c" "fd c = fd d" "ownerLoop c = ownerLoop d"
    "c\<lparr>index := 0\<rparr> = d\<lparr>index := 0\<rparr>"
    using same_up_to_index [OF a(11) d] by blast
  have v: "valid_events ev" using assms(2) by simp
  have "\<exists>s' i t' j. set_events (EPollPoller_updateChannel ctl) ev p s = Inr s' \<and>
    set_events PollPoller_updateChannel ev p t = Inr t' \<and> epoll_inv s' \<and> poll_inv t' \<and>
    epoll_same s s' \<and> poll_same t t' \<and> channels s' = channels t' \<and> ran (channels t) \<subseteq> ran (channels t') \<and>
    p \<in> ran (channels t') \<and> epoll_watched s' = poll_watched t' \<and>
    heap s' = (heap s)(p \<mapsto> c\<lparr>events := ev, addedToLoop := True, index := i\<rparr>) \<and>
    heap t' = (heap t)(p \<mapsto> d\<lparr>events := ev, addedToLoop := True, index := j\<rparr>)"
  proof (cases "channels t (fd d) = Some p")
    case True
    moreover have "ev \<noteq> 0 \<or> poll_watched t (fd d) \<noteq> None" using assms(2) d True by simp
    ultimately show ?thesis
      using epoll.upd_mod [OF a(9,4) c(1) _ v] poll.upd_mod [OF a(10,5) d _ v] a(1,2) c(2)
        ranI [of "channels t", OF True]
      by fastforce
  next
    case False
    with assms(2) d have n: "channels t (fd d) = None" "index d = kNew" "0 \<le> fd d" "ownerLoop d = self t"
      by auto
    have "p \<notin> ran (channels t)"
      using n(1) poll_inv_ptr [OF a(10) d] by (auto simp: ran_def)
    then have "index c = kNew" using assms(1) c(1) d n(2) by (simp add: agree_def)
    then obtain s' i where s': "set_events (EPollPoller_updateChannel ctl) ev p s = Inr s'" "epoll_inv s'"
      "epoll_same s s'" "channels s' = (channels s)(fd c \<mapsto> p)"
      "epoll_watched s' = (epoll_watched s)(fd c \<mapsto> ev)"
      "heap s' = (heap s)(p \<mapsto> c\<lparr>events := ev, addedToLoop := True, index := i\<rparr>)"
      using epoll.upd_new [OF a(9,4) c(1) _ _ _ _ v] n c(2,3) a(1,3) by auto
    obtain t' j where t': "set_events PollPoller_updateChannel ev p t = Inr t'" "poll_inv t'"
      "poll_same t t'" "channels t' = (channels t)(fd d \<mapsto> p)"
      "poll_watched t' = (poll_watched t)(fd d \<mapsto> ev)"
      "heap t' = (heap t)(p \<mapsto> d\<lparr>events := ev, addedToLoop := True, index := j\<rparr>)"
      using poll.upd_new [OF a(10,5) d n(4,2,1,3) v] by blast
    have "ran (channels t') = insert p (ran (channels t))" using t'(4) n(1) by simp
    with s' t' a(1,2) c(2) show ?thesis
      by (intro exI [of _ s'] exI [of _ i] exI [of _ t'] exI [of _ j]) auto
  qed
  then obtain s' i t' j where s': "set_events (EPollPoller_updateChannel ctl) ev p s = Inr s'"
    "set_events PollPoller_updateChannel ev p t = Inr t'" "epoll_inv s'" "poll_inv t'"
    "epoll_same s s'" "poll_same t t'" "channels s' = channels t'" "ran (channels t) \<subseteq> ran (channels t')"
    "p \<in> ran (channels t')" "epoll_watched s' = poll_watched t'"
    "heap s' = (heap s)(p \<mapsto> c\<lparr>events := ev, addedToLoop := True, index := i\<rparr>)"
    "heap t' = (heap t)(p \<mapsto> d\<lparr>events := ev, addedToLoop := True, index := j\<rparr>)" by blast
  have "agree s' t'"
    using s' epoll.same_fields [OF s'(5)] poll.same_fields [OF s'(6)] a assms(1) index_irrelevant(1) [OF c(4)]
    unfolding agree_def by auto
  with s'(1,2) show ?thesis by blast
qed

lemma agree_remove:
  assumes "agree s t" and "chan_legal (poll_watched t) t (OpRemove p)"
  shows "\<exists>s' t'. Channel_remove (EPollPoller_removeChannel ctl) p s = Inr s' \<and>
    Channel_remove PollPoller_removeChannel p t = Inr t' \<and> agree s' t'"
proof -
  note a = agree_simps [OF assms(1)]
  from assms(2) obtain d where d: "heap t p = Some d" "channels t (fd d) = Some p"
    "poll_watched t (fd d) = None"
    "eventHandling_loop t \<Longrightarrow> currentActiveChannel t = Some p \<or> p \<notin> set (activeChannels t)"
    by (auto split: option.splits)
  obtain c where c: "heap s p = Some c" "fd c = fd d" "ownerLoop c = ownerLoop d"
    "c\<lparr>index := 0\<rparr> = d\<lparr>index := 0\<rparr>"
    using same_up_to_index [OF a(11) d(1)] by blast
  have w: "epoll_watched s (fd c) = None" "channels s (fd c) = Some p"
    using a(1,2) c(2) d(2,3) by simp_all
  have "events c = 0" "epoll s (fd c) = None"
    using epoll.registered [OF a(9) w(2)] c(1) w(1) by (auto simp: epoll_watched_def)
  then have e: "Channel_remove (EPollPoller_removeChannel ctl) p s = Inr (s\<lparr>
      heap := (heap s)(p \<mapsto> c\<lparr>addedToLoop := False, index := kNew\<rparr>),
      channels := (channels s)(fd c := None)\<rparr>)" (is "_ = Inr ?s")
    using epoll_remove [OF a(9,4) c(1) w(2)] d(4) a(6,7,8) by (simp add: fun_upd_idem)
  have es: "epoll_inv ?s" "epoll_watched ?s = epoll_watched s"
    using epoll_inv_remove [OF a(9) c(1) w(2), of "c\<lparr>addedToLoop := False, index := kNew\<rparr>"]
      \<open>epoll s (fd c) = None\<close> by (simp_all add: fun_upd_idem epoll_watched_def fun_eq_iff)
  obtain t' j where t': "Channel_remove PollPoller_removeChannel p t = Inr t'" "poll_inv t'"
    "poll_same t t'" "channels t' = (channels t)(fd d := None)" "poll_watched t' = poll_watched t"
    "heap t' p = Some (d\<lparr>addedToLoop := False, index := j\<rparr>)"
    "\<forall>q. q \<noteq> p \<longrightarrow> map_option (index_update (\<lambda>_. 0)) (heap t' q) =
                  map_option (index_update (\<lambda>_. 0)) (heap t q)"
    "\<forall>q. q \<notin> ran (channels t) \<longrightarrow> heap t' q = heap t q"
    using poll.rem_law [OF a(10,5) d] by blast
  have ran: "q \<notin> ran (channels t)" if "q \<notin> ran (channels t')" "q \<noteq> p" for q
  proof
    assume "q \<in> ran (channels t)"
    then obtain k where k: "channels t k = Some q" by (auto simp: ran_def)
    with d(2) that(2) have "k \<noteq> fd d" by auto
    with k t'(4) have "channels t' k = Some q" by simp
    with that(1) show False by (auto simp: ran_def)
  qed
  have "agree ?s t'"
    unfolding agree_def
  proof (intro conjI allI impI)
    fix q
    show "map_option (index_update (\<lambda>_. 0)) (heap ?s q) = map_option (index_update (\<lambda>_. 0)) (heap t' q)"
      using a(11) t'(6,7) index_irrelevant(2) [OF c(4)] by (cases "q = p") auto
  next
    fix q x y
    assume "q \<notin> ran (channels t')" "heap ?s q = Some x" "heap t' q = Some y" "index y = kNew"
    then show "index x = kNew"
      using ran [of q] t'(8) assms(1) unfolding agree_def by (cases "q = p") auto
  qed (use es t' a c(2) poll.same_fields [OF t'(3)] in auto)
  with e t'(1) show ?thesis by blast
qed

lemma epoll_poller:
  "poller (EPollPoller_updateChannel ctl) (EPollPoller_removeChannel ctl) epoll_inv epoll_watched epoll_same"
  by (rule epoll.poller_axioms)

lemma epoll_unused:
  assumes "epoll_inv s" and "threadId s = tid s" and "heap s p = Some c" and "ownerLoop c = self s"
    and "index c = kNew" and "channels s (fd c) = None" and "0 \<le> fd c" and "\<not> eventHandling_loop s"
  shows "\<exists>s'. bindR (disableAll (EPollPoller_updateChannel ctl) p s)
      (Channel_remove (EPollPoller_removeChannel ctl) p) = Inr s' \<and> channels s' = channels s \<and>
    epoll_watched s' = epoll_watched s"
proof -
  let ?c = "c\<lparr>events := 0, addedToLoop := True, index := kAdded\<rparr>"
  let ?s = "s\<lparr>heap := (heap s)(p \<mapsto> ?c), channels := (channels s)(fd c \<mapsto> p),
    epoll := (epoll s)(fd c \<mapsto> (0, p))\<rparr>"
  have u: "disableAll (EPollPoller_updateChannel ctl) p s = Inr ?s"
    using epoll_update_new [OF assms(1-7)] by (simp add: interest_ops(5) [OF assms(3)])
  have i: "epoll_inv ?s"
    using epoll_inv_upd [OF assms(1,3), of ?c "Some (0, p)"] assms by simp
  have "epoll s (fd c) = None" using assms(1,6) by (simp add: epoll_inv_def)
  with u epoll_remove [OF i, of p ?c] assms show ?thesis
    by (simp add: epoll_watched_def fun_eq_iff)
qed

lemma agree_step:
  assumes "agree s t" and "chan_legal (poll_watched t) t opr"
  shows "\<exists>s' t'. chan_step (EPollPoller_updateChannel ctl) (EPollPoller_removeChannel ctl) opr s = Inr s' \<and>
    chan_step PollPoller_updateChannel PollPoller_removeChannel opr t = Inr t' \<and> agree s' t'"
  using assms agree_events agree_remove by (cases opr) simp_all

end

fun legal_run :: "chan_op list \<Rightarrow> 'z PollP_scheme \<Rightarrow> bool" where
  "legal_run [] t = True"
| "legal_run (opr # ops) t =
     (chan_legal (poll_watched t) t opr \<and>
      (case chan_step PollPoller_updateChannel PollPoller_removeChannel opr t of
         Inl e \<Rightarrow> False
       | Inr t' \<Rightarrow> legal_run ops t'))"

text \<open>Concrete loops for the witnesses: one new channel, on descriptor 5, at address 7.\<close>

definition ex_epoll :: EPoll where
  "ex_epoll = \<lparr>self = 0, threadId = 1, tid = 1, heap = [7 \<mapsto> Channel_new 0 5], channels = Map.empty,
     eventHandling_loop = False, activeChannels = [], currentActiveChannel = None,
     epoll = Map.empty, eventsSize = kInitEventListSize\<rparr>"

definition ex_poll :: PollP where
  "ex_poll = \<lparr>self = 0, threadId = 1, tid = 1, heap = [7 \<mapsto> Channel_new 0 5], channels = Map.empty,
     eventHandling_loop = False, activeChannels = [], currentActiveChannel = None, pollfds = []\<rparr>"

lemma ex_agree: "agree ex_epoll ex_poll"
  by (simp add: agree_def epoll_inv_def poll_inv_def ex_epoll_def ex_poll_def epoll_watched_def
      poll_watched_def fun_eq_iff)

section \<open>Properties\<close>



text \<open>
  \<^bold>\<open>C27\<close>. With epoll, a channel that is registered, changes its interest any number of
  times, is disabled and removed passes every assertion and leaves the registered
  channels and the kernel's interest set as they were.
\<close>

theorem epoll_lifecycle:
  assumes "epoll_kernel ctl" and "epoll_inv s" and "threadId s = tid s" and "heap s p = Some c"
    and "ownerLoop c = self s" and "index c = kNew" and "channels s (fd c) = None" and "0 \<le> fd c"
    and "\<not> eventHandling_loop s"
    and "valid_events ev" and "\<forall>ev \<in> set evs. valid_events ev \<and> ev \<noteq> 0"
  shows "\<exists>s'. bindR (foldR (\<lambda>ev. set_events (EPollPoller_updateChannel ctl) ev p) (ev # evs) s)
      (\<lambda>s. bindR (disableAll (EPollPoller_updateChannel ctl) p s)
             (Channel_remove (EPollPoller_removeChannel ctl) p)) = Inr s' \<and>
    epoll_inv s' \<and> channels s' = channels s \<and> epoll_watched s' = epoll_watched s"
proof -
  have w: "epoll_watched s (fd c) = None"
    using assms(2,7) by (simp add: epoll_inv_def epoll_watched_def)
  show ?thesis
    by (rule poller.lifecycle [OF epoll_kernel.epoll_poller [OF assms(1)] assms(2-8) w _ assms(10)])
      (use assms(9,11) in auto)
qed

theorem epoll_lifecycle_witness:
  "\<exists>s'. bindR (foldR (\<lambda>ev. set_events (EPollPoller_updateChannel linux_epoll_ctl) ev 7) (3 # [7, 3]) ex_epoll)
      (\<lambda>s. bindR (disableAll (EPollPoller_updateChannel linux_epoll_ctl) 7 s)
             (Channel_remove (EPollPoller_removeChannel linux_epoll_ctl) 7)) = Inr s' \<and>
    epoll_inv s' \<and> channels s' = channels ex_epoll \<and> epoll_watched s' = epoll_watched ex_epoll"
  by (rule epoll_lifecycle [OF linux.epoll_kernel_axioms, where c = "Channel_new 0 5"])
    (simp_all add: ex_epoll_def epoll_inv_def Channel_new_def kNew_def valid_events_def)

text \<open>
  \<^bold>\<open>C31\<close>. A channel whose interest was never set cannot be removed from \<open>PollPoller\<close>:
  \<open>disableAll()\<close> followed by \<open>remove()\<close>, what the destructor of an \<open>Acceptor\<close> that never
  listened does, fails an assertion, while \<open>EPollPoller\<close> accepts the same two calls.
\<close>

theorem unused_channel_removal:
  assumes "epoll_kernel ctl" and "epoll_inv s" and "heap s p = Some c" and "ownerLoop c = self s"
    and "channels s (fd c) = None" and "threadId s = tid s" and "\<not> eventHandling_loop s"
    and "heap t p = Some c" and "ownerLoop c = self t"
    and "channels t (fd c) = None" and "threadId t = tid t" and "\<not> eventHandling_loop t"
    and "index c = kNew" and "0 \<le> fd c"
  shows "bindR (disableAll PollPoller_updateChannel p t) (Channel_remove PollPoller_removeChannel p) =
      Inl AssertFailed \<and>
    (\<exists>s'. bindR (disableAll (EPollPoller_updateChannel ctl) p s)
      (Channel_remove (EPollPoller_removeChannel ctl) p) = Inr s' \<and>
      channels s' = channels s \<and> epoll_watched s' = epoll_watched s)"
proof
  have "fd c \<noteq> - fd c - 1" using assms(14) by simp
  with assms(8-13) show "bindR (disableAll PollPoller_updateChannel p t)
      (Channel_remove PollPoller_removeChannel p) = Inl AssertFailed"
    by (simp add: interest_ops(5) poll_update_new Channel_remove_def EventLoop_removeChannel_def
        PollPoller_removeChannel_def
        isNoneEvent_def kNoneEvent_def Let_def)
  show "\<exists>s'. bindR (disableAll (EPollPoller_updateChannel ctl) p s)
      (Channel_remove (EPollPoller_removeChannel ctl) p) = Inr s' \<and>
      channels s' = channels s \<and> epoll_watched s' = epoll_watched s"
    by (rule epoll_kernel.epoll_unused [OF assms(1,2,6,3,4,13,5,14,7)])
qed

theorem unused_channel_removal_witness:
  "bindR (disableAll PollPoller_updateChannel 7 ex_poll) (Channel_remove PollPoller_removeChannel 7) =
      Inl AssertFailed \<and>
    (\<exists>s'. bindR (disableAll (EPollPoller_updateChannel linux_epoll_ctl) 7 ex_epoll)
      (Channel_remove (EPollPoller_removeChannel linux_epoll_ctl) 7) = Inr s' \<and>
      channels s' = channels ex_epoll \<and> epoll_watched s' = epoll_watched ex_epoll)"
  by (rule unused_channel_removal [OF linux.epoll_kernel_axioms, where c = "Channel_new 0 5"])
    (simp_all add: ex_epoll_def ex_poll_def epoll_inv_def Channel_new_def kNew_def)

text \<open>Storing the reported events into the channels.\<close>

lemma activate_all:
  assumes "\<And>e. e \<in> set evs \<Longrightarrow> \<exists>c. heap s (snd e) = Some c \<and> channels s (fd c) = Some (snd e)"
    and "distinct (map snd evs)"
  shows "\<exists>h. foldR EPollPoller_activate evs s =
      Inr (s\<lparr>heap := h, activeChannels := activeChannels s @ map snd evs\<rparr>) \<and>
    (\<forall>e \<in> set evs. h (snd e) = map_option (revents_update (\<lambda>_. fst e)) (heap s (snd e))) \<and>
    (\<forall>p. p \<notin> snd ` set evs \<longrightarrow> h p = heap s p)"
  using assms
proof (induction evs arbitrary: s)
  case (Cons e evs)
  obtain c where c: "heap s (snd e) = Some c" "channels s (fd c) = Some (snd e)"
    using Cons.prems(1) [of e] by auto
  let ?s = "s\<lparr>heap := (heap s)(snd e \<mapsto> c\<lparr>revents := fst e\<rparr>), activeChannels := activeChannels s @ [snd e]\<rparr>"
  have "EPollPoller_activate e s = Inr ?s" using c by (simp add: EPollPoller_activate_def Let_def)
  moreover have "\<exists>h. foldR EPollPoller_activate evs ?s =
      Inr (?s\<lparr>heap := h, activeChannels := activeChannels ?s @ map snd evs\<rparr>) \<and>
    (\<forall>x \<in> set evs. h (snd x) = map_option (revents_update (\<lambda>_. fst x)) (heap ?s (snd x))) \<and>
    (\<forall>p. p \<notin> snd ` set evs \<longrightarrow> h p = heap ?s p)"
  proof (rule Cons.IH)
    show "\<exists>c. heap ?s (snd x) = Some c \<and> channels ?s (fd c) = Some (snd x)" if "x \<in> set evs" for x
      using Cons.prems(1) [of x] that c by auto
  qed (use Cons.prems in simp)
  moreover have "snd x \<noteq> snd e" if "x \<in> set evs" for x
  proof
    assume "snd x = snd e"
    with imageI [OF that, of snd] have "snd e \<in> snd ` set evs" by (simp only:)
    with Cons.prems(2) show False by simp
  qed
  ultimately show ?case using c Cons.prems(2) by auto
next
  case Nil
  show ?case by (rule exI [of _ "heap s"]) simp
qed

text \<open>
  \<^bold>\<open>C28\<close>. One \<open>EPollPoller::poll\<close>: when \<open>epoll_wait\<close> reports events of distinct registered
  descriptors, at most as many as the list holds, no assertion fails, the active channels
  are exactly the reported ones in order, each with the reported \<open>revents\<close>, the interest
  set is untouched, and the list doubles exactly when it was full.
\<close>

theorem epoll_poll_active:
  assumes "epoll_inv s" and "wait (eventsSize s) (epoll s) = Inr evs" and "length evs \<le> eventsSize s"
    and "distinct (map snd evs)" and "\<forall>e \<in> set evs. \<exists>k ev. epoll s k = Some (ev, snd e)"
    and "activeChannels s = []" and "0 < eventsSize s"
  shows "\<exists>s'. EPollPoller_poll wait s = Inr s' \<and> activeChannels s' = map snd evs \<and>
    (\<forall>e \<in> set evs. map_option revents (heap s' (snd e)) = Some (fst e)) \<and>
    epoll s' = epoll s \<and> channels s' = channels s \<and>
    eventsSize s' = (if length evs = eventsSize s then 2 * eventsSize s else eventsSize s)"
proof (cases "evs = []")
  case True
  with assms show ?thesis by (simp add: EPollPoller_poll_def)
next
  case False
  have reg: "\<exists>c. heap s (snd e) = Some c \<and> channels s (fd c) = Some (snd e)" if e: "e \<in> set evs" for e
  proof -
    obtain k ev where k: "epoll s k = Some (ev, snd e)" using assms(5) e by blast
    then obtain p where p: "channels s k = Some p"
      using assms(1) unfolding epoll_inv_def by (metis option.exhaust option.distinct(1))
    with epoll_invD [OF assms(1) p] k show ?thesis by auto
  qed
  from activate_all [OF reg assms(4)] obtain h where h:
    "foldR EPollPoller_activate evs s = Inr (s\<lparr>heap := h, activeChannels := activeChannels s @ map snd evs\<rparr>)"
    "\<forall>e \<in> set evs. h (snd e) = map_option (revents_update (\<lambda>_. fst e)) (heap s (snd e))"
    by blast
  have "map_option revents (h (snd e)) = Some (fst e)" if "e \<in> set evs" for e
    using h(2) that reg [OF that] by auto
  with False h(1) assms(2,3,6) show ?thesis
    by (auto simp: EPollPoller_poll_def EPollPoller_fillActiveChannels_def)
qed

definition ex_epoll_added :: EPoll where
  "ex_epoll_added = ex_epoll\<lparr>heap := [7 \<mapsto> (Channel_new 0 5)\<lparr>events := 3, addedToLoop := True, index := kAdded\<rparr>],
     channels := [5 \<mapsto> 7], epoll := [5 \<mapsto> (3, 7)]\<rparr>"

definition ex_events :: "(32 word \<times> ptr) list" where
  "ex_events = [(1, 7)]"

theorem epoll_poll_active_witness:
  "\<exists>s'. EPollPoller_poll (\<lambda>n K. Inr ex_events) ex_epoll_added = Inr s' \<and> activeChannels s' = map snd ex_events \<and>
    (\<forall>e \<in> set ex_events. map_option revents (heap s' (snd e)) = Some (fst e)) \<and>
    epoll s' = epoll ex_epoll_added \<and> channels s' = channels ex_epoll_added \<and>
    eventsSize s' = (if length ex_events = eventsSize ex_epoll_added
      then 2 * eventsSize ex_epoll_added else eventsSize ex_epoll_added)"
  by (rule epoll_poll_active)
    (auto simp: ex_events_def ex_epoll_added_def ex_epoll_def epoll_inv_def Channel_new_def
      kInitEventListSize_def valid_events_def)

end
