(* ===== verification/Net_EventLoop.thy ===== *)
theory Net_EventLoop
  imports Net_Poller
begin

text \<open>
  \<open>muduo/net/EventLoop.h\<close> and \<open>EventLoop.cc\<close>: the reactor. The loop's record extends the
  one with \<open>EPollPoller\<close>; a functor is a value of the type parameter \<open>'f\<close>, and running it
  is an argument, so that each client supplies its own functors. \<open>wakeupCount\<close> is the
  counter of the eventfd behind \<open>wakeupFd_\<close>. The timer queue is a component of its own.

  \<open>loop\<close> takes the results of the successive \<open>epoll_wait\<close> calls as a list; it stops when
  \<open>quit_\<close> is set, or when the list is used up, which stands for a loop that is still
  waiting. The last part is a step relation for the interleaving of the loop thread with
  threads that call \<open>queueInLoop\<close>; its invariants say that functors run exactly once, in
  the order they were queued, and that no wakeup is lost.
\<close>

section \<open>State\<close>

record 'f EventLoop = EPoll +
  looping :: bool
  quit :: bool
  callingPendingFunctors :: bool
  iteration :: int
  wakeupFd :: int
  wakeupChannel :: ptr
  wakeupCount :: nat
  pendingFunctors :: "'f list"

definition kPollTimeMs :: int where
  "kPollTimeMs = 10000"

section \<open>Wakeup and queued functors\<close>

definition wakeup :: "('f, 'z) EventLoop_scheme \<Rightarrow> ('f, 'z) EventLoop_scheme" where
  "wakeup s = s\<lparr>wakeupCount := wakeupCount s + 1\<rparr>"

definition EventLoop_handleRead :: "('f, 'z) EventLoop_scheme \<Rightarrow> ('f, 'z) EventLoop_scheme" where
  "EventLoop_handleRead s = s\<lparr>wakeupCount := 0\<rparr>"

definition queueInLoop :: "'f \<Rightarrow> ('f, 'z) EventLoop_scheme \<Rightarrow> ('f, 'z) EventLoop_scheme" where
  "queueInLoop cb s =
     (let s = s\<lparr>pendingFunctors := pendingFunctors s @ [cb]\<rparr>
      in if \<not> isInLoopThread s \<or> callingPendingFunctors s then wakeup s else s)"

definition runInLoop ::
  "('f \<Rightarrow> ('f, 'z) EventLoop_scheme \<Rightarrow> ('f, 'z) EventLoop_scheme res) \<Rightarrow> 'f \<Rightarrow>
   ('f, 'z) EventLoop_scheme \<Rightarrow> ('f, 'z) EventLoop_scheme res" where
  "runInLoop run cb s = (if isInLoopThread s then run cb s else Inr (queueInLoop cb s))"

definition queueSize :: "('f, 'z) EventLoop_scheme \<Rightarrow> nat" where
  "queueSize s = length (pendingFunctors s)"

definition EventLoop_quit :: "('f, 'z) EventLoop_scheme \<Rightarrow> ('f, 'z) EventLoop_scheme" where
  "EventLoop_quit s =
     (let s = s\<lparr>quit := True\<rparr> in if \<not> isInLoopThread s then wakeup s else s)"

definition doPendingFunctors ::
  "('f \<Rightarrow> ('f, 'z) EventLoop_scheme \<Rightarrow> ('f, 'z) EventLoop_scheme res) \<Rightarrow>
   ('f, 'z) EventLoop_scheme \<Rightarrow> ('f, 'z) EventLoop_scheme res" where
  "doPendingFunctors run s =
     (let functors = pendingFunctors s;
          s = s\<lparr>callingPendingFunctors := True, pendingFunctors := []\<rparr>
      in bindR (foldR run functors s) (\<lambda>s. Inr (s\<lparr>callingPendingFunctors := False\<rparr>)))"

section \<open>Construction, destruction, the loop\<close>

text \<open>
  \<open>t_loopInThisThread\<close> is the argument \<open>another\<close>; \<open>evtfd\<close> and \<open>p\<close> are the new eventfd and
  the address of the wakeup channel.
\<close>

definition EventLoop_new ::
  "epoll_ctl \<Rightarrow> bool \<Rightarrow> nat \<Rightarrow> nat \<Rightarrow> int \<Rightarrow> ptr \<Rightarrow> 'f EventLoop res" where
  "EventLoop_new ctl another this thread evtfd p =
     (let s = \<lparr>self = this, threadId = thread, tid = thread,
               heap = [p \<mapsto> Channel_new this evtfd], channels = Map.empty,
               eventHandling_loop = False, activeChannels = [], currentActiveChannel = None,
               epoll = Map.empty, eventsSize = kInitEventListSize,
               looping = False, quit = False, callingPendingFunctors = False, iteration = 0,
               wakeupFd = evtfd, wakeupChannel = p, wakeupCount = 0, pendingFunctors = []\<rparr>
      in if another then Inl LogFatal
         else enableReading (EPollPoller_updateChannel ctl) p s)"

definition EventLoop_dtor :: "epoll_ctl \<Rightarrow> ('f, 'z) EventLoop_scheme \<Rightarrow> ('f, 'z) EventLoop_scheme res" where
  "EventLoop_dtor ctl s =
     bindR (disableAll (EPollPoller_updateChannel ctl) (wakeupChannel s) s)
       (Channel_remove (EPollPoller_removeChannel ctl) (wakeupChannel s))"

definition loop_once ::
  "epoll_wait \<Rightarrow> (ptr \<Rightarrow> ('f, 'z) EventLoop_scheme \<Rightarrow> ('f, 'z) EventLoop_scheme res) \<Rightarrow>
   ('f \<Rightarrow> ('f, 'z) EventLoop_scheme \<Rightarrow> ('f, 'z) EventLoop_scheme res) \<Rightarrow>
   ('f, 'z) EventLoop_scheme \<Rightarrow> ('f, 'z) EventLoop_scheme res" where
  "loop_once wait handle run s =
     bindR (EPollPoller_poll wait (s\<lparr>activeChannels := []\<rparr>)) (\<lambda>s.
     let s = s\<lparr>iteration := iteration s + 1, eventHandling_loop := True\<rparr> in
     bindR (foldR (\<lambda>p s. handle p (s\<lparr>currentActiveChannel := Some p\<rparr>)) (activeChannels s) s) (\<lambda>s.
     doPendingFunctors run (s\<lparr>currentActiveChannel := None, eventHandling_loop := False\<rparr>)))"

fun loop_while ::
  "(ptr \<Rightarrow> ('f, 'z) EventLoop_scheme \<Rightarrow> ('f, 'z) EventLoop_scheme res) \<Rightarrow>
   ('f \<Rightarrow> ('f, 'z) EventLoop_scheme \<Rightarrow> ('f, 'z) EventLoop_scheme res) \<Rightarrow>
   epoll_wait list \<Rightarrow> ('f, 'z) EventLoop_scheme \<Rightarrow> ('f, 'z) EventLoop_scheme res" where
  "loop_while handle run [] s = Inr s"
| "loop_while handle run (w # ws) s =
     (if quit s then Inr s
      else bindR (loop_once w handle run s) (loop_while handle run ws))"

definition EventLoop_loop ::
  "(ptr \<Rightarrow> ('f, 'z) EventLoop_scheme \<Rightarrow> ('f, 'z) EventLoop_scheme res) \<Rightarrow>
   ('f \<Rightarrow> ('f, 'z) EventLoop_scheme \<Rightarrow> ('f, 'z) EventLoop_scheme res) \<Rightarrow>
   epoll_wait list \<Rightarrow> ('f, 'z) EventLoop_scheme \<Rightarrow> ('f, 'z) EventLoop_scheme res" where
  "EventLoop_loop handle run ws s =
     bindR (assertR (\<not> looping s) ()) (\<lambda>_.
     bindR (assertInLoopThread s) (\<lambda>_.
     bindR (loop_while handle run ws (s\<lparr>looping := True, quit := False\<rparr>)) (\<lambda>s.
     Inr (if quit s then s\<lparr>looping := False\<rparr> else s))))"

section \<open>Interleaving with other threads\<close>

text \<open>
  The loop thread's position: blocked in \<open>poll\<close>, handling active channels, just before the
  swap of \<open>doPendingFunctors\<close>, or running the functors it has taken. Another thread's
  \<open>queueInLoop\<close> is two steps, since the mutex is released between the push and the
  wakeup; \<open>waking\<close> holds the threads between the two. \<open>pushed\<close> and \<open>executed\<close> record the
  functors queued and run so far.
\<close>

datatype 'f pc = Polling | Handling | Swapping | Running "'f list"

record 'f conc =
  loopst :: "'f EventLoop"
  pc :: "'f pc"
  waking :: "nat set"
  pushed :: "'f list"
  executed :: "'f list"

inductive conc_step :: "'f conc \<Rightarrow> 'f conc \<Rightarrow> bool" where
  push: "t \<noteq> threadId (loopst s) \<Longrightarrow> t \<notin> waking s \<Longrightarrow>
    conc_step s (s\<lparr>loopst := (loopst s)\<lparr>pendingFunctors := pendingFunctors (loopst s) @ [f]\<rparr>,
                   waking := insert t (waking s), pushed := pushed s @ [f]\<rparr>)"
| wake: "t \<in> waking s \<Longrightarrow>
    conc_step s (s\<lparr>loopst := wakeup (loopst s), waking := waking s - {t}\<rparr>)"
| poll_returns: "pc s = Polling \<Longrightarrow> conc_step s (s\<lparr>pc := Handling\<rparr>)"
| handle_wakeup: "pc s = Handling \<Longrightarrow> conc_step s (s\<lparr>loopst := EventLoop_handleRead (loopst s)\<rparr>)"
| handle_queues: "pc s = Handling \<Longrightarrow>
    conc_step s (s\<lparr>loopst := queueInLoop f (loopst s), pushed := pushed s @ [f]\<rparr>)"
| handled: "pc s = Handling \<Longrightarrow>
    conc_step s (s\<lparr>pc := Swapping, loopst := (loopst s)\<lparr>callingPendingFunctors := True\<rparr>\<rparr>)"
| swap: "pc s = Swapping \<Longrightarrow>
    conc_step s (s\<lparr>pc := Running (pendingFunctors (loopst s)),
                   loopst := (loopst s)\<lparr>pendingFunctors := []\<rparr>\<rparr>)"
| run: "pc s = Running (f # fs) \<Longrightarrow>
    conc_step s (s\<lparr>pc := Running fs, executed := executed s @ [f]\<rparr>)"
| functor_queues: "pc s = Running fs \<Longrightarrow>
    conc_step s (s\<lparr>loopst := queueInLoop f (loopst s), pushed := pushed s @ [f]\<rparr>)"
| finish: "pc s = Running [] \<Longrightarrow>
    conc_step s (s\<lparr>pc := Polling, loopst := (loopst s)\<lparr>callingPendingFunctors := False\<rparr>\<rparr>)"

inductive_cases conc_stepE: "conc_step s s'"

inductive conc_reachable :: "'f conc \<Rightarrow> 'f conc \<Rightarrow> bool" for s0 where
  init: "conc_reachable s0 s0"
| step: "conc_reachable s0 s \<Longrightarrow> conc_step s s' \<Longrightarrow> conc_reachable s0 s'"

text \<open>The start: the loop thread enters \<open>poll\<close> with nothing queued.\<close>

definition conc_start :: "'f conc \<Rightarrow> bool" where
  "conc_start s \<longleftrightarrow> pc s = Polling \<and> pendingFunctors (loopst s) = [] \<and> waking s = {} \<and>
     pushed s = [] \<and> executed s = [] \<and> \<not> callingPendingFunctors (loopst s) \<and>
     threadId (loopst s) = tid (loopst s)"

fun taken :: "'f pc \<Rightarrow> 'f list" where
  "taken (Running fs) = fs"
| "taken _ = []"

definition conc_inv :: "'f conc \<Rightarrow> bool" where
  "conc_inv s \<longleftrightarrow>
     threadId (loopst s) = tid (loopst s) \<and>
     (callingPendingFunctors (loopst s) \<longleftrightarrow> pc s = Swapping \<or> (\<exists>fs. pc s = Running fs)) \<and>
     executed s @ taken (pc s) @ pendingFunctors (loopst s) = pushed s \<and>
     (pc s = Polling \<or> (\<exists>fs. pc s = Running fs) \<longrightarrow> pendingFunctors (loopst s) \<noteq> [] \<longrightarrow>
        wakeupCount (loopst s) > 0 \<or> waking s \<noteq> {})"

lemmas loop_defs = queueInLoop_def wakeup_def EventLoop_handleRead_def isInLoopThread_def Let_def

lemma conc_inv_step: "conc_step s s' \<Longrightarrow> conc_inv s \<Longrightarrow> conc_inv s'"
proof (induction rule: conc_step.induct)
  case (wake t s)
  then show ?case by (auto simp: conc_inv_def loop_defs)
qed (auto simp: conc_inv_def loop_defs)

lemma conc_inv_reachable:
  assumes "conc_reachable s0 s" and "conc_start s0"
  shows "conc_inv s"
  using assms
proof (induction rule: conc_reachable.induct)
  case init
  then show ?case by (simp add: conc_inv_def conc_start_def)
qed (blast intro: conc_inv_step)

lemma reachable_trans: "conc_reachable s1 s2 \<Longrightarrow> conc_reachable s0 s1 \<Longrightarrow> conc_reachable s0 s2"
  by (induction rule: conc_reachable.induct) (auto intro: conc_reachable.step)

lemma run_all:
  assumes "pc s = Running fs"
  shows "conc_reachable s (s\<lparr>pc := Running [], executed := executed s @ fs\<rparr>)"
  using assms
proof (induction fs arbitrary: s)
  case Nil
  then have "s\<lparr>pc := Running [], executed := executed s @ []\<rparr> = s" by (cases s) simp
  then show ?case by (simp add: conc_reachable.init)
next
  case (Cons f fs)
  let ?s = "s\<lparr>pc := Running fs, executed := executed s @ [f]\<rparr>"
  have "conc_reachable s ?s"
    using Cons.prems by (intro conc_reachable.step [OF conc_reachable.init]) (rule conc_step.run)
  moreover have "conc_reachable ?s (?s\<lparr>pc := Running [], executed := executed ?s @ fs\<rparr>)"
    by (rule Cons.IH) simp
  ultimately show ?case by (auto dest: reachable_trans)
qed

definition ex_conc :: "nat conc" where
  "ex_conc = \<lparr>loopst = \<lparr>self = 0, threadId = 1, tid = 1, heap = Map.empty, channels = Map.empty,
     eventHandling_loop = False, activeChannels = [], currentActiveChannel = None,
     epoll = Map.empty, eventsSize = kInitEventListSize, looping = True, quit = False,
     callingPendingFunctors = False, iteration = 0, wakeupFd = 4, wakeupChannel = 0, wakeupCount = 0,
     pendingFunctors = []\<rparr>, pc = Polling, waking = {}, pushed = [], executed = []\<rparr>"

text \<open>Thread 2 has pushed functor 9 and not yet written to the eventfd.\<close>

definition ex_conc_pushed :: "nat conc" where
  "ex_conc_pushed = ex_conc\<lparr>loopst := (loopst ex_conc)\<lparr>pendingFunctors := [9]\<rparr>, waking := {2}, pushed := [9]\<rparr>"

lemma ex_conc_start: "conc_start ex_conc"
  by (simp add: conc_start_def ex_conc_def)

lemma ex_conc_pushed_reachable: "conc_reachable ex_conc ex_conc_pushed"
proof -
  have "conc_step ex_conc ex_conc_pushed"
    using conc_step.push [of 2 ex_conc 9] by (simp add: ex_conc_def ex_conc_pushed_def)
  then show ?thesis by (rule conc_reachable.step [OF conc_reachable.init])
qed

section \<open>Properties\<close>

text \<open>
  \<^bold>\<open>C4\<close>. No wakeup is lost: in every interleaving of the loop thread with threads calling
  \<open>queueInLoop\<close>, whenever the loop thread is in \<open>poll\<close> while functors are pending, the
  eventfd is readable or some thread is about to write to it, so \<open>poll\<close> returns.
\<close>

theorem no_lost_wakeup:
  assumes "conc_start s0" and "conc_reachable s0 s" and "pc s = Polling"
    and "pendingFunctors (loopst s) \<noteq> []"
  shows "wakeupCount (loopst s) > 0 \<or> (\<exists>t. t \<in> waking s)"
  using conc_inv_reachable [OF assms(2,1)] assms(3,4) by (auto simp: conc_inv_def)

theorem no_lost_wakeup_witness:
  "wakeupCount (loopst ex_conc_pushed) > 0 \<or> (\<exists>t. t \<in> waking ex_conc_pushed)"
  by (rule no_lost_wakeup [OF ex_conc_start ex_conc_pushed_reachable])
    (simp_all add: ex_conc_pushed_def ex_conc_def)



text \<open>
  A new loop watches exactly its eventfd, for reading; destroying it right away
  passes all assertions and leaves nothing registered or watched.
\<close>

theorem eventloop_ctor_dtor:
  assumes "epoll_kernel ctl" and "0 \<le> evtfd"
  shows "\<exists>s s'. EventLoop_new ctl False this thread evtfd p = Inr (s :: 'f EventLoop) \<and> epoll_inv s \<and>
    epoll_watched s = [evtfd \<mapsto> kReadEvent] \<and> EventLoop_dtor ctl s = Inr s' \<and>
    channels s' = Map.empty \<and> epoll_watched s' = Map.empty"
proof -
  note P = epoll_kernel.epoll_poller [OF assms(1)]
  let ?s = "\<lparr>self = this, threadId = thread, tid = thread, heap = [p \<mapsto> Channel_new this evtfd],
    channels = Map.empty, eventHandling_loop = False, activeChannels = [], currentActiveChannel = None,
    epoll = Map.empty, eventsSize = kInitEventListSize, looping = False, quit = False,
    callingPendingFunctors = False, iteration = 0, wakeupFd = evtfd, wakeupChannel = p, wakeupCount = 0,
    pendingFunctors = []\<rparr> :: 'f EventLoop"
  have i: "epoll_inv ?s" by (simp add: epoll_inv_def)
  have v: "valid_events kReadEvent" by (simp add: valid_events_def poll_flags)
  have e: "epoll_watched ?s = Map.empty" by (simp add: epoll_watched_def fun_eq_iff)
  obtain s j where s: "set_events (EPollPoller_updateChannel ctl) kReadEvent p ?s = Inr s" "epoll_inv s"
    "epoll_same ?s s" "channels s = [evtfd \<mapsto> p]" "epoll_watched s = [evtfd \<mapsto> kReadEvent]"
    "heap s = [p \<mapsto> (Channel_new this evtfd)\<lparr>events := kReadEvent, addedToLoop := True, index := j\<rparr>]"
    using poller.upd_new [OF P i, of p "Channel_new this evtfd" kReadEvent] assms(2) v e
    by (auto simp: Channel_new_def kNew_def)
  have n: "EventLoop_new ctl False this thread evtfd p = Inr s"
    using s(1) by (simp add: EventLoop_new_def interest_ops(1) [of _ _ "Channel_new this evtfd"] Channel_new_def)
  obtain t k where t: "set_events (EPollPoller_updateChannel ctl) 0 p s = Inr t" "epoll_inv t"
    "epoll_same s t" "channels t = [evtfd \<mapsto> p]" "epoll_watched t = Map.empty"
    "heap t p = Some ((Channel_new this evtfd)\<lparr>events := 0, addedToLoop := True, index := k\<rparr>)"
    using poller.upd_mod [OF P s(2), of p _ 0] s(3-6)
    by (auto simp: epoll_same_def Channel_new_def)
  have w: "wakeupChannel s = p" "threadId t = tid t" "\<not> eventHandling_loop t"
    using s(3) t(3) by (auto simp: epoll_same_def)
  obtain s' where "Channel_remove (EPollPoller_removeChannel ctl) p t = Inr s'"
    "channels s' = Map.empty" "epoll_watched s' = Map.empty"
    using poller.rem_law [OF P t(2) w(2) t(6)] t(4,5) w(3) by (auto simp: Channel_new_def)
  with n s t(1) w show ?thesis
    by (auto simp: EventLoop_dtor_def interest_ops(5) [of s p "(Channel_new this evtfd)
      \<lparr>events := kReadEvent, addedToLoop := True, index := j\<rparr>"])
qed

theorem eventloop_ctor_dtor_witness:
  "\<exists>s s'. EventLoop_new linux_epoll_ctl False 0 1 4 7 = Inr (s :: nat EventLoop) \<and> epoll_inv s \<and>
    epoll_watched s = [4 \<mapsto> kReadEvent] \<and> EventLoop_dtor linux_epoll_ctl s = Inr s' \<and>
    channels s' = Map.empty \<and> epoll_watched s' = Map.empty"
  by (rule eventloop_ctor_dtor [OF linux.epoll_kernel_axioms]) simp

end
