(* ===== verification/Net_Endian.thy ===== *)
theory Net_Endian
  imports Muduo_Prelude
begin

text \<open>
  \<open>muduo/net/Endian.h\<close>: the conversions between host and network byte order, and
  the memory representation of an integer that \<open>memcpy\<close> and \<open>append(&x, sizeof x)\<close>
  see. The host is little-endian, as the comment of \<open>Endian.h\<close> assumes for common
  hosts, so \<open>htobe32\<close> and its siblings of \<open>endian.h\<close> reverse the bytes.
\<close>

section \<open>Integers in memory\<close>

text \<open>Little-endian bytes of a number, least significant byte first.\<close>

fun le_bytes_nat :: "nat \<Rightarrow> nat \<Rightarrow> char list" where
  "le_bytes_nat 0 k = []"
| "le_bytes_nat (Suc n) k = char_of k # le_bytes_nat n (k div 256)"

fun le_value_nat :: "char list \<Rightarrow> nat" where
  "le_value_nat [] = 0"
| "le_value_nat (c # cs) = of_char c + 256 * le_value_nat cs"

definition mem_bytes :: "'a::len word \<Rightarrow> char list" where
  "mem_bytes w = le_bytes_nat (LENGTH('a) div 8) (unat w)"

definition mem_value :: "char list \<Rightarrow> 'a::len word" where
  "mem_value bs = word_of_nat (le_value_nat bs)"

definition bswap :: "'a::len word \<Rightarrow> 'a word" where
  "bswap w = mem_value (rev (mem_bytes w))"

section \<open>The conversion functions\<close>

definition hostToNetwork64 :: "64 word \<Rightarrow> 64 word" where
  "hostToNetwork64 host64 = bswap host64"

definition hostToNetwork32 :: "32 word \<Rightarrow> 32 word" where
  "hostToNetwork32 host32 = bswap host32"

definition hostToNetwork16 :: "16 word \<Rightarrow> 16 word" where
  "hostToNetwork16 host16 = bswap host16"

definition networkToHost64 :: "64 word \<Rightarrow> 64 word" where
  "networkToHost64 net64 = bswap net64"

definition networkToHost32 :: "32 word \<Rightarrow> 32 word" where
  "networkToHost32 net32 = bswap net32"

definition networkToHost16 :: "16 word \<Rightarrow> 16 word" where
  "networkToHost16 net16 = bswap net16"

section \<open>Round trips\<close>

lemma length_le_bytes_nat [simp]: "length (le_bytes_nat n k) = n"
  by (induction n arbitrary: k) auto

lemma le_value_le_bytes: "le_value_nat (le_bytes_nat n k) = k mod 256 ^ n"
proof (induction n arbitrary: k)
  case (Suc n)
  have "k mod 256 + 256 * (k div 256 mod 256 ^ n) = k mod (256 * 256 ^ n)"
    by (simp add: mod_mult2_eq)
  with Suc show ?case by (simp add: of_char_of)
qed simp

lemma le_bytes_le_value: "le_bytes_nat (length bs) (le_value_nat bs) = bs"
proof (induction bs)
  case (Cons c cs)
  let ?k = "of_char c + 256 * le_value_nat cs"
  have "of_char c < (256 :: nat)" by simp
  then have "?k div 256 = le_value_nat cs" and "?k mod 256 = of_char c"
    by simp_all
  then have "char_of ?k = c" using char_of_mod_256 [of ?k] by simp
  with Cons \<open>?k div 256 = le_value_nat cs\<close> show ?case by simp
qed simp

lemma le_value_bound: "le_value_nat bs < 256 ^ length bs"
proof (induction bs)
  case (Cons c cs)
  have "of_char c < (256 :: nat)" by simp
  moreover have "256 * le_value_nat cs + 256 \<le> 256 * 256 ^ length cs"
    using Cons by (metis Suc_leI mult_Suc_right mult_le_mono2 add.commute)
  ultimately have "of_char c + 256 * le_value_nat cs < 256 * 256 ^ length cs"
    by linarith
  then show ?case by simp
qed simp

lemma length_mem_bytes [simp]: "length (mem_bytes (w :: 'a::len word)) = LENGTH('a) div 8"
  by (simp add: mem_bytes_def)

text \<open>For a width that is a whole number of bytes, memory and value determine each other.\<close>

lemma pow256: "8 dvd n \<Longrightarrow> (256 :: nat) ^ (n div 8) = 2 ^ n"
  by (auto elim!: dvdE simp: power_mult)

lemma mem_value_bytes:
  assumes "8 dvd LENGTH('a::len)"
  shows "mem_value (mem_bytes w) = (w :: 'a word)"
  using assms
  by (simp add: mem_value_def mem_bytes_def le_value_le_bytes pow256 unsigned_less)

lemma mem_bytes_value:
  assumes "8 dvd LENGTH('a::len)" and "length bs = LENGTH('a) div 8"
  shows "mem_bytes (mem_value bs :: 'a word) = bs"
proof -
  have "le_value_nat bs < 2 ^ LENGTH('a)"
    using le_value_bound [of bs] assms by (simp add: pow256)
  then have "unat (word_of_nat (le_value_nat bs) :: 'a word) = le_value_nat bs"
    by (simp add: unat_of_nat)
  with assms(2) show ?thesis
    by (simp add: mem_bytes_def mem_value_def flip: assms(2)) (simp add: le_bytes_le_value)
qed

lemma mem_bytes_bswap:
  assumes "8 dvd LENGTH('a::len)"
  shows "mem_bytes (bswap w :: 'a word) = rev (mem_bytes w)"
  using assms by (simp add: bswap_def mem_bytes_value)

lemma bswap_bswap:
  assumes "8 dvd LENGTH('a::len)"
  shows "bswap (bswap w) = (w :: 'a word)"
  using assms by (simp add: bswap_def mem_bytes_value mem_value_bytes)

lemmas host_network_defs =
  hostToNetwork64_def hostToNetwork32_def hostToNetwork16_def
  networkToHost64_def networkToHost32_def networkToHost16_def

lemma network_host_inverse [simp]:
  "networkToHost64 (hostToNetwork64 x) = x"
  "networkToHost32 (hostToNetwork32 y) = y"
  "networkToHost16 (hostToNetwork16 z) = z"
  by (simp_all add: host_network_defs bswap_bswap)

text \<open>Network order is big-endian: the memory image of a converted value is the
  reversed little-endian image of the original.\<close>

lemma network_bytes:
  "mem_bytes (hostToNetwork64 x) = rev (mem_bytes x)"
  "mem_bytes (hostToNetwork32 y) = rev (mem_bytes y)"
  "mem_bytes (hostToNetwork16 z) = rev (mem_bytes z)"
  by (simp_all add: host_network_defs mem_bytes_bswap)

end
