(* ===== verification/Net_Buffer.thy ===== *)
theory Net_Buffer
  imports Net_Endian
begin

text \<open>
  \<open>muduo/net/Buffer.h\<close> and \<open>Buffer.cc\<close>: the byte buffer between a socket and the
  user's code. The record is the class (the trailing underscore of a member name is
  dropped); a pointer into the vector is its index; a pointer argument with a length
  is the list of characters readable at the pointer together with the length.
  \<open>std::vector::capacity\<close> is not modelled, so \<open>internalCapacity\<close> is left out.

  The lemmas show that every operation keeps \<open>readerIndex \<le> writerIndex \<le> size\<close>, what it
  does to the readable bytes (\<open>content\<close>), that no assertion fails under the documented
  preconditions, and how far the vector can grow. The locale \<open>byte_buffer\<close> is the
  contract the connection and protocol code relies on.
\<close>

section \<open>State\<close>

definition kCheapPrepend :: nat where
  "kCheapPrepend = 8"

definition kInitialSize :: nat where
  "kInitialSize = 1024"

definition kCRLF :: "char list" where
  "kCRLF = [CHR 0x0D, CHR 0x0A]"

record Buffer =
  buffer :: "char list"
  readerIndex :: nat
  writerIndex :: nat

definition readableBytes :: "Buffer \<Rightarrow> nat" where
  "readableBytes b = writerIndex b - readerIndex b"

definition writableBytes :: "Buffer \<Rightarrow> nat" where
  "writableBytes b = length (buffer b) - writerIndex b"

definition prependableBytes :: "Buffer \<Rightarrow> nat" where
  "prependableBytes b = readerIndex b"

definition peek :: "Buffer \<Rightarrow> nat" where
  "peek b = readerIndex b"

definition beginWrite :: "Buffer \<Rightarrow> nat" where
  "beginWrite b = writerIndex b"

text \<open>\<open>std::vector<char>\<close>: a value-initialised vector, and \<open>resize\<close>.\<close>

definition vector_new :: "nat \<Rightarrow> char list res" where
  "vector_new n = (if n > max_size then Inl LengthError else Inr (replicate n (CHR 0x00)))"

definition vector_resize :: "nat \<Rightarrow> char list \<Rightarrow> char list res" where
  "vector_resize n xs =
     (if n > max_size then Inl LengthError
      else if n \<le> length xs then Inr (take n xs)
      else Inr (xs @ replicate (n - length xs) (CHR 0x00)))"

definition Buffer_new :: "nat \<Rightarrow> Buffer res" where
  "Buffer_new initialSize =
     bindR (vector_new (szt (kCheapPrepend + initialSize))) (\<lambda>v.
     let b = \<lparr>buffer = v, readerIndex = kCheapPrepend, writerIndex = kCheapPrepend\<rparr> in
     bindR (assertR (readableBytes b = 0) b) (\<lambda>b.
     bindR (assertR (writableBytes b = initialSize) b) (\<lambda>b.
     assertR (prependableBytes b = kCheapPrepend) b)))"

text \<open>\<open>Buffer other;\<close>, with the default argument \<open>kInitialSize\<close>.\<close>

definition emptyBuffer :: Buffer where
  "emptyBuffer = \<lparr>buffer = replicate (kCheapPrepend + kInitialSize) (CHR 0x00),
                  readerIndex = kCheapPrepend, writerIndex = kCheapPrepend\<rparr>"

definition swap :: "Buffer \<Rightarrow> Buffer \<Rightarrow> Buffer \<times> Buffer" where
  "swap this rhs =
     (this\<lparr>buffer := buffer rhs, readerIndex := readerIndex rhs, writerIndex := writerIndex rhs\<rparr>,
      rhs\<lparr>buffer := buffer this, readerIndex := readerIndex this, writerIndex := writerIndex this\<rparr>)"

section \<open>Searching the readable bytes\<close>

definition findCRLF_from :: "nat \<Rightarrow> Buffer \<Rightarrow> nat option res" where
  "findCRLF_from start b =
     bindR (assertR (peek b \<le> start) ()) (\<lambda>_.
     bindR (assertR (start \<le> beginWrite b) ()) (\<lambda>_.
     let crlf = start + std_search kCRLF (range_of (buffer b) start (beginWrite b))
     in Inr (if crlf = beginWrite b then None else Some crlf)))"

definition findCRLF :: "Buffer \<Rightarrow> nat option" where
  "findCRLF b =
     (let crlf = peek b + std_search kCRLF (range_of (buffer b) (peek b) (beginWrite b))
      in if crlf = beginWrite b then None else Some crlf)"

definition findEOL :: "Buffer \<Rightarrow> nat option" where
  "findEOL b =
     map_option (\<lambda>i. peek b + i)
       (memchr (CHR 0x0A) (range_of (buffer b) (peek b) (peek b + readableBytes b)))"

definition findEOL_from :: "nat \<Rightarrow> Buffer \<Rightarrow> nat option res" where
  "findEOL_from start b =
     bindR (assertR (peek b \<le> start) ()) (\<lambda>_.
     bindR (assertR (start \<le> beginWrite b) ()) (\<lambda>_.
     Inr (map_option (\<lambda>i. start + i)
       (memchr (CHR 0x0A) (range_of (buffer b) start (start + (beginWrite b - start)))))))"

section \<open>Consuming\<close>

definition retrieveAll :: "Buffer \<Rightarrow> Buffer" where
  "retrieveAll b = b\<lparr>readerIndex := kCheapPrepend, writerIndex := kCheapPrepend\<rparr>"

definition retrieve :: "nat \<Rightarrow> Buffer \<Rightarrow> Buffer res" where
  "retrieve len b =
     bindR (assertR (len \<le> readableBytes b) b) (\<lambda>b.
     if len < readableBytes b then Inr (b\<lparr>readerIndex := readerIndex b + len\<rparr>)
     else Inr (retrieveAll b))"

definition retrieveUntil :: "nat \<Rightarrow> Buffer \<Rightarrow> Buffer res" where
  "retrieveUntil endp b =
     bindR (assertR (peek b \<le> endp) b) (\<lambda>b.
     bindR (assertR (endp \<le> beginWrite b) b) (\<lambda>b.
     retrieve (endp - peek b) b))"

definition retrieveInt64 :: "Buffer \<Rightarrow> Buffer res" where
  "retrieveInt64 b = retrieve 8 b"

definition retrieveInt32 :: "Buffer \<Rightarrow> Buffer res" where
  "retrieveInt32 b = retrieve 4 b"

definition retrieveInt16 :: "Buffer \<Rightarrow> Buffer res" where
  "retrieveInt16 b = retrieve 2 b"

definition retrieveInt8 :: "Buffer \<Rightarrow> Buffer res" where
  "retrieveInt8 b = retrieve 1 b"

definition retrieveAsString :: "nat \<Rightarrow> Buffer \<Rightarrow> (char list \<times> Buffer) res" where
  "retrieveAsString len b =
     bindR (assertR (len \<le> readableBytes b) b) (\<lambda>b.
     let result = range_of (buffer b) (peek b) (peek b + len) in
     bindR (retrieve len b) (\<lambda>b. Inr (result, b)))"

definition retrieveAllAsString :: "Buffer \<Rightarrow> (char list \<times> Buffer) res" where
  "retrieveAllAsString b = retrieveAsString (readableBytes b) b"

text \<open>
  A \<open>StringPiece\<close> is the memory readable from its pointer on and its \<open>int\<close> length;
  \<open>toStringPiece\<close> casts the \<open>size_t\<close> length to \<open>int\<close>.
\<close>

type_synonym StringPiece = "char list \<times> int"

definition toStringPiece :: "Buffer \<Rightarrow> StringPiece" where
  "toStringPiece b = (drop (peek b) (buffer b), to_int (int (readableBytes b)))"

section \<open>Appending\<close>

definition hasWritten :: "nat \<Rightarrow> Buffer \<Rightarrow> Buffer res" where
  "hasWritten len b =
     bindR (assertR (len \<le> writableBytes b) b) (\<lambda>b.
     Inr (b\<lparr>writerIndex := writerIndex b + len\<rparr>))"

definition unwrite :: "nat \<Rightarrow> Buffer \<Rightarrow> Buffer res" where
  "unwrite len b =
     bindR (assertR (len \<le> readableBytes b) b) (\<lambda>b.
     Inr (b\<lparr>writerIndex := writerIndex b - len\<rparr>))"

definition makeSpace :: "nat \<Rightarrow> Buffer \<Rightarrow> Buffer res" where
  "makeSpace len b =
     (if szt (writableBytes b + prependableBytes b) < szt (len + kCheapPrepend) then
        bindR (vector_resize (szt (writerIndex b + len)) (buffer b)) (\<lambda>v.
        Inr (b\<lparr>buffer := v\<rparr>))
      else
        bindR (assertR (kCheapPrepend < readerIndex b) b) (\<lambda>b.
        let readable = readableBytes b;
            v = overwrite (buffer b) kCheapPrepend
                  (range_of (buffer b) (readerIndex b) (writerIndex b));
            b' = b\<lparr>buffer := v, readerIndex := kCheapPrepend,
                    writerIndex := kCheapPrepend + readable\<rparr>
        in assertR (readable = readableBytes b') b'))"

definition ensureWritableBytes :: "nat \<Rightarrow> Buffer \<Rightarrow> Buffer res" where
  "ensureWritableBytes len b =
     bindR (if writableBytes b < len then makeSpace len b else Inr b) (\<lambda>b.
     assertR (writableBytes b \<ge> len) b)"

definition append_data :: "char list \<Rightarrow> nat \<Rightarrow> Buffer \<Rightarrow> Buffer res" where
  "append_data dat len b =
     bindR (ensureWritableBytes len b) (\<lambda>b.
     if length dat < len then Inl UndefinedBehaviour
     else hasWritten len
            (b\<lparr>buffer := overwrite (buffer b) (beginWrite b) (take len dat)\<rparr>))"

definition append_piece :: "StringPiece \<Rightarrow> Buffer \<Rightarrow> Buffer res" where
  "append_piece str b = append_data (fst str) (to_size (snd str)) b"

text \<open>\<open>append(s)\<close> for a string: the conversion to \<open>StringPiece\<close> casts its size to \<open>int\<close>.\<close>

definition append_string :: "char list \<Rightarrow> Buffer \<Rightarrow> Buffer res" where
  "append_string s b = append_piece (s, to_int (int (length s))) b"

definition appendInt64 :: "64 word \<Rightarrow> Buffer \<Rightarrow> Buffer res" where
  "appendInt64 x b = append_data (mem_bytes (hostToNetwork64 x)) 8 b"

definition appendInt32 :: "32 word \<Rightarrow> Buffer \<Rightarrow> Buffer res" where
  "appendInt32 x b = append_data (mem_bytes (hostToNetwork32 x)) 4 b"

definition appendInt16 :: "16 word \<Rightarrow> Buffer \<Rightarrow> Buffer res" where
  "appendInt16 x b = append_data (mem_bytes (hostToNetwork16 x)) 2 b"

definition appendInt8 :: "8 word \<Rightarrow> Buffer \<Rightarrow> Buffer res" where
  "appendInt8 x b = append_data (mem_bytes x) 1 b"

section \<open>Reading integers\<close>

definition peekInt64 :: "Buffer \<Rightarrow> 64 word res" where
  "peekInt64 b =
     bindR (assertR (readableBytes b \<ge> 8) b) (\<lambda>b.
     Inr (networkToHost64 (mem_value (range_of (buffer b) (peek b) (peek b + 8)))))"

definition peekInt32 :: "Buffer \<Rightarrow> 32 word res" where
  "peekInt32 b =
     bindR (assertR (readableBytes b \<ge> 4) b) (\<lambda>b.
     Inr (networkToHost32 (mem_value (range_of (buffer b) (peek b) (peek b + 4)))))"

definition peekInt16 :: "Buffer \<Rightarrow> 16 word res" where
  "peekInt16 b =
     bindR (assertR (readableBytes b \<ge> 2) b) (\<lambda>b.
     Inr (networkToHost16 (mem_value (range_of (buffer b) (peek b) (peek b + 2)))))"

definition peekInt8 :: "Buffer \<Rightarrow> 8 word res" where
  "peekInt8 b =
     bindR (assertR (readableBytes b \<ge> 1) b) (\<lambda>b.
     Inr (mem_value (range_of (buffer b) (peek b) (peek b + 1))))"

definition readInt64 :: "Buffer \<Rightarrow> (64 word \<times> Buffer) res" where
  "readInt64 b = bindR (peekInt64 b) (\<lambda>result. bindR (retrieveInt64 b) (\<lambda>b. Inr (result, b)))"

definition readInt32 :: "Buffer \<Rightarrow> (32 word \<times> Buffer) res" where
  "readInt32 b = bindR (peekInt32 b) (\<lambda>result. bindR (retrieveInt32 b) (\<lambda>b. Inr (result, b)))"

definition readInt16 :: "Buffer \<Rightarrow> (16 word \<times> Buffer) res" where
  "readInt16 b = bindR (peekInt16 b) (\<lambda>result. bindR (retrieveInt16 b) (\<lambda>b. Inr (result, b)))"

definition readInt8 :: "Buffer \<Rightarrow> (8 word \<times> Buffer) res" where
  "readInt8 b = bindR (peekInt8 b) (\<lambda>result. bindR (retrieveInt8 b) (\<lambda>b. Inr (result, b)))"

section \<open>Prepending, shrinking, reading from a descriptor\<close>

definition prepend :: "char list \<Rightarrow> nat \<Rightarrow> Buffer \<Rightarrow> Buffer res" where
  "prepend dat len b =
     bindR (assertR (len \<le> prependableBytes b) b) (\<lambda>b.
     let b = b\<lparr>readerIndex := readerIndex b - len\<rparr> in
     if length dat < len then Inl UndefinedBehaviour
     else Inr (b\<lparr>buffer := overwrite (buffer b) (readerIndex b) (take len dat)\<rparr>))"

definition prependInt64 :: "64 word \<Rightarrow> Buffer \<Rightarrow> Buffer res" where
  "prependInt64 x b = prepend (mem_bytes (hostToNetwork64 x)) 8 b"

definition prependInt32 :: "32 word \<Rightarrow> Buffer \<Rightarrow> Buffer res" where
  "prependInt32 x b = prepend (mem_bytes (hostToNetwork32 x)) 4 b"

definition prependInt16 :: "16 word \<Rightarrow> Buffer \<Rightarrow> Buffer res" where
  "prependInt16 x b = prepend (mem_bytes (hostToNetwork16 x)) 2 b"

definition prependInt8 :: "8 word \<Rightarrow> Buffer \<Rightarrow> Buffer res" where
  "prependInt8 x b = prepend (mem_bytes x) 1 b"

definition shrink :: "nat \<Rightarrow> Buffer \<Rightarrow> Buffer res" where
  "shrink reserve b =
     bindR (Buffer_new kInitialSize) (\<lambda>other.
     bindR (ensureWritableBytes (szt (readableBytes b + reserve)) other) (\<lambda>other.
     bindR (append_piece (toStringPiece b) other) (\<lambda>other.
     Inr (fst (swap b other)))))"

text \<open>
  \<open>readFd\<close>: the argument \<open>readv\<close> is the system call, given the total length of the
  io vectors; it returns \<open>errno\<close> or the bytes it has scattered over them, first the
  writable area and then \<open>extrabuf\<close>. The result is the return value, \<open>savedErrno\<close> if
  it is set, and the buffer.
\<close>

definition sizeof_extrabuf :: nat where
  "sizeof_extrabuf = 65536"

definition readFd_iovlen :: "Buffer \<Rightarrow> nat" where
  "readFd_iovlen b =
     (let writable = writableBytes b;
          iovcnt = (if writable < sizeof_extrabuf then 2 else 1 :: nat)
      in if iovcnt = 2 then writable + sizeof_extrabuf else writable)"

definition readFd :: "(nat \<Rightarrow> int + char list) \<Rightarrow> Buffer \<Rightarrow> (int \<times> int option \<times> Buffer) res" where
  "readFd readv b =
     (let writable = writableBytes b
      in case readv (readFd_iovlen b) of
           Inl err \<Rightarrow> Inr (-1, Some err, b)
         | Inr dat \<Rightarrow>
             let n = length dat;
                 b = b\<lparr>buffer := overwrite (buffer b) (writerIndex b) (take writable dat)\<rparr>;
                 extrabuf = drop writable dat
             in if n \<le> writable then Inr (int n, None, b\<lparr>writerIndex := writerIndex b + n\<rparr>)
                else bindR (append_data extrabuf (n - writable)
                              (b\<lparr>writerIndex := length (buffer b)\<rparr>))
                       (\<lambda>b. Inr (int n, None, b)))"

section \<open>Invariant and abstraction\<close>

definition buf_inv :: "Buffer \<Rightarrow> bool" where
  "buf_inv b \<longleftrightarrow> readerIndex b \<le> writerIndex b \<and> writerIndex b \<le> length (buffer b) \<and>
     kCheapPrepend \<le> length (buffer b) \<and> length (buffer b) \<le> max_size"

definition content :: "Buffer \<Rightarrow> char list" where
  "content b = range_of (buffer b) (readerIndex b) (writerIndex b)"

text \<open>How many bytes can still be appended before the vector reaches \<open>max_size\<close>.\<close>

definition room :: "Buffer \<Rightarrow> nat" where
  "room b = max_size - max (writerIndex b) kCheapPrepend"

lemmas buf_sizes = readableBytes_def writableBytes_def prependableBytes_def peek_def beginWrite_def

lemma buf_inv_lt_two64:
  "buf_inv b \<Longrightarrow> writableBytes b + prependableBytes b < two64"
  using max_size_lt_two64 by (auto simp: buf_inv_def buf_sizes)

lemma length_content [simp]: "buf_inv b \<Longrightarrow> length (content b) = readableBytes b"
  by (simp add: content_def buf_inv_def readableBytes_def)

lemma emptyBuffer_new: "Buffer_new kInitialSize = Inr emptyBuffer"
  by (simp add: Buffer_new_def vector_new_def szt_def two64_def max_size_def kCheapPrepend_def
      kInitialSize_def emptyBuffer_def buf_sizes)

lemma Buffer_new_ok:
  assumes "kCheapPrepend + initialSize \<le> max_size"
  shows "\<exists>b. Buffer_new initialSize = Inr b \<and> buf_inv b \<and> content b = []"
proof -
  have "szt (kCheapPrepend + initialSize) = kCheapPrepend + initialSize"
    using assms max_size_lt_two64 by simp
  with assms show ?thesis
    by (simp add: Buffer_new_def vector_new_def buf_inv_def content_def buf_sizes)
qed

lemma emptyBuffer_inv [simp]:
  "buf_inv emptyBuffer" "content emptyBuffer = []" "writerIndex emptyBuffer = 8"
  "room emptyBuffer = 9223372036854775799"
  by (simp_all add: buf_inv_def content_def room_def emptyBuffer_def kCheapPrepend_def
      kInitialSize_def max_size_def)

section \<open>Consuming keeps the rest\<close>

lemma retrieveAll_ok [simp]:
  "buf_inv b \<Longrightarrow> buf_inv (retrieveAll b)" "content (retrieveAll b) = []"
  by (simp_all add: retrieveAll_def buf_inv_def content_def)

lemma retrieve_ok:
  assumes "buf_inv b" and "n \<le> readableBytes b"
  shows "\<exists>b'. retrieve n b = Inr b' \<and> buf_inv b' \<and> content b' = drop n (content b) \<and>
    room b \<le> room b' \<and> buffer b' = buffer b"
proof (cases "n < readableBytes b")
  case True
  with assms show ?thesis
    by (auto simp: retrieve_def buf_inv_def content_def drop_range_of room_def readableBytes_def)
next
  case False
  with assms have "drop n (content b) = []" by simp
  with False assms show ?thesis
    by (auto simp: retrieve_def room_def retrieveAll_def content_def buf_inv_def)
qed

lemma retrieve_fail: "readableBytes b < n \<Longrightarrow> retrieve n b = Inl AssertFailed"
  by (simp add: retrieve_def)

lemma content_peek:
  assumes "n \<le> readableBytes b"
  shows "range_of (buffer b) (peek b) (peek b + n) = take n (content b)"
  using assms by (simp add: content_def take_range_of peek_def readableBytes_def)

lemma retrieveAsString_ok:
  assumes "buf_inv b" and "n \<le> readableBytes b"
  shows "\<exists>b'. retrieveAsString n b = Inr (take n (content b), b') \<and> buf_inv b' \<and>
    content b' = drop n (content b) \<and> room b \<le> room b'"
  using retrieve_ok [OF assms] assms(2)
  by (auto simp: retrieveAsString_def content_peek)

lemma retrieveUntil_ok:
  assumes "buf_inv b" and "readerIndex b \<le> p" and "p \<le> writerIndex b"
  shows "\<exists>b'. retrieveUntil p b = Inr b' \<and> buf_inv b' \<and>
    content b' = drop (p - readerIndex b) (content b) \<and> room b \<le> room b'"
proof -
  have "p - readerIndex b \<le> readableBytes b"
    using assms(3) by (simp add: readableBytes_def)
  from retrieve_ok [OF assms(1) this] assms(2,3) show ?thesis
    by (auto simp: retrieveUntil_def peek_def beginWrite_def)
qed

section \<open>Making room\<close>

text \<open>
  When the free bytes at both ends suffice, the readable bytes move to the front;
  otherwise the vector grows to exactly \<open>writerIndex + len\<close>. In the second case the
  reader index is less than \<open>len + kCheapPrepend\<close>, which bounds the new size.
\<close>

lemma makeSpace_move:
  assumes "buf_inv b" and "writableBytes b < len"
    and "len + kCheapPrepend \<le> writableBytes b + prependableBytes b"
  shows "\<exists>b'. makeSpace len b = Inr b' \<and> buf_inv b' \<and> content b' = content b \<and>
    len \<le> writableBytes b' \<and> writerIndex b' \<le> writerIndex b \<and>
    length (buffer b') = length (buffer b)"
proof -
  let ?v = "overwrite (buffer b) kCheapPrepend (content b)"
  let ?b = "b\<lparr>buffer := ?v, readerIndex := kCheapPrepend,
              writerIndex := kCheapPrepend + readableBytes b\<rparr>"
  have lt: "writableBytes b + prependableBytes b < two64"
    using assms(1) by (rule buf_inv_lt_two64)
  have ge: "\<not> szt (writableBytes b + prependableBytes b) < szt (len + kCheapPrepend)"
    using lt assms(3) by simp
  have r: "kCheapPrepend < readerIndex b"
    using assms by (simp add: buf_sizes)
  have fit: "kCheapPrepend + length (content b) \<le> length (buffer b)"
    using assms r by (simp add: buf_inv_def buf_sizes)
  have "makeSpace len b = Inr ?b"
    using ge r by (simp add: makeSpace_def content_def buf_sizes)
  moreover have "content ?b = content b"
    using range_of_overwrite_same [OF fit] length_content [OF assms(1)]
    by (simp add: content_def [of ?b])
  ultimately show ?thesis
    using fit assms r by (auto simp: buf_inv_def buf_sizes)
qed

lemma makeSpace_grow:
  assumes "buf_inv b" and "writableBytes b < len" and "writerIndex b + len \<le> max_size"
    and "writableBytes b + prependableBytes b < len + kCheapPrepend"
  shows "\<exists>b'. makeSpace len b = Inr b' \<and> buf_inv b' \<and> content b' = content b \<and>
    len \<le> writableBytes b' \<and> writerIndex b' = writerIndex b \<and>
    length (buffer b') = writerIndex b + len"
proof -
  have lt: "writerIndex b + len < two64" "len + kCheapPrepend < two64"
    using assms(3) by (simp_all add: two64_def max_size_def kCheapPrepend_def)
  have less: "szt (writableBytes b + prependableBytes b) < szt (len + kCheapPrepend)"
    using assms(4) lt by simp
  have "length (buffer b) < writerIndex b + len"
    using assms(2) by (simp add: writableBytes_def)
  with less lt assms show ?thesis
    by (auto simp: makeSpace_def vector_resize_def buf_inv_def content_def writableBytes_def
        range_of_append_left)
qed

lemma ensureWritableBytes_ok:
  assumes "buf_inv b" and "writerIndex b + len \<le> max_size"
  shows "\<exists>b'. ensureWritableBytes len b = Inr b' \<and> buf_inv b' \<and> content b' = content b \<and>
    len \<le> writableBytes b' \<and> writerIndex b' \<le> writerIndex b \<and>
    length (buffer b) \<le> length (buffer b') \<and>
    length (buffer b') \<le> max (length (buffer b)) (readableBytes b + 2 * len + kCheapPrepend)"
proof (cases "writableBytes b < len")
  case True
  show ?thesis
  proof (cases "writableBytes b + prependableBytes b < len + kCheapPrepend")
    case grow: True
    with makeSpace_grow [OF assms(1) True assms(2)] assms(1) True show ?thesis
      by (auto simp: ensureWritableBytes_def buf_sizes buf_inv_def)
  next
    case False
    with makeSpace_move [OF assms(1) True] True show ?thesis
      by (auto simp: ensureWritableBytes_def)
  qed
next
  case False
  with assms show ?thesis by (auto simp: ensureWritableBytes_def)
qed

section \<open>Appending and prepending\<close>

lemma write_at_end:
  assumes "buf_inv b" and "length ys \<le> writableBytes b"
  defines "b' \<equiv> b\<lparr>buffer := overwrite (buffer b) (writerIndex b) ys,
                 writerIndex := writerIndex b + length ys\<rparr>"
  shows "buf_inv b'" and "content b' = content b @ ys"
proof -
  have fit: "writerIndex b + length ys \<le> length (buffer b)"
    using assms(1,2) by (auto simp: buf_inv_def writableBytes_def)
  then show "buf_inv b'" using assms(1) by (simp add: b'_def buf_inv_def)
  have "content b' = range_of (overwrite (buffer b) (writerIndex b) ys) (readerIndex b) (writerIndex b)
      @ range_of (overwrite (buffer b) (writerIndex b) ys) (writerIndex b) (writerIndex b + length ys)"
    using assms(1) by (simp add: b'_def content_def buf_inv_def range_of_append)
  then show "content b' = content b @ ys"
    using fit by (simp add: content_def range_of_overwrite_before range_of_overwrite_same)
qed

lemma append_data_ok:
  assumes "buf_inv b" and "len \<le> length dat" and "writerIndex b + len \<le> max_size"
  shows "\<exists>b'. append_data dat len b = Inr b' \<and> buf_inv b' \<and>
    content b' = content b @ take len dat \<and> writerIndex b' \<le> writerIndex b + len \<and>
    length (buffer b') \<le> max (length (buffer b)) (readableBytes b + 2 * len + kCheapPrepend)"
proof -
  obtain b1 where b1: "ensureWritableBytes len b = Inr b1" "buf_inv b1" "content b1 = content b"
    "len \<le> writableBytes b1" "writerIndex b1 \<le> writerIndex b"
    "length (buffer b1) \<le> max (length (buffer b)) (readableBytes b + 2 * len + kCheapPrepend)"
    using ensureWritableBytes_ok [OF assms(1,3)] by auto
  let ?b = "b1\<lparr>buffer := overwrite (buffer b1) (writerIndex b1) (take len dat),
              writerIndex := writerIndex b1 + len\<rparr>"
  have l: "length (take len dat) = len" using assms(2) by simp
  have "append_data dat len b = Inr ?b"
    using b1 assms(2) l by (auto simp: append_data_def hasWritten_def buf_sizes buf_inv_def)
  moreover have "buf_inv ?b" "content ?b = content b @ take len dat"
    using write_at_end [OF b1(2), of "take len dat"] b1(3,4) l by simp_all
  moreover have "length (buffer ?b) = length (buffer b1)"
    using b1(2,4) l by (auto simp: buf_inv_def writableBytes_def)
  ultimately show ?thesis using b1(5,6) by auto
qed

lemma append_all_ok:
  assumes "buf_inv b" and "length dat \<le> room b"
  shows "\<exists>b'. append_data dat (length dat) b = Inr b' \<and> buf_inv b' \<and>
    content b' = content b @ dat \<and> room b \<le> room b' + length dat"
proof -
  have "writerIndex b + length dat \<le> max_size"
    using assms by (auto simp: room_def buf_inv_def kCheapPrepend_def max_size_def)
  from append_data_ok [OF assms(1) _ this, of dat]
  show ?thesis by (auto simp: room_def)
qed

lemma append_string_eq:
  "length s < 2147483648 \<Longrightarrow> append_string s b = append_data s (length s) b"
  by (simp add: append_string_def append_piece_def two64_def)

lemma prepend_ok:
  assumes "buf_inv b" and "len \<le> prependableBytes b" and "len \<le> length dat"
  shows "\<exists>b'. prepend dat len b = Inr b' \<and> buf_inv b' \<and>
    content b' = take len dat @ content b \<and> writerIndex b' = writerIndex b"
proof -
  let ?r = "readerIndex b - len"
  let ?v = "overwrite (buffer b) ?r (take len dat)"
  have l: "length (take len dat) = len" and r: "?r + len = readerIndex b"
    using assms by (simp_all add: prependableBytes_def)
  have "?r + length (take len dat) \<le> length (buffer b)"
    using assms l r by (simp add: buf_inv_def)
  moreover have "range_of ?v ?r (writerIndex b) =
      range_of ?v ?r (readerIndex b) @ range_of ?v (readerIndex b) (writerIndex b)"
    using assms(1) by (simp add: range_of_append buf_inv_def)
  ultimately have "range_of ?v ?r (writerIndex b) = take len dat @ content b"
    using l r range_of_overwrite_same [of ?r "take len dat" "buffer b"]
    by (simp add: content_def range_of_overwrite_after)
  with assms l show ?thesis
    by (auto simp: prepend_def buf_inv_def content_def prependableBytes_def)
qed

section \<open>The contract clients rely on\<close>

text \<open>
  A byte buffer is a queue of bytes: appending extends it at the end, retrieving
  drops a prefix and fails the assertion when there are not enough bytes, and neither
  disturbs the rest. \<open>room\<close> bounds what can be appended.
\<close>

locale byte_buffer =
  fixes invar :: "'b \<Rightarrow> bool"
    and bytes :: "'b \<Rightarrow> char list"
    and space :: "'b \<Rightarrow> nat"
    and app :: "char list \<Rightarrow> 'b \<Rightarrow> 'b res"
    and ret :: "nat \<Rightarrow> 'b \<Rightarrow> 'b res"
  assumes app_law: "invar b \<Longrightarrow> length d \<le> space b \<Longrightarrow>
      \<exists>b'. app d b = Inr b' \<and> invar b' \<and> bytes b' = bytes b @ d \<and> space b \<le> space b' + length d"
    and ret_law: "invar b \<Longrightarrow> n \<le> length (bytes b) \<Longrightarrow>
      \<exists>b'. ret n b = Inr b' \<and> invar b' \<and> bytes b' = drop n (bytes b) \<and> space b \<le> space b'"
    and ret_short: "invar b \<Longrightarrow> length (bytes b) < n \<Longrightarrow> ret n b = Inl AssertFailed"
begin

lemma app_chunks:
  assumes "invar b" and "length (concat ds) \<le> space b"
  shows "\<exists>b'. foldR app ds b = Inr b' \<and> invar b' \<and> bytes b' = bytes b @ concat ds \<and>
    space b \<le> space b' + length (concat ds)"
  using assms
proof (induction ds arbitrary: b)
  case (Cons d ds)
  then obtain b1 where b1: "app d b = Inr b1" "invar b1" "bytes b1 = bytes b @ d"
    "space b \<le> space b1 + length d"
    using app_law [of b d] by auto
  with Cons.prems have "length (concat ds) \<le> space b1" by simp
  from Cons.IH [OF b1(2) this] b1 show ?case by auto
qed simp

lemma app_then_ret:
  assumes "invar b" and "bytes b = []" and "length d \<le> space b" and "n \<le> length d"
  shows "\<exists>b'. bindR (app d b) (ret n) = Inr b' \<and> invar b' \<and> bytes b' = drop n d"
proof -
  from assms obtain b1 where "app d b = Inr b1" "invar b1" "bytes b1 = d"
    using app_law [of b d] by auto
  with ret_law [of b1 n] assms(4) show ?thesis by auto
qed

end

interpretation buf: byte_buffer buf_inv content room "\<lambda>d. append_data d (length d)" retrieve
proof
  show "buf_inv b \<Longrightarrow> length d \<le> room b \<Longrightarrow> \<exists>b'. append_data d (length d) b = Inr b' \<and> buf_inv b' \<and>
      content b' = content b @ d \<and> room b \<le> room b' + length d" for b d
    by (rule append_all_ok)
  show "buf_inv b \<Longrightarrow> n \<le> length (content b) \<Longrightarrow> \<exists>b'. retrieve n b = Inr b' \<and> buf_inv b' \<and>
      content b' = drop n (content b) \<and> room b \<le> room b'" for b n
    using retrieve_ok [of b n] by auto
  show "buf_inv b \<Longrightarrow> length (content b) < n \<Longrightarrow> retrieve n b = Inl AssertFailed" for b n
    by (simp add: retrieve_fail)
qed

section \<open>Integers\<close>

lemma peekInt_ok:
  "buf_inv b \<Longrightarrow> content b = mem_bytes (hostToNetwork64 x) @ rest \<Longrightarrow> peekInt64 b = Inr x"
  "buf_inv b \<Longrightarrow> content b = mem_bytes (hostToNetwork32 y) @ rest \<Longrightarrow> peekInt32 b = Inr y"
  "buf_inv b \<Longrightarrow> content b = mem_bytes (hostToNetwork16 z) @ rest \<Longrightarrow> peekInt16 b = Inr z"
  "buf_inv b \<Longrightarrow> content b = mem_bytes w @ rest \<Longrightarrow> peekInt8 b = Inr w"
  using length_content [of b, symmetric] content_peek [of 2 b] content_peek [of 1 b]
  by (simp_all add: peekInt64_def peekInt32_def peekInt16_def peekInt8_def content_peek
      mem_value_bytes)

lemmas readInt_defs = readInt64_def readInt32_def readInt16_def readInt8_def
  retrieveInt64_def retrieveInt32_def retrieveInt16_def retrieveInt8_def

lemma readInt_ok:
  "buf_inv b \<Longrightarrow> content b = mem_bytes (hostToNetwork64 x) @ rest \<Longrightarrow>
    \<exists>b'. readInt64 b = Inr (x, b') \<and> buf_inv b' \<and> content b' = rest"
  "buf_inv b \<Longrightarrow> content b = mem_bytes (hostToNetwork32 y) @ rest \<Longrightarrow>
    \<exists>b'. readInt32 b = Inr (y, b') \<and> buf_inv b' \<and> content b' = rest"
  "buf_inv b \<Longrightarrow> content b = mem_bytes (hostToNetwork16 z) @ rest \<Longrightarrow>
    \<exists>b'. readInt16 b = Inr (z, b') \<and> buf_inv b' \<and> content b' = rest"
  "buf_inv b \<Longrightarrow> content b = mem_bytes w @ rest \<Longrightarrow>
    \<exists>b'. readInt8 b = Inr (w, b') \<and> buf_inv b' \<and> content b' = rest"
  using buf.ret_law [of b 8] buf.ret_law [of b 4] buf.ret_law [of b 2] buf.ret_law [of b 1]
  by (auto simp: readInt_defs peekInt_ok)

lemma appendInt_eq:
  "appendInt64 x = (\<lambda>b. append_data (mem_bytes (hostToNetwork64 x))
     (length (mem_bytes (hostToNetwork64 x))) b)"
  "appendInt32 y = (\<lambda>b. append_data (mem_bytes (hostToNetwork32 y))
     (length (mem_bytes (hostToNetwork32 y))) b)"
  "appendInt16 z = (\<lambda>b. append_data (mem_bytes (hostToNetwork16 z))
     (length (mem_bytes (hostToNetwork16 z))) b)"
  "appendInt8 w = (\<lambda>b. append_data (mem_bytes w) (length (mem_bytes w)) b)"
  by (simp_all add: fun_eq_iff appendInt64_def appendInt32_def appendInt16_def appendInt8_def)

section \<open>Properties\<close>

text \<open>
  The abstract specification of the queue operations: a plain byte list, where an
  operation that asks for more bytes than there are is a failed assertion.
\<close>

datatype buf_op =
    OpAppend "char list"
  | OpRetrieve nat
  | OpRetrieveAll
  | OpUnwrite nat
  | OpEnsureWritable nat

fun queue_step :: "buf_op \<Rightarrow> char list \<Rightarrow> char list res" where
  "queue_step (OpAppend d) q = Inr (q @ d)"
| "queue_step (OpRetrieve n) q = assertR (n \<le> length q) (drop n q)"
| "queue_step OpRetrieveAll q = Inr []"
| "queue_step (OpUnwrite n) q = assertR (n \<le> length q) (take (length q - n) q)"
| "queue_step (OpEnsureWritable n) q = Inr q"

fun buffer_step :: "buf_op \<Rightarrow> Buffer \<Rightarrow> Buffer res" where
  "buffer_step (OpAppend d) b = append_data d (length d) b"
| "buffer_step (OpRetrieve n) b = retrieve n b"
| "buffer_step OpRetrieveAll b = Inr (retrieveAll b)"
| "buffer_step (OpUnwrite n) b = unwrite n b"
| "buffer_step (OpEnsureWritable n) b = ensureWritableBytes n b"

fun op_space :: "buf_op \<Rightarrow> nat" where
  "op_space (OpAppend d) = length d"
| "op_space (OpEnsureWritable n) = n"
| "op_space _ = 0"

lemma unwrite_ok:
  assumes "buf_inv b" and "n \<le> readableBytes b"
  shows "\<exists>b'. unwrite n b = Inr b' \<and> buf_inv b' \<and>
    content b' = take (length (content b) - n) (content b) \<and> room b \<le> room b'"
proof -
  let ?b = "b\<lparr>writerIndex := writerIndex b - n\<rparr>"
  have "content ?b = take (length (content b) - n) (content b)"
  proof -
    have "readerIndex b + (readableBytes b - n) = writerIndex b - n"
      using assms by (auto simp: buf_inv_def readableBytes_def)
    with assms show ?thesis
      by (simp add: content_def [of ?b] take_range_of [of _ "writerIndex b"] readableBytes_def
          content_def [of b] buf_inv_def)
  qed
  moreover have "buf_inv ?b" "room b \<le> room ?b"
    using assms by (auto simp: buf_inv_def room_def readableBytes_def)
  ultimately show ?thesis using assms(2) by (auto simp: unwrite_def)
qed

lemma buffer_step_ok:
  assumes "buf_inv b" and "op_space opr \<le> room b" and "queue_step opr (content b) = Inr q"
  shows "\<exists>b'. buffer_step opr b = Inr b' \<and> buf_inv b' \<and> content b' = q \<and>
    room b \<le> room b' + op_space opr"
proof (cases opr)
  case (OpAppend d)
  with assms buf.app_law [of b d] show ?thesis by auto
next
  case (OpRetrieve n)
  with assms buf.ret_law [of b n] show ?thesis by auto
next
  case OpRetrieveAll
  with assms show ?thesis by (auto simp: room_def) (simp add: retrieveAll_def)
next
  case (OpUnwrite n)
  with assms unwrite_ok [of b n] show ?thesis by auto
next
  case (OpEnsureWritable n)
  have "writerIndex b + n \<le> max_size"
    using assms OpEnsureWritable by (auto simp: room_def buf_inv_def kCheapPrepend_def max_size_def)
  from ensureWritableBytes_ok [OF assms(1) this] OpEnsureWritable assms(3) show ?thesis
    by (auto simp: room_def)
qed

lemma buffer_step_fail:
  assumes "buf_inv b" and "queue_step opr (content b) = Inl e"
  shows "buffer_step opr b = Inl e"
  using assms by (cases opr) (auto simp: assertR_def retrieve_fail unwrite_def split: if_splits)

text \<open>
  \<^bold>\<open>C2\<close>. Buffer refines a byte queue: for every sequence of appends, retrieves, unwrites
  and reservations whose sizes fit into the vector's maximal size, the buffer
  operations succeed exactly when the queue operations do, fail the same assertion
  otherwise, and leave the same bytes readable.
\<close>

theorem buffer_refines_queue:
  assumes "buf_inv b" and "sum_list (map op_space ops) \<le> room b"
  shows "case foldR queue_step ops (content b) of
      Inl e \<Rightarrow> foldR buffer_step ops b = Inl e
    | Inr q \<Rightarrow> \<exists>b'. foldR buffer_step ops b = Inr b' \<and> buf_inv b' \<and> content b' = q"
  using assms
proof (induction ops arbitrary: b)
  case (Cons opr ops)
  show ?case
  proof (cases "queue_step opr (content b)")
    case (Inl e)
    with Cons.prems show ?thesis by (simp add: buffer_step_fail)
  next
    case (Inr q)
    then obtain b1 where "buffer_step opr b = Inr b1" "buf_inv b1" "content b1 = q"
      "room b \<le> room b1 + op_space opr"
      using buffer_step_ok [of b opr q] Cons.prems by auto
    with Cons.IH [of b1] Cons.prems Inr show ?thesis by (simp split: sum.splits)
  qed
qed simp

theorem buffer_refines_queue_witness:
  "case foldR queue_step [OpAppend ''hello'', OpRetrieve 2, OpUnwrite 1] (content emptyBuffer) of
      Inl e \<Rightarrow> foldR buffer_step [OpAppend ''hello'', OpRetrieve 2, OpUnwrite 1] emptyBuffer = Inl e
    | Inr q \<Rightarrow> \<exists>b'. foldR buffer_step [OpAppend ''hello'', OpRetrieve 2, OpUnwrite 1] emptyBuffer = Inr b'
        \<and> buf_inv b' \<and> content b' = q"
  by (rule buffer_refines_queue) simp_all

text \<open>
  An append never makes the vector larger than twice the live data: the new size is
  at most the old one or the readable bytes plus twice the appended length plus the
  prepend area, and the appended bytes are added at the end.
\<close>

theorem append_size_bound:
  assumes "buf_inv b" and "len \<le> length dat" and "writerIndex b + len \<le> max_size"
  shows "\<exists>b'. append_data dat len b = Inr b' \<and> content b' = content b @ take len dat \<and>
    length (buffer b') \<le> max (length (buffer b)) (readableBytes b + 2 * len + kCheapPrepend)"
  using append_data_ok [OF assms] by blast

theorem append_size_bound_witness:
  "\<exists>b'. append_data ''muduo'' 3 emptyBuffer = Inr b' \<and>
     content b' = content emptyBuffer @ take 3 ''muduo'' \<and>
     length (buffer b') \<le> max (length (buffer emptyBuffer))
       (readableBytes emptyBuffer + 2 * 3 + kCheapPrepend)"
  by (rule append_size_bound) (simp_all add: max_size_def)

text \<open>
  \<^bold>\<open>C24\<close>. Integers written with \<open>appendInt64/32/16/8\<close> are read back by the matching
  \<open>readInt\<close> calls in the same order, leaving the buffer empty.
\<close>

theorem int_roundtrip:
  assumes "buf_inv b" and "content b = []" and "15 \<le> room b"
  shows "\<exists>b1 b2 b3 b4 b5.
    foldR (\<lambda>f. f) [appendInt64 x, appendInt32 y, appendInt16 z, appendInt8 w] b = Inr b1 \<and>
    readInt64 b1 = Inr (x, b2) \<and> readInt32 b2 = Inr (y, b3) \<and> readInt16 b3 = Inr (z, b4) \<and>
    readInt8 b4 = Inr (w, b5) \<and> buf_inv b5 \<and> content b5 = []"
proof -
  let ?ds = "[mem_bytes (hostToNetwork64 x), mem_bytes (hostToNetwork32 y),
    mem_bytes (hostToNetwork16 z), mem_bytes w]"
  have "[appendInt64 x, appendInt32 y, appendInt16 z, appendInt8 w] =
      map (\<lambda>d. append_data d (length d)) ?ds"
    by (simp add: appendInt_eq)
  then have "foldR (\<lambda>f. f) [appendInt64 x, appendInt32 y, appendInt16 z, appendInt8 w] b =
      foldR (\<lambda>d. append_data d (length d)) ?ds b"
    by (simp only: foldR_map)
  with buf.app_chunks [OF assms(1), of ?ds] assms(2,3) obtain b1 where b1:
    "foldR (\<lambda>f. f) [appendInt64 x, appendInt32 y, appendInt16 z, appendInt8 w] b = Inr b1"
    "buf_inv b1" "content b1 = concat ?ds"
    by auto
  obtain b2 where b2: "readInt64 b1 = Inr (x, b2)" "buf_inv b2" "content b2 = concat (drop 1 ?ds)"
    using readInt_ok(1) [OF b1(2), of x] b1(3) by auto
  obtain b3 where b3: "readInt32 b2 = Inr (y, b3)" "buf_inv b3" "content b3 = concat (drop 2 ?ds)"
    using readInt_ok(2) [OF b2(2), of y] b2(3) by (auto simp: eval_nat_numeral)
  obtain b4 where b4: "readInt16 b3 = Inr (z, b4)" "buf_inv b4" "content b4 = mem_bytes w @ []"
    using readInt_ok(3) [OF b3(2), of z] b3(3) by (auto simp: eval_nat_numeral)
  from readInt_ok(4) [OF b4(2,3)] b1(1) b2(1) b3(1) b4(1) show ?thesis by blast
qed

theorem int_roundtrip_witness:
  "\<exists>b1 b2 b3 b4 b5.
    foldR (\<lambda>f. f) [appendInt64 (-5), appendInt32 1000, appendInt16 7, appendInt8 255] emptyBuffer = Inr b1 \<and>
    readInt64 b1 = Inr (-5, b2) \<and> readInt32 b2 = Inr (1000, b3) \<and> readInt16 b3 = Inr (7, b4) \<and>
    readInt8 b4 = Inr (255, b5) \<and> buf_inv b5 \<and> content b5 = []"
  by (rule int_roundtrip) simp_all

lemma append_fits:
  assumes "len \<le> writableBytes b" and "len \<le> length dat"
    and "writerIndex b \<le> length (buffer b)"
  shows "append_data dat len b = Inr (b\<lparr>buffer := overwrite (buffer b) (writerIndex b) (take len dat),
    writerIndex := writerIndex b + len\<rparr>)"
  using assms by (simp add: append_data_def ensureWritableBytes_def hasWritten_def buf_sizes)

lemma ensureWritable_empty:
  assumes "len + kCheapPrepend \<le> max_size"
  shows "\<exists>b'. ensureWritableBytes len emptyBuffer = Inr b' \<and> buf_inv b' \<and> content b' = [] \<and>
    writerIndex b' = kCheapPrepend \<and> length (buffer b') = kCheapPrepend + max kInitialSize len"
proof (cases "kInitialSize < len")
  case True
  then have "writableBytes emptyBuffer < len" "\<not> len \<le> kInitialSize"
    "writableBytes emptyBuffer + prependableBytes emptyBuffer < len + kCheapPrepend"
    by (simp_all add: emptyBuffer_def buf_sizes)
  from makeSpace_grow [OF _ this(1) _ this(3)] assms this(1,2) show ?thesis
    by (auto simp: ensureWritableBytes_def kCheapPrepend_def max_def)
next
  case False
  then show ?thesis
    using emptyBuffer_inv
    by (auto simp: ensureWritableBytes_def emptyBuffer_def buf_sizes max_def kCheapPrepend_def)
qed

lemma readFd_ok:
  assumes "buf_inv b" and "length (buffer b) + sizeof_extrabuf \<le> max_size"
    and "\<And>n d. readv n = Inr d \<Longrightarrow> length d \<le> n"
  shows "case readv (readFd_iovlen b) of
      Inl err \<Rightarrow> readFd readv b = Inr (-1, Some err, b)
    | Inr d \<Rightarrow> \<exists>b'. readFd readv b = Inr (int (length d), None, b') \<and> buf_inv b' \<and>
        content b' = content b @ d"
proof (cases "readv (readFd_iovlen b)")
  case (Inr d)
  let ?w = "writableBytes b"
  let ?b = "b\<lparr>buffer := overwrite (buffer b) (writerIndex b) (take ?w d),
    writerIndex := writerIndex b + length (take ?w d)\<rparr>"
  have b: "buf_inv ?b" "content ?b = content b @ take ?w d"
    using write_at_end [OF assms(1), of "take ?w d"] by simp_all
  show ?thesis
  proof (cases "length d \<le> ?w")
    case True
    with Inr b show ?thesis by (simp add: readFd_def Let_def)
  next
    case False
    have fit: "writerIndex b + ?w = length (buffer b)"
      using assms(1) by (simp add: buf_inv_def writableBytes_def)
    have "length d \<le> ?w + sizeof_extrabuf"
      using assms(3) [OF Inr] by (simp add: readFd_iovlen_def Let_def split: if_splits)
    with False fit assms(2) have "writerIndex ?b + (length d - ?w) \<le> max_size" by simp
    from append_data_ok [OF b(1) _ this, of "drop ?w d"] b(2) False fit Inr show ?thesis
      by (auto simp: readFd_def Let_def)
  qed
qed (simp add: readFd_def)

text \<open>
  \<^bold>\<open>C25\<close>. \<open>readFd\<close> appends exactly the bytes \<open>readv\<close> delivers, whether they fit into the
  writable area or spill into the 64 KiB stack buffer, and returns their number; when
  \<open>readv\<close> fails, the errno is saved and the buffer is unchanged. The hypothesis on
  \<open>readv\<close> is its documented behaviour: it never delivers more than the io vectors hold.
\<close>

theorem readFd_appends:
  assumes "buf_inv b" and "length (buffer b) + sizeof_extrabuf \<le> max_size"
    and "\<And>n d. readv n = Inr d \<Longrightarrow> length d \<le> n"
  shows "case readv (readFd_iovlen b) of
      Inl err \<Rightarrow> readFd readv b = Inr (-1, Some err, b)
    | Inr d \<Rightarrow> \<exists>b'. readFd readv b = Inr (int (length d), None, b') \<and> buf_inv b' \<and>
        content b' = content b @ d"
  using readFd_ok [OF assms] .

theorem readFd_appends_witness:
  "case (Inr o (\<lambda>n. take n ''GET'')) (readFd_iovlen emptyBuffer) of
      Inl err \<Rightarrow> readFd (Inr o (\<lambda>n. take n ''GET'')) emptyBuffer = Inr (-1, Some err, emptyBuffer)
    | Inr d \<Rightarrow> \<exists>b'. readFd (Inr o (\<lambda>n. take n ''GET'')) emptyBuffer = Inr (int (length d), None, b') \<and>
        buf_inv b' \<and> content b' = content emptyBuffer @ d"
  by (rule readFd_appends)
    (auto simp: emptyBuffer_def kCheapPrepend_def kInitialSize_def sizeof_extrabuf_def max_size_def
      buf_inv_def)

text \<open>
  \<^bold>\<open>C26\<close>. \<open>findCRLF\<close> returns the position of the first CR LF pair among the readable
  bytes, and null exactly when there is none.
\<close>

theorem findCRLF_first:
  assumes "buf_inv b"
  shows "case findCRLF b of
      None \<Rightarrow> \<forall>i. range_of (content b) i (i + 2) \<noteq> kCRLF
    | Some p \<Rightarrow> \<exists>i. p = peek b + i \<and> i + 2 \<le> readableBytes b \<and>
        range_of (content b) i (i + 2) = kCRLF \<and>
        (\<forall>j<i. range_of (content b) j (j + 2) \<noteq> kCRLF)"
proof -
  let ?i = "std_search kCRLF (content b)"
  have len: "length kCRLF = 2" by (simp add: kCRLF_def)
  have e: "peek b + readableBytes b = beginWrite b"
    using assms by (simp add: buf_inv_def buf_sizes)
  have f: "findCRLF b = (if ?i = readableBytes b then None else Some (peek b + ?i))"
    using e [symmetric] by (simp add: findCRLF_def content_def peek_def beginWrite_def Let_def)
  show ?thesis
  proof (cases "?i = readableBytes b")
    case True
    have "range_of (content b) i (i + 2) \<noteq> kCRLF" for i
      using std_search_first [of i kCRLF "content b"] True len assms
      by (cases "i < readableBytes b") (auto simp: range_of_def kCRLF_def)
    with f True show ?thesis by simp
  next
    case False
    with std_search_le [of kCRLF "content b"] assms have lt: "?i < length (content b)" by simp
    have "?i + 2 \<le> readableBytes b" "range_of (content b) ?i (?i + 2) = kCRLF"
      using std_search_bound [OF lt] std_search_found [OF lt] len assms by simp_all
    moreover have "\<forall>j<?i. range_of (content b) j (j + 2) \<noteq> kCRLF"
      using std_search_first [of _ kCRLF "content b"] len by simp
    ultimately show ?thesis using f False by (simp del: add_2_eq_Suc')
  qed
qed

theorem findCRLF_first_witness:
  "case findCRLF emptyBuffer of
      None \<Rightarrow> \<forall>i. range_of (content emptyBuffer) i (i + 2) \<noteq> kCRLF
    | Some p \<Rightarrow> \<exists>i. p = peek emptyBuffer + i \<and> i + 2 \<le> readableBytes emptyBuffer \<and>
        range_of (content emptyBuffer) i (i + 2) = kCRLF \<and>
        (\<forall>j<i. range_of (content emptyBuffer) j (j + 2) \<noteq> kCRLF)"
  by (rule findCRLF_first) simp

text \<open>
  \<open>shrink\<close> keeps the readable bytes and leaves a vector of exactly the prepend
  area plus the larger of the initial size and the readable bytes with the reserve,
  as long as the readable bytes fit the \<open>int\<close> length of a \<open>StringPiece\<close>.
\<close>

theorem shrink_keeps:
  assumes "buf_inv b" and "readableBytes b < 2147483648"
    and "readableBytes b + reserve + kCheapPrepend \<le> max_size"
  shows "\<exists>b'. shrink reserve b = Inr b' \<and> buf_inv b' \<and> content b' = content b \<and>
    length (buffer b') = kCheapPrepend + max kInitialSize (readableBytes b + reserve)"
proof -
  let ?n = "readableBytes b"
  obtain b1 where b1: "ensureWritableBytes (?n + reserve) emptyBuffer = Inr b1" "buf_inv b1"
    "content b1 = []" "writerIndex b1 = kCheapPrepend"
    "length (buffer b1) = kCheapPrepend + max kInitialSize (?n + reserve)"
    using ensureWritable_empty [OF assms(3)] by auto
  have piece: "toStringPiece b = (drop (peek b) (buffer b), int ?n)"
    using assms(2) by (simp add: toStringPiece_def)
  have "?n \<le> length (drop (peek b) (buffer b))" "take ?n (drop (peek b) (buffer b)) = content b"
    using assms(1) by (auto simp: content_def range_of_def buf_inv_def buf_sizes)
  moreover have w: "?n \<le> writableBytes b1" using b1(4,5) by (simp add: writableBytes_def)
  ultimately have ap: "append_data (drop (peek b) (buffer b)) ?n b1 =
      Inr (b1\<lparr>buffer := overwrite (buffer b1) (writerIndex b1) (content b),
             writerIndex := writerIndex b1 + ?n\<rparr>)" (is "_ = Inr ?b2")
    using append_fits [of ?n b1 "drop (peek b) (buffer b)"] b1(2) by (simp add: buf_inv_def)
  have b2: "buf_inv ?b2" "content ?b2 = content b" "length (buffer ?b2) = length (buffer b1)"
    using write_at_end [OF b1(2), of "content b"] b1 w assms(1) by (simp_all add: buf_inv_def)
  have "szt (?n + reserve) = ?n + reserve"
    using assms(3) max_size_lt_two64 by simp
  then have "shrink reserve b = Inr ?b2"
    using b1(1) ap piece assms(2)
    by (simp add: shrink_def emptyBuffer_new append_piece_def swap_def two64_def)
  with b2 b1(5) show ?thesis by simp
qed

theorem shrink_keeps_witness:
  "\<exists>b'. shrink 2000 emptyBuffer = Inr b' \<and> buf_inv b' \<and> content b' = content emptyBuffer \<and>
    length (buffer b') = kCheapPrepend + max kInitialSize (readableBytes emptyBuffer + 2000)"
  by (rule shrink_keeps)
    (simp_all add: emptyBuffer_def kCheapPrepend_def max_size_def readableBytes_def buf_inv_def
      kInitialSize_def)

end
