(* ===== verification/Net_TcpConnection.thy ===== *)
theory Net_TcpConnection
  imports Net_EventLoop Net_Buffer
begin

text \<open>
  \<open>muduo/net/TcpConnection.h\<close> and \<open>TcpConnection.cc\<close>: one connection together with its
  loop. The record extends the event loop's by the members of the connection; the socket
  is the sequence of bytes the kernel has taken (\<open>wire\<close>) and whether the write side is
  shut down. \<open>accepted\<close> records the data \<open>sendInLoop\<close> did not drop.

  What the code calls but does not contain is an environment \<open>Env\<close>: \<open>epoll_ctl\<close>, the
  results of the successive \<open>write\<close> calls, and the user's callbacks, each of which is the
  list of operations of the connection's interface that it calls. The close callback is
  set by the owner of the connection (\<open>TcpServer\<close> or \<open>TcpClient\<close>), which answers it by
  queueing \<open>connectDestroyed\<close> in the connection's loop; \<open>destroyRequests\<close> counts the
  calls. \<open>delayedCloses\<close> counts the timers of \<open>forceCloseWithDelay\<close>.
\<close>

section \<open>State\<close>

datatype StateE = kDisconnected | kConnecting | kConnected | kDisconnecting

datatype conn_functor =
    SendInLoop "char list"
  | ShutdownInLoop
  | ForceCloseInLoop
  | StartReadInLoop
  | StopReadInLoop
  | ConnectEstablished
  | ConnectDestroyed
  | WriteComplete
  | HighWaterMark nat

datatype ucall =
    ConnectionCallback bool   \<comment> \<open>with the value of \<open>connected()\<close>\<close>
  | MessageCallback
  | WriteCompleteCallback
  | HighWaterMarkCallback nat
  | CloseCallback

record World = "conn_functor EventLoop" +
  channel :: ptr
  state :: StateE
  reading :: bool
  inputBuffer :: Buffer
  outputBuffer :: Buffer
  highWaterMark :: nat
  writeCompleteCallback :: bool
  highWaterMarkCallback :: bool
  writeCalls :: nat
  wire :: "char list"
  writeShut :: bool
  delayedCloses :: nat
  destroyRequests :: nat
  calls :: "ucall list"
  accepted :: "char list"

datatype api =
    ApiSend "char list"
  | ApiShutdown
  | ApiForceClose
  | ApiForceCloseWithDelay
  | ApiStartRead
  | ApiStopRead
  | ApiRetrieve nat    \<comment> \<open>\<open>inputBuffer()->retrieve(n)\<close>\<close>

record Env =
  e_ctl :: epoll_ctl
  e_write :: "nat \<Rightarrow> char list \<Rightarrow> int + nat"
  e_user :: "ucall \<Rightarrow> World \<Rightarrow> api list"

abbreviation (input) upd :: "Env \<Rightarrow> ptr \<Rightarrow> World \<Rightarrow> World res" where
  "upd E \<equiv> EPollPoller_updateChannel (e_ctl E)"

abbreviation (input) rem :: "Env \<Rightarrow> ptr \<Rightarrow> World \<Rightarrow> World res" where
  "rem E \<equiv> EPollPoller_removeChannel (e_ctl E)"

definition EWOULDBLOCK :: int where "EWOULDBLOCK = 11"
definition EPIPE :: int where "EPIPE = 32"
definition ECONNRESET :: int where "ECONNRESET = 104"

definition kDefaultHighWaterMark :: nat where
  "kDefaultHighWaterMark = 64 * 1024 * 1024"

text \<open>The constructor, in a loop \<open>l\<close>, with the address \<open>p\<close> for the new channel.\<close>

definition TcpConnection_new :: "conn_functor EventLoop \<Rightarrow> ptr \<Rightarrow> int \<Rightarrow> World" where
  "TcpConnection_new l p sockfd =
     EventLoop.extend (l\<lparr>heap := (heap l)(p \<mapsto> Channel_new (self l) sockfd)\<rparr>)
       (World.fields p kConnecting True emptyBuffer emptyBuffer kDefaultHighWaterMark
          False False 0 [] False 0 0 [] [])"

definition stateToString :: "StateE \<Rightarrow> string" where
  "stateToString st = (case st of
      kDisconnected \<Rightarrow> ''kDisconnected''
    | kConnecting \<Rightarrow> ''kConnecting''
    | kConnected \<Rightarrow> ''kConnected''
    | kDisconnecting \<Rightarrow> ''kDisconnecting'')"

definition connected :: "World \<Rightarrow> bool" where
  "connected s \<longleftrightarrow> state s = kConnected"

definition disconnected :: "World \<Rightarrow> bool" where
  "disconnected s \<longleftrightarrow> state s = kDisconnected"

definition setState :: "StateE \<Rightarrow> World \<Rightarrow> World" where
  "setState st s = s\<lparr>state := st\<rparr>"

definition isWritingNow :: "World \<Rightarrow> bool res" where
  "isWritingNow s = bindR (deref (channel s) s) (\<lambda>c. Inr (isWriting c))"

section \<open>Sending\<close>

text \<open>\<open>sockets::write\<close>: the bytes the kernel takes are added to \<open>wire\<close>.\<close>

definition sys_write :: "Env \<Rightarrow> char list \<Rightarrow> World \<Rightarrow> (int + nat) \<times> World" where
  "sys_write E d s =
     (let r = e_write E (writeCalls s) d;
          s = s\<lparr>writeCalls := writeCalls s + 1\<rparr>
      in case r of Inl e \<Rightarrow> (r, s) | Inr n \<Rightarrow> (r, s\<lparr>wire := wire s @ take n d\<rparr>))"

text \<open>Unsigned subtraction of \<open>size_t\<close> values.\<close>

definition sub_size :: "nat \<Rightarrow> nat \<Rightarrow> nat" where
  "sub_size a b = (if b \<le> a then a - b else two64 + a - b)"

text \<open>
  \<open>sendInLoop\<close> in two parts: writing directly when nothing is queued, with the number of
  bytes written and \<open>faultError\<close> as results; and queueing what remains.
\<close>

definition sendInLoop_write :: "Env \<Rightarrow> char list \<Rightarrow> nat \<Rightarrow> World \<Rightarrow> (nat \<times> bool \<times> World) res" where
  "sendInLoop_write E dat len s =
     bindR (isWritingNow s) (\<lambda>w.
     if \<not> w \<and> readableBytes (outputBuffer s) = 0 then
       (case sys_write E (take len dat) s of
          (Inr n, s) \<Rightarrow>
            Inr (n, False, if sub_size len n = 0 \<and> writeCompleteCallback s
                           then queueInLoop WriteComplete s else s)
        | (Inl err, s) \<Rightarrow>
            Inr (0, err \<noteq> EWOULDBLOCK \<and> (err = EPIPE \<or> err = ECONNRESET), s))
     else Inr (0, False, s))"

definition sendInLoop_rest :: "Env \<Rightarrow> char list \<Rightarrow> nat \<Rightarrow> nat \<Rightarrow> World \<Rightarrow> World res" where
  "sendInLoop_rest E dat nwrote remaining s =
     (let oldLen = readableBytes (outputBuffer s);
          s = (if oldLen + remaining \<ge> highWaterMark s \<and> oldLen < highWaterMark s \<and>
                  highWaterMarkCallback s
               then queueInLoop (HighWaterMark (oldLen + remaining)) s else s)
      in bindR (append_data (drop nwrote dat) remaining (outputBuffer s)) (\<lambda>b.
         let s = s\<lparr>outputBuffer := b\<rparr> in
         bindR (isWritingNow s) (\<lambda>w.
         if \<not> w then enableWriting (upd E) (channel s) s else Inr s)))"

definition sendInLoop :: "Env \<Rightarrow> char list \<Rightarrow> nat \<Rightarrow> World \<Rightarrow> World res" where
  "sendInLoop E dat len s =
     bindR (assertInLoopThread s) (\<lambda>_.
     if state s = kDisconnected then Inr s
     else if length dat < len then Inl UndefinedBehaviour
     else
       bindR (sendInLoop_write E dat len s) (\<lambda>(nwrote, faultError, s).
       let remaining = sub_size len nwrote in
       bindR (assertR (remaining \<le> len) ()) (\<lambda>_.
       if faultError then Inr s
       else
         let s = s\<lparr>accepted := accepted s @ take len dat\<rparr> in
         if remaining > 0 then sendInLoop_rest E dat nwrote remaining s else Inr s)))"

definition send :: "Env \<Rightarrow> char list \<Rightarrow> World \<Rightarrow> World res" where
  "send E message s =
     (if state s = kConnected then
        if isInLoopThread s then sendInLoop E message (length message) s
        else runInLoop (\<lambda>_ s. sendInLoop E message (length message) s) (SendInLoop message) s
      else Inr s)"

text \<open>\<open>send(Buffer*)\<close> also empties the buffer it is given.\<close>

definition send_buffer :: "Env \<Rightarrow> Buffer \<Rightarrow> World \<Rightarrow> (Buffer \<times> World) res" where
  "send_buffer E buf s =
     (if state s = kConnected then
        if isInLoopThread s then
          bindR (sendInLoop E (drop (peek buf) (buffer buf)) (readableBytes buf) s) (\<lambda>s.
          Inr (retrieveAll buf, s))
        else
          bindR (retrieveAllAsString buf) (\<lambda>(message, buf).
          bindR (runInLoop (\<lambda>_ s. sendInLoop E message (length message) s) (SendInLoop message) s) (\<lambda>s.
          Inr (buf, s)))
      else Inr (buf, s))"

section \<open>Shutting down, closing, flow control\<close>

definition shutdownInLoop :: "World \<Rightarrow> World res" where
  "shutdownInLoop s =
     bindR (assertInLoopThread s) (\<lambda>_.
     bindR (isWritingNow s) (\<lambda>w.
     if \<not> w then Inr (s\<lparr>writeShut := True\<rparr>) else Inr s))"

definition shutdown :: "World \<Rightarrow> World res" where
  "shutdown s =
     (if state s = kConnected
      then runInLoop (\<lambda>_. shutdownInLoop) ShutdownInLoop (setState kDisconnecting s)
      else Inr s)"

definition forceClose :: "World \<Rightarrow> World" where
  "forceClose s =
     (if state s = kConnected \<or> state s = kDisconnecting
      then queueInLoop ForceCloseInLoop (setState kDisconnecting s)
      else s)"

definition forceCloseWithDelay :: "World \<Rightarrow> World" where
  "forceCloseWithDelay s =
     (if state s = kConnected \<or> state s = kDisconnecting
      then (setState kDisconnecting s)\<lparr>delayedCloses := delayedCloses s + 1\<rparr>
      else s)"

definition isReadingNow :: "World \<Rightarrow> bool res" where
  "isReadingNow s = bindR (deref (channel s) s) (\<lambda>c. Inr (isReading c))"

definition startReadInLoop :: "Env \<Rightarrow> World \<Rightarrow> World res" where
  "startReadInLoop E s =
     bindR (assertInLoopThread s) (\<lambda>_.
     bindR (isReadingNow s) (\<lambda>r.
     if \<not> reading s \<or> \<not> r then
       bindR (enableReading (upd E) (channel s) s) (\<lambda>s. Inr (s\<lparr>reading := True\<rparr>))
     else Inr s))"

definition startRead :: "Env \<Rightarrow> World \<Rightarrow> World res" where
  "startRead E s = runInLoop (\<lambda>_. startReadInLoop E) StartReadInLoop s"

definition stopReadInLoop :: "Env \<Rightarrow> World \<Rightarrow> World res" where
  "stopReadInLoop E s =
     bindR (assertInLoopThread s) (\<lambda>_.
     bindR (isReadingNow s) (\<lambda>r.
     if reading s \<or> r then
       bindR (disableReading (upd E) (channel s) s) (\<lambda>s. Inr (s\<lparr>reading := False\<rparr>))
     else Inr s))"

definition stopRead :: "Env \<Rightarrow> World \<Rightarrow> World res" where
  "stopRead E s = runInLoop (\<lambda>_. stopReadInLoop E) StopReadInLoop s"

section \<open>User callbacks\<close>

fun run_api :: "Env \<Rightarrow> api \<Rightarrow> World \<Rightarrow> World res" where
  "run_api E (ApiSend d) s = send E d s"
| "run_api E ApiShutdown s = shutdown s"
| "run_api E ApiForceClose s = Inr (forceClose s)"
| "run_api E ApiForceCloseWithDelay s = Inr (forceCloseWithDelay s)"
| "run_api E ApiStartRead s = startRead E s"
| "run_api E ApiStopRead s = stopRead E s"
| "run_api E (ApiRetrieve n) s =
     bindR (retrieve n (inputBuffer s)) (\<lambda>b. Inr (s\<lparr>inputBuffer := b\<rparr>))"

definition callUser :: "Env \<Rightarrow> ucall \<Rightarrow> World \<Rightarrow> World res" where
  "callUser E u s = foldR (run_api E) (e_user E u s) (s\<lparr>calls := calls s @ [u]\<rparr>)"

definition connectionCallback :: "Env \<Rightarrow> World \<Rightarrow> World res" where
  "connectionCallback E s = callUser E (ConnectionCallback (connected s)) s"

definition closeCallback :: "World \<Rightarrow> World" where
  "closeCallback s = s\<lparr>calls := calls s @ [CloseCallback], destroyRequests := destroyRequests s + 1\<rparr>"

text \<open>The default message callback drops what was read.\<close>

definition defaultMessageCallback :: "Buffer \<Rightarrow> Buffer" where
  "defaultMessageCallback buf = retrieveAll buf"

section \<open>Handlers\<close>

definition connectEstablished :: "Env \<Rightarrow> World \<Rightarrow> World res" where
  "connectEstablished E s =
     bindR (assertInLoopThread s) (\<lambda>_.
     bindR (assertR (state s = kConnecting) ()) (\<lambda>_.
     let s = setState kConnected s in
     bindR (Channel_tie (channel s) (channel s) s) (\<lambda>s.
     bindR (enableReading (upd E) (channel s) s)
       (connectionCallback E))))"

definition connectDestroyed :: "Env \<Rightarrow> World \<Rightarrow> World res" where
  "connectDestroyed E s =
     bindR (assertInLoopThread s) (\<lambda>_.
     bindR (if state s = kConnected
            then bindR (disableAll (upd E) (channel s) (setState kDisconnected s)) (connectionCallback E)
            else Inr s) (\<lambda>s.
     Channel_remove (rem E) (channel s) s))"

definition handleClose :: "Env \<Rightarrow> World \<Rightarrow> World res" where
  "handleClose E s =
     bindR (assertInLoopThread s) (\<lambda>_.
     bindR (assertR (state s = kConnected \<or> state s = kDisconnecting) ()) (\<lambda>_.
     bindR (disableAll (upd E) (channel s) (setState kDisconnected s)) (\<lambda>s.
     bindR (connectionCallback E s) (\<lambda>s.
     Inr (closeCallback s)))))"

definition handleError :: "World \<Rightarrow> World res" where
  "handleError s = Inr s"

definition handleRead :: "Env \<Rightarrow> (nat \<Rightarrow> int + char list) \<Rightarrow> World \<Rightarrow> World res" where
  "handleRead E readv s =
     bindR (assertInLoopThread s) (\<lambda>_.
     bindR (readFd readv (inputBuffer s)) (\<lambda>(n, savedErrno, b).
     let s = s\<lparr>inputBuffer := b\<rparr> in
     if n > 0 then callUser E MessageCallback s
     else if n = 0 then handleClose E s
     else handleError s))"

text \<open>The output buffer has become empty.\<close>

definition handleWrite_drained :: "Env \<Rightarrow> World \<Rightarrow> World res" where
  "handleWrite_drained E s =
     bindR (disableWriting (upd E) (channel s) s) (\<lambda>s.
     let s = (if writeCompleteCallback s then queueInLoop WriteComplete s else s) in
     if state s = kDisconnecting then shutdownInLoop s else Inr s)"

definition handleWrite :: "Env \<Rightarrow> World \<Rightarrow> World res" where
  "handleWrite E s =
     bindR (assertInLoopThread s) (\<lambda>_.
     bindR (isWritingNow s) (\<lambda>w.
     if w then
       case sys_write E (content (outputBuffer s)) s of
         (Inr n, s) \<Rightarrow>
           if n > 0 then
             bindR (retrieve n (outputBuffer s)) (\<lambda>b.
             let s = s\<lparr>outputBuffer := b\<rparr> in
             if readableBytes b = 0 then handleWrite_drained E s else Inr s)
           else Inr s
       | (Inl err, s) \<Rightarrow> Inr s
     else Inr s))"

definition forceCloseInLoop :: "Env \<Rightarrow> World \<Rightarrow> World res" where
  "forceCloseInLoop E s =
     bindR (assertInLoopThread s) (\<lambda>_.
     if state s = kConnected \<or> state s = kDisconnecting then handleClose E s else Inr s)"

definition TcpConnection_dtor :: "World \<Rightarrow> World res" where
  "TcpConnection_dtor s =
     bindR (assertR (state s = kDisconnected) ()) (\<lambda>_. Channel_dtor (channel s) s)"

text \<open>Running a queued functor, and an event of the connection's channel.\<close>

fun run_functor :: "Env \<Rightarrow> conn_functor \<Rightarrow> World \<Rightarrow> World res" where
  "run_functor E (SendInLoop d) s = sendInLoop E d (length d) s"
| "run_functor E ShutdownInLoop s = shutdownInLoop s"
| "run_functor E ForceCloseInLoop s = forceCloseInLoop E s"
| "run_functor E StartReadInLoop s = startReadInLoop E s"
| "run_functor E StopReadInLoop s = stopReadInLoop E s"
| "run_functor E ConnectEstablished s = connectEstablished E s"
| "run_functor E ConnectDestroyed s = connectDestroyed E s"
| "run_functor E WriteComplete s = callUser E WriteCompleteCallback s"
| "run_functor E (HighWaterMark n) s = callUser E (HighWaterMarkCallback n) s"

definition channel_event :: "Env \<Rightarrow> (nat \<Rightarrow> int + char list) \<Rightarrow> 32 word \<Rightarrow> World \<Rightarrow> World res" where
  "channel_event E readv r s =
     bindR (modChan (channel s) (\<lambda>c. c\<lparr>revents := r\<rparr>) s) (\<lambda>s.
     handleEvent (\<lambda>obj s. True) (Some (handleClose E)) (Some handleError) (Some (handleRead E readv))
       (Some (handleWrite E)) (channel s) s)"

section \<open>Invariant\<close>

text \<open>
  \<open>conn_core\<close> relates the connection to its channel and buffers: while connected the
  channel is registered and asks for write events exactly when output is pending; what
  the kernel took followed by the pending output is the data accepted so far. \<open>guar\<close> is
  what every operation guarantees between its start and its end.
\<close>

fun stage :: "StateE \<Rightarrow> nat" where
  "stage kConnecting = 0"
| "stage kConnected = 1"
| "stage kDisconnecting = 2"
| "stage kDisconnected = 3"

definition up :: "World \<Rightarrow> bool" where
  "up s \<longleftrightarrow> state s = kConnected \<or> state s = kDisconnecting"

definition chan_state :: "World \<Rightarrow> Channel \<Rightarrow> bool" where
  "chan_state s c \<longleftrightarrow>
     (state s = kConnecting \<longrightarrow> channels s (fd c) = None \<and> index c = kNew \<and> events c = 0 \<and>
        content (outputBuffer s) = [] \<and> reading s) \<and>
     (state s = kConnected \<or> state s = kDisconnecting \<longrightarrow> channels s (fd c) = Some (channel s) \<and>
        (isWriting c \<longleftrightarrow> content (outputBuffer s) \<noteq> []) \<and> (isReading c \<longleftrightarrow> reading s)) \<and>
     (state s = kDisconnected \<longrightarrow> events c = 0)"

definition conn_core :: "World \<Rightarrow> bool" where
  "conn_core s \<longleftrightarrow> epoll_inv s \<and> threadId s = tid s \<and> buf_inv (inputBuffer s) \<and> buf_inv (outputBuffer s) \<and>
     wire s @ content (outputBuffer s) = accepted s \<and>
     (\<exists>c. heap s (channel s) = Some c \<and> ownerLoop c = self s \<and> 0 \<le> fd c \<and>
        (addedToLoop c \<longrightarrow> channels s (fd c) = Some (channel s)) \<and> chan_state s c)"

text \<open>What a change of interest leaves alone in the channel object.\<close>

definition sig :: "Channel \<Rightarrow> int \<times> 32 word \<times> bool \<times> bool" where
  "sig c = (fd c, revents c, eventHandling c, tied c)"

lemma sig_simps [simp]:
  "sig (c\<lparr>events := ev\<rparr>) = sig c" "sig (c\<lparr>addedToLoop := a\<rparr>) = sig c" "sig (c\<lparr>index := i\<rparr>) = sig c"
  by (simp_all add: sig_def)

lemma sig_fd: "sig c' = sig c \<Longrightarrow> fd c' = fd c"
  by (simp add: sig_def)

definition fixed where
  "fixed s = (channel s, self s, threadId s, tid s, eventHandling_loop s, activeChannels s,
     currentActiveChannel s, destroyRequests s, channels s, map_option sig (heap s (channel s)))"

text \<open>What the connection itself queues, as opposed to its owner and other threads.\<close>

fun quiet :: "conn_functor \<Rightarrow> bool" where
  "quiet (SendInLoop d) = False"
| "quiet ConnectEstablished = False"
| "quiet ConnectDestroyed = False"
| "quiet _ = True"

definition grows :: "World \<Rightarrow> World \<Rightarrow> bool" where
  "grows s s' \<longleftrightarrow> (\<exists>q. pendingFunctors s' = pendingFunctors s @ q \<and> list_all quiet q)"

lemma growsI:
  "pendingFunctors s' = pendingFunctors s @ q \<Longrightarrow> list_all quiet q \<Longrightarrow> grows s s'"
  "pendingFunctors s' = pendingFunctors s \<Longrightarrow> grows s s'"
  by (auto simp: grows_def intro: exI [of _ "[]"])

lemma grows_trans: "grows s1 s2 \<Longrightarrow> grows s2 s3 \<Longrightarrow> grows s1 s3"
  unfolding grows_def by force

definition guar :: "World \<Rightarrow> World \<Rightarrow> bool" where
  "guar s s' \<longleftrightarrow> fixed s' = fixed s \<and>
     stage (state s) \<le> stage (state s') \<and> (stage (state s') = 3 \<longrightarrow> stage (state s) = 3) \<and>
     (\<exists>w. wire s' = wire s @ w) \<and> (\<exists>a. accepted s' = accepted s @ a) \<and> grows s s' \<and>
     (state s = kDisconnected \<longrightarrow> heap s' = heap s \<and> epoll s' = epoll s)"

lemma guar_refl [simp]: "guar s s"
  by (simp add: guar_def growsI)

lemma stage_3 [simp]: "stage st = 3 \<longleftrightarrow> st = kDisconnected"
  by (cases st) simp_all

lemma guar_trans:
  assumes "guar s1 s2" and "guar s2 s3"
  shows "guar s1 s3"
  unfolding guar_def
proof (intro conjI impI)
  show "fixed s3 = fixed s1" and "stage (state s1) \<le> stage (state s3)"
    using assms by (simp_all add: guar_def)
  show "\<exists>w. wire s3 = wire s1 @ w" and "\<exists>a. accepted s3 = accepted s1 @ a"
    using assms by (auto simp: guar_def)
  show "grows s1 s3" using assms grows_trans by (auto simp: guar_def)
  show "stage (state s1) = 3" if "stage (state s3) = 3"
    using assms that by (simp add: guar_def)
  show "heap s3 = heap s1" and "epoll s3 = epoll s1" if "state s1 = kDisconnected"
  proof -
    have "state s2 = kDisconnected"
      using assms(1) that by (cases "state s2") (simp_all add: guar_def)
    with assms that show "heap s3 = heap s1" "epoll s3 = epoll s1" by (simp_all add: guar_def)
  qed
qed

definition write_spec :: "Env \<Rightarrow> bool" where
  "write_spec E \<longleftrightarrow> (\<forall>i d n. e_write E i d = Inr n \<longrightarrow> n \<le> length d)"

lemma queueInLoop_eq:
  "\<exists>w. queueInLoop f s = s\<lparr>wakeupCount := w, pendingFunctors := pendingFunctors s @ [f]\<rparr>"
proof (cases "\<not> isInLoopThread s \<or> callingPendingFunctors s")
  case True
  then have "queueInLoop f s =
      s\<lparr>wakeupCount := wakeupCount s + 1, pendingFunctors := pendingFunctors s @ [f]\<rparr>"
    by (auto simp: queueInLoop_def wakeup_def isInLoopThread_def)
  then show ?thesis by blast
next
  case False
  then have "queueInLoop f s = s\<lparr>wakeupCount := wakeupCount s, pendingFunctors := pendingFunctors s @ [f]\<rparr>"
    by (auto simp: queueInLoop_def isInLoopThread_def)
  then show ?thesis by blast
qed

lemma mask_nonzero [simp]: "kWriteEvent \<noteq> 0" "kReadEvent \<noteq> 0"
  by (simp_all add: poll_flags)

lemma queue_if:
  assumes "quiet f"
  shows "\<exists>w q. (if P then queueInLoop f s else s) =
    s\<lparr>wakeupCount := w, pendingFunctors := pendingFunctors s @ q\<rparr> \<and> list_all quiet q"
proof (cases P)
  case True
  obtain w where "queueInLoop f s = s\<lparr>wakeupCount := w, pendingFunctors := pendingFunctors s @ [f]\<rparr>"
    using queueInLoop_eq [of f s] by blast
  with True assms show ?thesis by (intro exI [of _ w] exI [of _ "[f]"]) simp
next
  case False
  then show ?thesis by (intro exI [of _ "wakeupCount s"] exI [of _ "[]"]) simp
qed

lemma conn_core_queue [simp]:
  "conn_core (s\<lparr>wakeupCount := w, pendingFunctors := q\<rparr>) = conn_core s"
  by (simp add: conn_core_def chan_state_def epoll_inv_def)

lemma conn_core_frame [simp]:
  "conn_core (s\<lparr>writeShut := x\<rparr>) = conn_core s"
  "conn_core (s\<lparr>delayedCloses := n\<rparr>) = conn_core s"
  "conn_core (s\<lparr>calls := cs\<rparr>) = conn_core s"
  "conn_core (s\<lparr>calls := cs, destroyRequests := n\<rparr>) = conn_core s"
  "conn_core (s\<lparr>destroyRequests := n\<rparr>) = conn_core s"
  by (simp_all add: conn_core_def chan_state_def epoll_inv_def)

lemma guar_frame [simp]:
  "guar s (s\<lparr>writeShut := x\<rparr>)" "guar s (s\<lparr>delayedCloses := n\<rparr>)" "guar s (s\<lparr>calls := cs\<rparr>)"
  by (simp_all add: guar_def fixed_def growsI)

lemma guar_queue [simp]:
  "list_all quiet q \<Longrightarrow> guar s (s\<lparr>wakeupCount := w, pendingFunctors := pendingFunctors s @ q\<rparr>)"
  by (simp add: guar_def fixed_def growsI)

lemma queueInLoop_core:
  "conn_core s \<Longrightarrow> conn_core (queueInLoop f s)" "quiet f \<Longrightarrow> guar s (queueInLoop f s)"
  "calls (queueInLoop f s) = calls s" "state (queueInLoop f s) = state s"
  using queueInLoop_eq [of f s] guar_queue [of "[f]" s] by auto

text \<open>A change of interest while the channel is registered.\<close>

lemma set_events_world:
  assumes "epoll_kernel ctl" and "epoll_inv s" and "threadId s = tid s" and "heap s p = Some c"
    and "channels s (fd c) = Some p" and "valid_events ev" and "ev \<noteq> 0 \<or> events c \<noteq> 0"
  shows "\<exists>h k c'. set_events (EPollPoller_updateChannel ctl) ev p s = Inr (s\<lparr>heap := h, epoll := k\<rparr>) \<and>
    epoll_inv (s\<lparr>heap := h, epoll := k\<rparr>) \<and> h p = Some c' \<and> events c' = ev \<and> sig c' = sig c \<and>
    ownerLoop c' = ownerLoop c \<and> (ev = 0 \<longrightarrow> k (fd c) = None)"
proof -
  let ?c = "c\<lparr>events := ev, addedToLoop := True, index := if ev = 0 then kDeleted else kAdded\<rparr>"
  let ?k = "(epoll s)(fd c := if ev = 0 then None else Some (ev, p))"
  have "ev \<noteq> 0 \<or> epoll s (fd c) \<noteq> None"
    using epoll_invD [OF assms(2,5)] assms(4,7) by auto
  moreover have ch: "(channels s)(fd c \<mapsto> p) = channels s" using assms(5) by (auto simp: fun_eq_iff)
  ultimately have u: "set_events (EPollPoller_updateChannel ctl) ev p s =
      Inr (s\<lparr>heap := (heap s)(p \<mapsto> ?c), epoll := ?k\<rparr>)"
    using epoll_kernel.epoll_update_mod [OF assms(1-5)] by simp
  have "epoll_inv (s\<lparr>heap := (heap s)(p \<mapsto> ?c), channels := (channels s)(fd c \<mapsto> p), epoll := ?k\<rparr>)"
    using assms(5,6) epoll_invD [OF assms(2,5)] assms(4) by (intro epoll_inv_upd [OF assms(2,4)]) auto
  with u ch show ?thesis
    by (intro exI [of _ "(heap s)(p \<mapsto> ?c)"] exI [of _ ?k] exI [of _ ?c]) simp
qed

lemma conn_coreD:
  assumes "conn_core s"
  obtains c where "heap s (channel s) = Some c" and "ownerLoop c = self s" and "0 \<le> fd c" and "chan_state s c"
  using assms by (auto simp: conn_core_def)

text \<open>The same for a connection that is up, with the effect on the invariant.\<close>

lemma interest_world:
  assumes "epoll_kernel (e_ctl E)" and "epoll_inv s" and "threadId s = tid s" and "buf_inv (inputBuffer s)"
    and "buf_inv (outputBuffer s)" and "wire s @ content (outputBuffer s) = accepted s"
    and "heap s (channel s) = Some c" and "ownerLoop c = self s" and "0 \<le> fd c"
    and "channels s (fd c) = Some (channel s)" and "state s = kConnected \<or> state s = kDisconnecting"
    and "valid_events ev" and "ev \<noteq> 0 \<or> events c \<noteq> 0"
    and "ev AND kWriteEvent \<noteq> 0 \<longleftrightarrow> content (outputBuffer s) \<noteq> []" and "ev AND kReadEvent \<noteq> 0 \<longleftrightarrow> r"
  shows "\<exists>h k. set_events (upd E) ev (channel s) s = Inr (s\<lparr>heap := h, epoll := k\<rparr>) \<and>
    conn_core (s\<lparr>heap := h, epoll := k, reading := r\<rparr>) \<and> map_option sig (h (channel s)) = Some (sig c)"
proof -
  obtain h k c' where s': "set_events (upd E) ev (channel s) s = Inr (s\<lparr>heap := h, epoll := k\<rparr>)"
    "epoll_inv (s\<lparr>heap := h, epoll := k\<rparr>)" "h (channel s) = Some c'" "events c' = ev"
    "sig c' = sig c" "ownerLoop c' = ownerLoop c"
    using set_events_world [OF assms(1,2,3,7,10,12,13)] by blast
  have "epoll_inv (s\<lparr>heap := h, epoll := k, reading := r\<rparr>)"
    using s'(2) by (simp add: epoll_inv_def)
  with s' sig_fd [OF s'(5)] assms(3-6,8-11,14,15) have "conn_core (s\<lparr>heap := h, epoll := k, reading := r\<rparr>)"
    by (auto simp: conn_core_def chan_state_def isWriting_def isReading_def)
  with s' show ?thesis by auto
qed

section \<open>Sending\<close>

lemma sendInLoop_write_ok:
  assumes "write_spec E" and "heap s (channel s) = Some c" and "len \<le> length dat"
  shows "\<exists>n f w q i. sendInLoop_write E dat len s = Inr (n, f, s\<lparr>wakeupCount := w,
      pendingFunctors := pendingFunctors s @ q, writeCalls := i, wire := wire s @ take n dat\<rparr>) \<and>
    list_all quiet q \<and> n \<le> len \<and> (f \<longrightarrow> n = 0) \<and>
    (isWriting c \<or> readableBytes (outputBuffer s) \<noteq> 0 \<longrightarrow> n = 0 \<and> \<not> f)"
proof (cases "isWriting c \<or> readableBytes (outputBuffer s) \<noteq> 0")
  case True
  then have "sendInLoop_write E dat len s = Inr (0, False, s)"
    using assms(2) by (auto simp: sendInLoop_write_def isWritingNow_def)
  then show ?thesis
    by (intro exI [of _ 0] exI [of _ False] exI [of _ "wakeupCount s"] exI [of _ "[]"]
        exI [of _ "writeCalls s"]) simp
next
  case False
  let ?i = "writeCalls s + 1"
  show ?thesis
  proof (cases "e_write E (writeCalls s) (take len dat)")
    case (Inl err)
    let ?f = "err \<noteq> EWOULDBLOCK \<and> (err = EPIPE \<or> err = ECONNRESET)"
    have "sendInLoop_write E dat len s = Inr (0, ?f, s\<lparr>writeCalls := ?i\<rparr>)"
      using False Inl assms(2) by (simp add: sendInLoop_write_def isWritingNow_def sys_write_def)
    with False show ?thesis
      by (intro exI [of _ 0] exI [of _ ?f] exI [of _ "wakeupCount s"] exI [of _ "[]"]
          exI [of _ ?i]) simp
  next
    case (Inr n)
    have n: "n \<le> len" using assms(1,3) Inr unfolding write_spec_def by force
    let ?s = "s\<lparr>writeCalls := ?i, wire := wire s @ take n dat\<rparr>"
    have "sendInLoop_write E dat len s =
        Inr (n, False, if sub_size len n = 0 \<and> writeCompleteCallback s then queueInLoop WriteComplete ?s else ?s)"
      using False Inr assms(2) n by (simp add: sendInLoop_write_def isWritingNow_def sys_write_def min_def)
    moreover obtain w q where "(if sub_size len n = 0 \<and> writeCompleteCallback s
        then queueInLoop WriteComplete ?s else ?s) =
          ?s\<lparr>wakeupCount := w, pendingFunctors := pendingFunctors ?s @ q\<rparr>" and q: "list_all quiet q"
      using queue_if [of WriteComplete "sub_size len n = 0 \<and> writeCompleteCallback s" ?s] by auto
    ultimately have "sendInLoop_write E dat len s = Inr (n, False, s\<lparr>wakeupCount := w,
        pendingFunctors := pendingFunctors s @ q, writeCalls := ?i, wire := wire s @ take n dat\<rparr>)" by simp
    with False n q show ?thesis
      by (intro exI [of _ n] exI [of _ False] exI [of _ w] exI [of _ q] exI [of _ ?i]) simp
  qed
qed

lemma sendInLoop_rest_ok:
  assumes "epoll_kernel (e_ctl E)" and "epoll_inv s" and "threadId s = tid s" and "buf_inv (inputBuffer s)"
    and "buf_inv (outputBuffer s)" and "heap s (channel s) = Some c" and "ownerLoop c = self s"
    and "0 \<le> fd c" and "channels s (fd c) = Some (channel s)"
    and "state s = kConnected \<or> state s = kDisconnecting" and "valid_events (events c)"
    and "isWriting c \<longleftrightarrow> content (outputBuffer s) \<noteq> []" and "isReading c \<longleftrightarrow> reading s"
    and "0 < r" and "n + r \<le> length dat" and "r \<le> room (outputBuffer s)"
    and "wire s @ content (outputBuffer s) @ take r (drop n dat) = accepted s"
  shows "\<exists>h k w q b. sendInLoop_rest E dat n r s = Inr (s\<lparr>wakeupCount := w,
      pendingFunctors := pendingFunctors s @ q, outputBuffer := b, heap := h, epoll := k\<rparr>) \<and>
    conn_core (s\<lparr>wakeupCount := w, pendingFunctors := pendingFunctors s @ q,
      outputBuffer := b, heap := h, epoll := k\<rparr>) \<and> list_all quiet q \<and>
    map_option sig (h (channel s)) = Some (sig c)"
proof -
  let ?o = "readableBytes (outputBuffer s)"
  let ?q = "highWaterMark s \<le> ?o + r \<and> ?o < highWaterMark s \<and> highWaterMarkCallback s"
  obtain w q where hw: "(if ?q then queueInLoop (HighWaterMark (?o + r)) s else s) =
      s\<lparr>wakeupCount := w, pendingFunctors := pendingFunctors s @ q\<rparr>" (is "_ = ?s")
    and q: "list_all quiet q"
    using queue_if [of "HighWaterMark (?o + r)" ?q s] by auto
  have "writerIndex (outputBuffer s) + r \<le> max_size"
    using assms(5,16) by (auto simp: room_def buf_inv_def kCheapPrepend_def max_size_def)
  moreover have "r \<le> length (drop n dat)" using assms(15) by simp
  ultimately obtain b where b: "append_data (drop n dat) r (outputBuffer s) = Inr b" "buf_inv b"
    "content b = content (outputBuffer s) @ take r (drop n dat)"
    using append_data_ok [OF assms(5), of r "drop n dat"] by blast
  have ne: "content b \<noteq> []" using b(3) assms(14,15) by auto
  let ?t = "?s\<lparr>outputBuffer := b\<rparr>"
  have i: "epoll_inv ?t" using assms(2) by (simp add: epoll_inv_def)
  show ?thesis
  proof (cases "isWriting c")
    case True
    have "sendInLoop_rest E dat n r s = Inr ?t"
      using True assms(6) b(1) by (simp add: sendInLoop_rest_def hw isWritingNow_def Let_def)
    moreover have "conn_core ?t"
      using i assms(3,4,6-10,13,17) b(2,3) ne True by (auto simp: conn_core_def chan_state_def)
    ultimately show ?thesis
      using assms(6) q by (intro exI [of _ "heap s"] exI [of _ "epoll s"] exI [of _ w] exI [of _ q] exI [of _ b]) simp
  next
    case False
    have "\<exists>h k. set_events (upd E) (events c OR kWriteEvent) (channel ?t) ?t =
        Inr (?t\<lparr>heap := h, epoll := k\<rparr>) \<and> conn_core (?t\<lparr>heap := h, epoll := k, reading := reading s\<rparr>) \<and>
        map_option sig (h (channel ?t)) = Some (sig c)" (is "\<exists>h k. ?P h k")
      by (rule interest_world [OF assms(1) i])
        (use assms(3,4,6-11,13,17) b(2,3) ne in \<open>auto simp: valid_events_effect isReading_def\<close>)
    then obtain h k where "?P h k" by blast
    moreover have "sendInLoop_rest E dat n r s = set_events (upd E) (events c OR kWriteEvent) (channel ?t) ?t"
      using False assms(6) b(1) interest_ops(3) [of ?t "channel s" c "upd E"]
      by (simp add: sendInLoop_rest_def hw isWritingNow_def Let_def)
    ultimately show ?thesis
      using q by (intro exI [of _ h] exI [of _ k] exI [of _ w] exI [of _ q] exI [of _ b]) simp
  qed
qed

definition env_ok :: "Env \<Rightarrow> bool" where
  "env_ok E \<longleftrightarrow> epoll_kernel (e_ctl E) \<and> write_spec E"

text \<open>What a sending operation does: it keeps the invariant and changes neither state nor callbacks.\<close>

lemma sendInLoop_ok:
  assumes "env_ok E" and "conn_core s" and "state s \<noteq> kConnecting" and "len \<le> length dat"
    and "len \<le> room (outputBuffer s)"
  shows "\<exists>s'. sendInLoop E dat len s = Inr s' \<and> conn_core s' \<and> guar s s' \<and> calls s' = calls s \<and>
    state s' = state s \<and> inputBuffer s' = inputBuffer s \<and>
    (accepted s' = accepted s \<or> accepted s' = accepted s @ take len dat)"
proof (cases "state s = kDisconnected")
  case True
  with assms(2) show ?thesis by (simp add: sendInLoop_def conn_core_def)
next
  case False
  with assms(3) have st: "state s = kConnected \<or> state s = kDisconnecting" by (cases "state s") simp_all
  from assms(1) have E: "epoll_kernel (e_ctl E)" "write_spec E" by (simp_all add: env_ok_def)
  from assms(2) obtain c where c: "heap s (channel s) = Some c" "ownerLoop c = self s" "0 \<le> fd c"
    "channels s (fd c) = Some (channel s)" "isWriting c \<longleftrightarrow> content (outputBuffer s) \<noteq> []"
    "isReading c \<longleftrightarrow> reading s"
    using st by (auto simp: conn_core_def chan_state_def)
  from assms(2) have i: "epoll_inv s" "threadId s = tid s" "buf_inv (inputBuffer s)"
    "buf_inv (outputBuffer s)" "wire s @ content (outputBuffer s) = accepted s"
    by (simp_all add: conn_core_def)
  have v: "valid_events (events c)" using epoll_invD [OF i(1) c(4)] c(1) by simp
  obtain n f w q j where d: "sendInLoop_write E dat len s = Inr (n, f, s\<lparr>wakeupCount := w,
      pendingFunctors := pendingFunctors s @ q, writeCalls := j, wire := wire s @ take n dat\<rparr>)"
    (is "_ = Inr (n, f, ?s)") and q: "list_all quiet q" and n: "n \<le> len" "f \<Longrightarrow> n = 0"
    and nd: "isWriting c \<or> readableBytes (outputBuffer s) \<noteq> 0 \<Longrightarrow> n = 0 \<and> \<not> f"
    using sendInLoop_write_ok [OF E(2) c(1) assms(4)] by blast
  have sub: "sub_size len n = len - n" using n(1) by (simp add: sub_size_def)
  have i1: "epoll_inv ?s" using i(1) by (simp add: epoll_inv_def)
  show ?thesis
  proof (cases f)
    case True
    then have "sendInLoop E dat len s = Inr ?s"
      using d n(2) assms(4) False i(2) by (simp add: sendInLoop_def sub_size_def)
    moreover have "conn_core ?s" "guar s ?s"
      using assms(2) i1 n(2) True q by (simp_all add: conn_core_def chan_state_def guar_def fixed_def growsI)
    ultimately show ?thesis by simp
  next
    case nf: False
    let ?t = "?s\<lparr>accepted := accepted s @ take len dat\<rparr>"
    have i2: "epoll_inv ?t" using i(1) by (simp add: epoll_inv_def)
    have g: "guar s ?t" using q by (simp add: guar_def fixed_def growsI)
    show ?thesis
    proof (cases "n = len")
      case True
      have out: "content (outputBuffer s) = [] \<or> take len dat = []"
        using nd c(5) True by auto
      have "sendInLoop E dat len s = Inr ?t"
        using d nf True assms(4) False i(2) by (simp add: sendInLoop_def sub_size_def)
      moreover have "conn_core ?t"
        using assms(2) i2 i(5) True out unfolding conn_core_def chan_state_def by auto
      ultimately show ?thesis using g by simp
    next
      case False
      then have r: "0 < len - n" "n + (len - n) \<le> length dat" using n(1) assms(4) by simp_all
      have tk: "take n dat @ take (len - n) (drop n dat) = take len dat"
        using n(1) by (metis le_add_diff_inverse take_add)
      have "content (outputBuffer s) = [] \<or> n = 0" using nd c(5) by auto
      then have acc: "wire ?t @ content (outputBuffer ?t) @ take (len - n) (drop n dat) = accepted ?t"
        using i(5) tk by auto
      have "\<exists>h k w q b. sendInLoop_rest E dat n (len - n) ?t = Inr (?t\<lparr>wakeupCount := w,
          pendingFunctors := pendingFunctors ?t @ q, outputBuffer := b, heap := h, epoll := k\<rparr>) \<and>
        conn_core (?t\<lparr>wakeupCount := w, pendingFunctors := pendingFunctors ?t @ q,
          outputBuffer := b, heap := h, epoll := k\<rparr>) \<and> list_all quiet q \<and>
        map_option sig (h (channel ?t)) = Some (sig c)"
        using assms(5) n(1) i c st v r acc
        by (intro sendInLoop_rest_ok [OF E(1) i2]) auto
      then obtain h k w' q' b where s': "sendInLoop_rest E dat n (len - n) ?t = Inr (?t\<lparr>wakeupCount := w',
          pendingFunctors := pendingFunctors s @ q @ q', outputBuffer := b, heap := h, epoll := k\<rparr>)"
        "conn_core (?t\<lparr>wakeupCount := w', pendingFunctors := pendingFunctors s @ q @ q',
          outputBuffer := b, heap := h, epoll := k\<rparr>)"
        "map_option sig (h (channel s)) = Some (sig c)" and q': "list_all quiet q'"
        by auto
      let ?u = "?t\<lparr>wakeupCount := w', pendingFunctors := pendingFunctors s @ q @ q', outputBuffer := b, heap := h, epoll := k\<rparr>"
      have "sendInLoop E dat len s = Inr ?u"
        using d nf r s'(1) assms(4) \<open>state s \<noteq> kDisconnected\<close> i(2) sub by (simp add: sendInLoop_def)
      moreover have "guar s ?u"
        using s'(3) c(1) st q q' by (auto simp: guar_def fixed_def intro: growsI)
      ultimately show ?thesis using s'(2) by (intro exI [of _ ?u]) simp
    qed
  qed
qed

section \<open>The operations of the interface\<close>

definition op_post :: "World \<Rightarrow> World \<Rightarrow> bool" where
  "op_post s s' \<longleftrightarrow> conn_core s' \<and> guar s s' \<and> calls s' = calls s \<and>
     (state s' = state s \<or> state s = kConnected \<and> state s' = kDisconnecting)"

lemma op_post_refl [simp]: "op_post s s \<longleftrightarrow> conn_core s"
  by (simp add: op_post_def)

lemma op_post_trans: "op_post s1 s2 \<Longrightarrow> op_post s2 s3 \<Longrightarrow> op_post s1 s3"
  unfolding op_post_def using guar_trans [of s1 s2 s3] by auto

lemma inLoop [simp]: "conn_core s \<Longrightarrow> isInLoopThread s" "conn_core s \<Longrightarrow> assertInLoopThread s = Inr ()"
  by (simp_all add: conn_core_def isInLoopThread_def)

lemma setState_disconnecting:
  assumes "conn_core s" and "state s = kConnected \<or> state s = kDisconnecting"
  shows "op_post s (setState kDisconnecting s)"
proof -
  have "epoll_inv (setState kDisconnecting s)"
    using assms(1) by (simp add: conn_core_def setState_def epoll_inv_def)
  then have "conn_core (setState kDisconnecting s)"
    using assms by (auto simp: conn_core_def chan_state_def setState_def)
  moreover have "guar s (setState kDisconnecting s)"
    using assms(2) by (auto simp: guar_def fixed_def setState_def intro: growsI(2))
  ultimately show ?thesis using assms(2) by (auto simp: op_post_def setState_def)
qed

lemma shutdownInLoop_ok:
  assumes "conn_core s"
  shows "\<exists>b. shutdownInLoop s = Inr (s\<lparr>writeShut := b\<rparr>) \<and> op_post s (s\<lparr>writeShut := b\<rparr>) \<and>
    (content (outputBuffer s) = [] \<longrightarrow> b)"
proof -
  obtain c where c: "heap s (channel s) = Some c" using conn_coreD [OF assms] by blast
  have "op_post s (s\<lparr>writeShut := b\<rparr>)" for b
    using assms by (simp add: op_post_def)
  moreover have "shutdownInLoop s = Inr (s\<lparr>writeShut := (if isWriting c then writeShut s else True)\<rparr>)"
    using assms c by (simp add: shutdownInLoop_def isWritingNow_def)
  moreover have "\<not> isWriting c" if "content (outputBuffer s) = []"
    using assms c that by (cases "state s") (auto simp: conn_core_def chan_state_def isWriting_def)
  ultimately show ?thesis by (intro exI [of _ "if isWriting c then writeShut s else True"]) auto
qed

lemma shutdown_ok:
  assumes "conn_core s"
  shows "\<exists>s'. shutdown s = Inr s' \<and> op_post s s'"
proof (cases "state s = kConnected")
  case True
  have p: "op_post s (setState kDisconnecting s)" using setState_disconnecting [OF assms] True by simp
  then have "conn_core (setState kDisconnecting s)" by (simp add: op_post_def)
  then obtain t where "shutdownInLoop (setState kDisconnecting s) = Inr t"
    "op_post (setState kDisconnecting s) t" "isInLoopThread (setState kDisconnecting s)"
    using shutdownInLoop_ok [of "setState kDisconnecting s"] by auto
  with True op_post_trans [OF p] show ?thesis by (simp add: shutdown_def runInLoop_def)
qed (use assms in \<open>simp add: shutdown_def\<close>)

lemma forceClose_ok:
  assumes "conn_core s"
  shows "op_post s (forceClose s)" and "op_post s (forceCloseWithDelay s)"
proof -
  let ?up = "state s = kConnected \<or> state s = kDisconnecting"
  have p: "op_post s (setState kDisconnecting s)" "conn_core (setState kDisconnecting s)" if ?up
    using setState_disconnecting [OF assms that] by (simp_all add: op_post_def)
  have "op_post t (queueInLoop ForceCloseInLoop t)" if "conn_core t" for t
    using queueInLoop_core [where s = t and f = ForceCloseInLoop] that by (simp add: op_post_def)
  with p have "op_post s (queueInLoop ForceCloseInLoop (setState kDisconnecting s))" if ?up
    using that op_post_trans [OF p(1)] by blast
  with assms show "op_post s (forceClose s)" by (simp add: forceClose_def)
  have "op_post s ((setState kDisconnecting s)\<lparr>delayedCloses := n\<rparr>)" if ?up for n
  proof (rule op_post_trans [OF p(1) [OF that]])
    show "op_post (setState kDisconnecting s) ((setState kDisconnecting s)\<lparr>delayedCloses := n\<rparr>)"
      using p(2) [OF that] by (simp add: op_post_def)
  qed
  with assms show "op_post s (forceCloseWithDelay s)" by (simp add: forceCloseWithDelay_def)
qed

lemma reading_change:
  assumes "env_ok E" and "conn_core s" and "state s = kConnected \<or> state s = kDisconnecting"
    and "heap s (channel s) = Some c" and "ev = events c OR kReadEvent \<and> r \<or>
      ev = events c AND NOT kReadEvent \<and> \<not> r \<and> isReading c"
  shows "\<exists>s'. bindR (set_events (upd E) ev (channel s) s) (\<lambda>s. Inr (s\<lparr>reading := r\<rparr>)) = Inr s' \<and> op_post s s'"
proof -
  from assms(1) have E: "epoll_kernel (e_ctl E)" by (simp add: env_ok_def)
  from assms(2-4) have c: "ownerLoop c = self s" "0 \<le> fd c" "channels s (fd c) = Some (channel s)"
    "isWriting c \<longleftrightarrow> content (outputBuffer s) \<noteq> []" and i: "epoll_inv s" "threadId s = tid s"
    "buf_inv (inputBuffer s)" "buf_inv (outputBuffer s)" "wire s @ content (outputBuffer s) = accepted s"
    by (auto simp: conn_core_def chan_state_def)
  have v: "valid_events (events c)" using epoll_invD [OF i(1) c(3)] assms(4) by simp
  then have ev: "valid_events ev" "ev \<noteq> 0 \<or> events c \<noteq> 0"
    "ev AND kWriteEvent \<noteq> 0 \<longleftrightarrow> content (outputBuffer s) \<noteq> []" "ev AND kReadEvent \<noteq> 0 \<longleftrightarrow> r"
    using assms(5) c(4) by (auto simp: valid_events_effect isWriting_def isReading_def)
  obtain h k where "set_events (upd E) ev (channel s) s = Inr (s\<lparr>heap := h, epoll := k\<rparr>)"
    "conn_core (s\<lparr>heap := h, epoll := k, reading := r\<rparr>)" "map_option sig (h (channel s)) = Some (sig c)"
    using interest_world [OF E i assms(4) c(1-3) assms(3) ev] by blast
  with assms(3,4) show ?thesis by (auto simp: op_post_def guar_def fixed_def intro: growsI(2))
qed

lemma startRead_ok:
  assumes "env_ok E" and "conn_core s" and "state s = kConnected \<or> state s = kDisconnecting"
  shows "\<exists>s'. startReadInLoop E s = Inr s' \<and> op_post s s'" and "\<exists>s'. stopReadInLoop E s = Inr s' \<and> op_post s s'"
proof -
  obtain c where c: "heap s (channel s) = Some c" "isReading c \<longleftrightarrow> reading s"
    using assms(2,3) by (auto simp: conn_core_def chan_state_def)
  show "\<exists>s'. startReadInLoop E s = Inr s' \<and> op_post s s'"
    using reading_change [OF assms c(1), of "events c OR kReadEvent" True] assms(2) c
    by (auto simp: startReadInLoop_def isReadingNow_def interest_ops)
  show "\<exists>s'. stopReadInLoop E s = Inr s' \<and> op_post s s'"
    using reading_change [OF assms c(1), of "events c AND NOT kReadEvent" False] assms(2) c
    by (auto simp: stopReadInLoop_def isReadingNow_def interest_ops)
qed

text \<open>
  When a call of the interface is legal: data must fit into the output buffer, reading is
  switched only while the connection is up, and only bytes that were read are retrieved.
\<close>

fun api_ok :: "api \<Rightarrow> World \<Rightarrow> bool" where
  "api_ok (ApiSend d) s \<longleftrightarrow> length d \<le> room (outputBuffer s)"
| "api_ok ApiStartRead s \<longleftrightarrow> state s = kConnected \<or> state s = kDisconnecting"
| "api_ok ApiStopRead s \<longleftrightarrow> state s = kConnected \<or> state s = kDisconnecting"
| "api_ok (ApiRetrieve n) s \<longleftrightarrow> n \<le> readableBytes (inputBuffer s)"
| "api_ok _ s \<longleftrightarrow> True"

fun script_ok :: "Env \<Rightarrow> api list \<Rightarrow> World \<Rightarrow> bool" where
  "script_ok E [] s \<longleftrightarrow> True"
| "script_ok E (a # as) s \<longleftrightarrow> api_ok a s \<and>
     (case run_api E a s of Inl e \<Rightarrow> False | Inr s' \<Rightarrow> script_ok E as s')"

lemma run_api_ok:
  assumes "env_ok E" and "conn_core s" and "api_ok a s"
  shows "\<exists>s'. run_api E a s = Inr s' \<and> op_post s s'"
proof (cases a)
  case (ApiSend d)
  show ?thesis
  proof (cases "state s = kConnected")
    case True
    with sendInLoop_ok [OF assms(1,2), of "length d" d] assms ApiSend show ?thesis
      by (auto simp: send_def op_post_def)
  qed (use ApiSend assms(2) in \<open>simp add: send_def\<close>)
next
  case ApiShutdown
  with shutdown_ok [OF assms(2)] show ?thesis by simp
next
  case ApiForceClose
  with forceClose_ok [OF assms(2)] show ?thesis by simp
next
  case ApiForceCloseWithDelay
  with forceClose_ok [OF assms(2)] show ?thesis by simp
next
  case ApiStartRead
  with startRead_ok [OF assms(1,2)] assms(2,3) show ?thesis by (auto simp: startRead_def runInLoop_def)
next
  case ApiStopRead
  with startRead_ok [OF assms(1,2)] assms(2,3) show ?thesis by (auto simp: stopRead_def runInLoop_def)
next
  case (ApiRetrieve n)
  have "buf_inv (inputBuffer s)" using assms(2) by (simp add: conn_core_def)
  from retrieve_ok [OF this, of n] ApiRetrieve assms(3) obtain b where
    "retrieve n (inputBuffer s) = Inr b" "buf_inv b" by auto
  moreover have "conn_core (s\<lparr>inputBuffer := b\<rparr>)"
    using assms(2) \<open>buf_inv b\<close> by (simp add: conn_core_def chan_state_def epoll_inv_def)
  moreover have "guar s (s\<lparr>inputBuffer := b\<rparr>)" by (simp add: guar_def fixed_def growsI)
  ultimately show ?thesis using ApiRetrieve by (simp add: op_post_def)
qed

lemma script_run:
  assumes "env_ok E" and "conn_core s" and "script_ok E as s"
  shows "\<exists>s'. foldR (run_api E) as s = Inr s' \<and> op_post s s'"
  using assms(2,3)
proof (induction as arbitrary: s)
  case (Cons a as)
  then obtain s1 where "run_api E a s = Inr s1" "op_post s s1"
    using run_api_ok [OF assms(1), of s a] by auto
  moreover from this Cons.IH [of s1] Cons.prems obtain s2 where
    "foldR (run_api E) as s1 = Inr s2" "op_post s1 s2" by (auto simp: op_post_def)
  ultimately show ?case using op_post_trans [of s s1 s2] by simp
qed simp

section \<open>Handlers\<close>

text \<open>The user's callbacks only make legal calls.\<close>

definition user_ok :: "Env \<Rightarrow> bool" where
  "user_ok E \<longleftrightarrow> (\<forall>u s. conn_core s \<longrightarrow> script_ok E (e_user E u s) (s\<lparr>calls := calls s @ [u]\<rparr>))"

text \<open>What a handler guarantees: bytes are only added, and the state only advances.\<close>

definition advance :: "World \<Rightarrow> World \<Rightarrow> bool" where
  "advance s s' \<longleftrightarrow> channel s' = channel s \<and> self s' = self s \<and> threadId s' = threadId s \<and> tid s' = tid s \<and>
     stage (state s) \<le> stage (state s') \<and>
     (\<exists>w. wire s' = wire s @ w) \<and> (\<exists>a. accepted s' = accepted s @ a) \<and> grows s s'"

lemma advance_refl [simp]: "advance s s"
  by (simp add: advance_def growsI)

lemma advance_trans: "advance s1 s2 \<Longrightarrow> advance s2 s3 \<Longrightarrow> advance s1 s3"
  using grows_trans [of s1 s2 s3] unfolding advance_def by (elim conjE exE) simp

lemma guar_advance: "guar s s' \<Longrightarrow> advance s s'"
  by (simp add: guar_def fixed_def advance_def)

text \<open>
  No handler registers or removes a channel. \<open>owed\<close> counts the calls of \<open>connectDestroyed\<close> the
  close callback has asked for or will still ask for: closing moves one from the second kind
  to the first.
\<close>

definition owed :: "World \<Rightarrow> nat" where
  "owed s = destroyRequests s + (if state s = kDisconnected then 0 else 1)"

definition still :: "World \<Rightarrow> World \<Rightarrow> bool" where
  "still s s' \<longleftrightarrow> channels s' = channels s \<and> eventHandling_loop s' = eventHandling_loop s \<and> owed s' = owed s \<and>
     map_option sig (heap s' (channel s')) = map_option sig (heap s (channel s))"

lemma still_refl [simp]: "still s s"
  by (simp add: still_def)

lemma still_trans: "still s1 s2 \<Longrightarrow> still s2 s3 \<Longrightarrow> still s1 s3"
  by (simp add: still_def)

lemma still_eventHandling:
  "still s s' \<Longrightarrow> map_option eventHandling (heap s' (channel s')) = map_option eventHandling (heap s (channel s))"
  by (cases "heap s' (channel s')"; cases "heap s (channel s)") (auto simp: still_def sig_def)

lemma guar_still:
  assumes "guar s s'"
  shows "still s s'"
proof -
  have f: "fixed s' = fixed s" using assms by (simp add: guar_def)
  have "state s' = kDisconnected \<longleftrightarrow> state s = kDisconnected"
    using assms by (cases "state s'") (auto simp: guar_def)
  moreover have "destroyRequests s' = destroyRequests s" using f by (simp add: fixed_def)
  ultimately have "owed s' = owed s" by (simp add: owed_def)
  then show ?thesis using f unfolding fixed_def still_def prod.inject by (elim conjE) simp
qed

lemma callUser_ok:
  assumes "env_ok E" and "user_ok E" and "conn_core s"
  shows "\<exists>s'. callUser E u s = Inr s' \<and> conn_core s' \<and> guar s s' \<and> calls s' = calls s @ [u] \<and>
    (state s' = state s \<or> state s = kConnected \<and> state s' = kDisconnecting)"
proof -
  let ?s = "s\<lparr>calls := calls s @ [u]\<rparr>"
  have "script_ok E (e_user E u s) ?s" using assms(2,3) by (simp add: user_ok_def)
  then obtain s' where s': "foldR (run_api E) (e_user E u s) ?s = Inr s'" "op_post ?s s'"
    using script_run [OF assms(1), of ?s] assms(3) by auto
  moreover have "guar s s'"
    using guar_trans [of s ?s s'] s'(2) by (simp add: op_post_def)
  ultimately show ?thesis by (auto simp: callUser_def op_post_def)
qed

text \<open>\<open>disableAll\<close> on a registered channel, with the state already set to disconnected.\<close>

lemma disableAll_world:
  assumes "env_ok E" and "conn_core s" and "state s = kConnected \<or> state s = kDisconnecting"
  shows "\<exists>s1. disableAll (upd E) (channel s) (setState kDisconnected s) = Inr s1 \<and> conn_core s1 \<and>
    advance s s1 \<and> state s1 = kDisconnected \<and> calls s1 = calls s \<and> destroyRequests s1 = destroyRequests s \<and>
    eventHandling_loop s1 = eventHandling_loop s \<and>
    channels s1 = channels s \<and>
    map_option sig (heap s1 (channel s)) = map_option sig (heap s (channel s)) \<and>
    (\<exists>c. heap s1 (channel s) = Some c \<and> channels s1 (fd c) = Some (channel s))"
proof -
  let ?s = "setState kDisconnected s"
  from assms(1) have E: "epoll_kernel (e_ctl E)" by (simp add: env_ok_def)
  from assms(2,3) obtain c where c: "heap s (channel s) = Some c" "ownerLoop c = self s" "0 \<le> fd c"
    "channels s (fd c) = Some (channel s)" and i: "epoll_inv s" "threadId s = tid s"
    "buf_inv (inputBuffer s)" "buf_inv (outputBuffer s)" "wire s @ content (outputBuffer s) = accepted s"
    by (auto simp: conn_core_def chan_state_def)
  have e: "epoll_inv ?s" "threadId ?s = tid ?s" "heap ?s (channel s) = Some c"
    "channels ?s (fd c) = Some (channel s)"
    using i c by (simp_all add: setState_def epoll_inv_def)
  have "\<exists>h k c'. set_events (upd E) 0 (channel s) ?s = Inr (?s\<lparr>heap := h, epoll := k\<rparr>) \<and>
      epoll_inv (?s\<lparr>heap := h, epoll := k\<rparr>) \<and> h (channel s) = Some c' \<and> events c' = 0 \<and> sig c' = sig c \<and>
      ownerLoop c' = ownerLoop c"
  proof (cases "events c = 0")
    case False
    then show ?thesis using set_events_world [OF E e, of 0] by auto
  next
    case True
    let ?i = "if epoll s (fd c) = None then kAdded else kDeleted"
    let ?c = "c\<lparr>events := 0, addedToLoop := True, index := ?i\<rparr>"
    let ?k = "(epoll s)(fd c := if epoll s (fd c) = None then Some (0, channel s) else None)"
    have ch: "(channels ?s)(fd c \<mapsto> channel s) = channels ?s" using e(4) by (auto simp: fun_eq_iff)
    have ep: "epoll ?s = epoll s" by (simp add: setState_def)
    have "set_events (upd E) 0 (channel s) ?s = Inr (?s\<lparr>heap := (heap ?s)(channel s \<mapsto> ?c), epoll := ?k\<rparr>)"
      using epoll_kernel.epoll_update_zero [OF E e True] ch ep by simp
    moreover have "epoll_inv (?s\<lparr>heap := (heap ?s)(channel s \<mapsto> ?c),
        channels := (channels ?s)(fd c \<mapsto> channel s), epoll := (epoll ?s)(fd c :=
          if epoll s (fd c) = None then Some (0, channel s) else None)\<rparr>)"
      using e(4) c(2,3) by (intro epoll_inv_upd [OF e(1,3)]) (auto simp: setState_def)
    ultimately show ?thesis
      using ch ep by (intro exI [of _ "(heap ?s)(channel s \<mapsto> ?c)"] exI [of _ ?k] exI [of _ ?c]) simp
  qed
  then obtain h k c' where s': "set_events (upd E) 0 (channel s) ?s = Inr (?s\<lparr>heap := h, epoll := k\<rparr>)"
    "epoll_inv (?s\<lparr>heap := h, epoll := k\<rparr>)" "h (channel s) = Some c'" "events c' = 0" "sig c' = sig c"
    "ownerLoop c' = ownerLoop c" by blast
  note f = sig_fd [OF s'(5)]
  let ?t = "?s\<lparr>heap := h, epoll := k\<rparr>"
  have "conn_core ?t"
    using s'(2-6) f i c by (simp add: conn_core_def chan_state_def setState_def)
  moreover have "advance s ?t" using assms(3) by (auto simp: advance_def setState_def intro: growsI(2))
  moreover have "disableAll (upd E) (channel s) ?s = Inr ?t"
    using s'(1) interest_ops(5) [OF e(3), of "upd E"] by simp
  ultimately show ?thesis
    using s'(3,5) f c(1,4) by (intro exI [of _ ?t]) (simp add: setState_def)
qed

lemma handleClose_ok:
  assumes "env_ok E" and "user_ok E" and "conn_core s" and "state s = kConnected \<or> state s = kDisconnecting"
  shows "\<exists>s'. handleClose E s = Inr s' \<and> conn_core s' \<and> advance s s' \<and> state s' = kDisconnected \<and>
    calls s' = calls s @ [ConnectionCallback False, CloseCallback] \<and>
    destroyRequests s' = destroyRequests s + 1 \<and> still s s'"
proof -
  obtain s1 where s1: "disableAll (upd E) (channel s) (setState kDisconnected s) = Inr s1" "conn_core s1"
    "advance s s1" "state s1 = kDisconnected" "calls s1 = calls s" "destroyRequests s1 = destroyRequests s"
    "channels s1 = channels s" "eventHandling_loop s1 = eventHandling_loop s"
    "map_option sig (heap s1 (channel s)) = map_option sig (heap s (channel s))"
    using disableAll_world [OF assms(1,3,4)] by blast
  obtain s2 where s2: "connectionCallback E s1 = Inr s2" "conn_core s2" "guar s1 s2"
    "calls s2 = calls s @ [ConnectionCallback False]" "state s2 = kDisconnected"
    using callUser_ok [OF assms(1,2) s1(2), of "ConnectionCallback (connected s1)"] s1(4,5)
    by (auto simp: connectionCallback_def connected_def)
  have "advance s s2" using advance_trans [OF s1(3) guar_advance [OF s2(3)]] .
  moreover have "destroyRequests s2 = destroyRequests s" using s2(3) s1(6) by (simp add: guar_def fixed_def)
  moreover have "still s (closeCallback s2)" using guar_still [OF s2(3)] s1 s2(5) assms(4)
    by (auto simp: still_def advance_def closeCallback_def owed_def)
  ultimately show ?thesis
    using s1(1) s2 assms(3,4)
    by (intro exI [of _ "closeCallback s2"]) (auto simp: handleClose_def closeCallback_def advance_def grows_def)
qed

lemma handleWrite_drained_ok:
  assumes "epoll_kernel (e_ctl E)" and "epoll_inv s" and "threadId s = tid s" and "buf_inv (inputBuffer s)"
    and "buf_inv (outputBuffer s)" and "wire s @ content (outputBuffer s) = accepted s"
    and "heap s (channel s) = Some c" and "ownerLoop c = self s" and "0 \<le> fd c"
    and "channels s (fd c) = Some (channel s)" and "state s = kConnected \<or> state s = kDisconnecting"
    and "content (outputBuffer s) = []" and "isWriting c" and "isReading c \<longleftrightarrow> reading s"
  shows "\<exists>s'. handleWrite_drained E s = Inr s' \<and> op_post s s' \<and> state s' = state s \<and>
    accepted s' = accepted s \<and> outputBuffer s' = outputBuffer s \<and> (state s = kDisconnecting \<longrightarrow> writeShut s')"
proof -
  have v: "valid_events (events c)" using epoll_invD [OF assms(2,10)] assms(7) by simp
  have ev: "valid_events (events c AND NOT kWriteEvent)" "events c AND NOT kWriteEvent \<noteq> 0 \<or> events c \<noteq> 0"
    "(events c AND NOT kWriteEvent) AND kWriteEvent \<noteq> 0 \<longleftrightarrow> content (outputBuffer s) \<noteq> []"
    "(events c AND NOT kWriteEvent) AND kReadEvent \<noteq> 0 \<longleftrightarrow> reading s"
    using v assms(12-14) by (auto simp: valid_events_effect isReading_def isWriting_def)
  obtain h k where hk: "set_events (upd E) (events c AND NOT kWriteEvent) (channel s) s =
      Inr (s\<lparr>heap := h, epoll := k\<rparr>)" "conn_core (s\<lparr>heap := h, epoll := k, reading := reading s\<rparr>)"
    "map_option sig (h (channel s)) = Some (sig c)"
    using interest_world [OF assms(1-11) ev] by blast
  let ?u = "s\<lparr>heap := h, epoll := k\<rparr>"
  obtain w q where wq: "(if writeCompleteCallback s then queueInLoop WriteComplete ?u else ?u) =
      ?u\<lparr>wakeupCount := w, pendingFunctors := pendingFunctors s @ q\<rparr>" and q: "list_all quiet q"
    using queue_if [of WriteComplete "writeCompleteCallback s" ?u] by auto
  let ?v = "?u\<lparr>wakeupCount := w, pendingFunctors := pendingFunctors s @ q\<rparr>"
  have u: "conn_core ?u" using hk(2) by simp
  then have v: "conn_core ?v" by (simp only: conn_core_queue)
  have g: "guar s ?v" using hk(3) assms(7,11) q by (auto simp: guar_def fixed_def intro: growsI)
  then have p: "op_post s ?v" using v by (simp add: op_post_def)
  have e: "handleWrite_drained E s = (if state s = kDisconnecting then shutdownInLoop ?v else Inr ?v)"
    unfolding handleWrite_drained_def interest_ops(4) [OF assms(7)] hk(1)
    by (simp add: wq Let_def)
  obtain x where x: "shutdownInLoop ?v = Inr (?v\<lparr>writeShut := x\<rparr>)" "op_post ?v (?v\<lparr>writeShut := x\<rparr>)" x
    using shutdownInLoop_ok [OF v] assms(12) by auto
  show ?thesis
  proof (cases "state s = kDisconnecting")
    case True
    with e x op_post_trans [OF p x(2)] show ?thesis by simp
  next
    case False
    with e p show ?thesis by simp
  qed
qed

lemma handleWrite_ok:
  assumes "env_ok E" and "conn_core s"
  shows "\<exists>s'. handleWrite E s = Inr s' \<and> op_post s s' \<and> state s' = state s \<and> accepted s' = accepted s \<and>
    (\<forall>n. content (outputBuffer s) \<noteq> [] \<and> up s \<and>
       e_write E (writeCalls s) (content (outputBuffer s)) = Inr n \<and> 0 < n \<longrightarrow>
       content (outputBuffer s') = drop n (content (outputBuffer s)) \<and>
       (content (outputBuffer s') = [] \<and> state s = kDisconnecting \<longrightarrow> writeShut s'))"
proof -
  from assms(1) have E: "epoll_kernel (e_ctl E)" "write_spec E" by (simp_all add: env_ok_def)
  obtain c where c: "heap s (channel s) = Some c" "ownerLoop c = self s" "0 \<le> fd c" "chan_state s c"
    using conn_coreD [OF assms(2)] by blast
  let ?d = "content (outputBuffer s)"
  have idle: "op_post s (s\<lparr>writeCalls := i\<rparr>)" for i
    using assms(2) by (simp add: op_post_def guar_def fixed_def conn_core_def chan_state_def epoll_inv_def growsI)
  note unf = handleWrite_def isWritingNow_def sys_write_def
  consider (down) "\<not> isWriting c" | (err) err where "isWriting c" "e_write E (writeCalls s) ?d = Inl err"
    | (zero) "isWriting c" "e_write E (writeCalls s) ?d = Inr 0"
    | (wrote) n where "isWriting c" "e_write E (writeCalls s) ?d = Inr n" "0 < n"
    by (metis neq0_conv sum.exhaust)
  then show ?thesis
  proof cases
    case down
    then have "content (outputBuffer s) = [] \<or> \<not> up s"
      using c(4) by (auto simp: chan_state_def up_def)
    with down c(1) assms(2) show ?thesis by (auto simp: unf)
  next
    case err
    with c(1) assms(2) idle show ?thesis by (simp add: unf)
  next
    case zero
    with c(1) assms(2) idle show ?thesis by (simp add: unf)
  next
    case wrote
    then have st: "state s = kConnected \<or> state s = kDisconnecting"
      using c(4) by (cases "state s") (auto simp: chan_state_def isWriting_def)
    with c(4) have ch: "channels s (fd c) = Some (channel s)" "isReading c \<longleftrightarrow> reading s"
      by (auto simp: chan_state_def)
    from assms(2) have i: "epoll_inv s" "threadId s = tid s" "buf_inv (inputBuffer s)"
      "buf_inv (outputBuffer s)" "wire s @ ?d = accepted s"
      by (simp_all add: conn_core_def)
    have n: "n \<le> length ?d" using E(2) wrote(2) by (simp add: write_spec_def)
    obtain b where b: "retrieve n (outputBuffer s) = Inr b" "buf_inv b" "content b = drop n ?d"
      using buf.ret_law [OF i(4) n] by blast
    have rb: "readableBytes b = 0 \<longleftrightarrow> content b = []" using length_content [OF b(2)] by auto
    let ?t = "s\<lparr>writeCalls := writeCalls s + 1, wire := wire s @ take n ?d, outputBuffer := b\<rparr>"
    have e: "handleWrite E s = (if readableBytes b = 0 then handleWrite_drained E ?t else Inr ?t)"
      using wrote b(1) c(1) assms(2) by (simp add: unf)
    have it: "epoll_inv ?t" using i(1) by (simp add: epoll_inv_def)
    have acc: "wire ?t @ content (outputBuffer ?t) = accepted ?t" using i(5) b(3) by simp
    have g: "guar s ?t" by (simp add: guar_def fixed_def growsI)
    show ?thesis
    proof (cases "content b = []")
      case False
      moreover have "conn_core ?t"
        using it i c(1-3) ch st b(2) acc False wrote(1) by (auto simp: conn_core_def chan_state_def)
      ultimately show ?thesis using e rb g wrote(2) b(3) by (simp add: op_post_def)
    next
      case True
      have "\<exists>s'. handleWrite_drained E ?t = Inr s' \<and> op_post ?t s' \<and> state s' = state ?t \<and>
          accepted s' = accepted ?t \<and> outputBuffer s' = outputBuffer ?t \<and> (state ?t = kDisconnecting \<longrightarrow> writeShut s')"
        by (rule handleWrite_drained_ok [OF E(1) it])
          (use i c(1-3) ch st b(2) acc True wrote(1) in simp_all)
      then obtain s' where s': "handleWrite_drained E ?t = Inr s'" "op_post ?t s'" "state s' = state s"
        "accepted s' = accepted s" "outputBuffer s' = b" "state s = kDisconnecting \<longrightarrow> writeShut s'"
        by auto
      have "op_post s s'" using s'(2,3) guar_trans [OF g] by (simp add: op_post_def)
      with e rb True s' wrote(2) b(3) show ?thesis by simp
    qed
  qed
qed

section \<open>The invariant with the callbacks made\<close>

text \<open>
  The connection callback runs once when the connection comes up and once when it goes
  down; the close callback follows the latter unless the owner destroys the connection.
\<close>

fun lifecycle_call :: "ucall \<Rightarrow> bool" where
  "lifecycle_call (ConnectionCallback b) = True"
| "lifecycle_call CloseCallback = True"
| "lifecycle_call _ = False"

definition lifecycle :: "World \<Rightarrow> ucall list" where
  "lifecycle s = filter lifecycle_call (calls s)"

definition calls_ok :: "World \<Rightarrow> bool" where
  "calls_ok s \<longleftrightarrow>
     (state s = kConnecting \<longrightarrow> lifecycle s = []) \<and>
     (state s = kConnected \<or> state s = kDisconnecting \<longrightarrow> lifecycle s = [ConnectionCallback True]) \<and>
     (state s = kDisconnected \<longrightarrow>
        lifecycle s = [ConnectionCallback True, ConnectionCallback False] \<or>
        lifecycle s = [ConnectionCallback True, ConnectionCallback False, CloseCallback])"

definition conn_inv :: "World \<Rightarrow> bool" where
  "conn_inv s \<longleftrightarrow> conn_core s \<and> calls_ok s"

definition readv_ok :: "(nat \<Rightarrow> int + char list) \<Rightarrow> World \<Rightarrow> bool" where
  "readv_ok readv s \<longleftrightarrow> (\<forall>n d. readv n = Inr d \<longrightarrow> length d \<le> n) \<and>
     length (buffer (inputBuffer s)) + sizeof_extrabuf \<le> max_size"

lemma calls_ok_same:
  assumes "calls_ok s" and "lifecycle s' = lifecycle s"
    and "state s' = state s \<or> state s = kConnected \<and> state s' = kDisconnecting"
  shows "calls_ok s'"
  using assms(3)
proof
  assume "state s' = state s"
  with assms(1,2) show ?thesis by (simp add: calls_ok_def)
next
  assume "state s = kConnected \<and> state s' = kDisconnecting"
  with assms(1,2) show ?thesis by (simp add: calls_ok_def)
qed

lemma op_post_inv:
  assumes "conn_inv s" and "op_post s s'"
  shows "conn_inv s'" and "advance s s'" and "still s s'"
proof -
  have "lifecycle s' = lifecycle s" using assms(2) by (simp add: op_post_def lifecycle_def)
  then show "conn_inv s'"
    using assms calls_ok_same [of s s'] by (simp add: conn_inv_def op_post_def)
  show "advance s s'" "still s s'" using assms(2) by (simp_all add: op_post_def guar_advance guar_still)
qed

lemma callUser_inv:
  assumes "env_ok E" and "user_ok E" and "conn_inv s" and "\<not> lifecycle_call u"
  shows "\<exists>s'. callUser E u s = Inr s' \<and> conn_inv s' \<and> advance s s' \<and> still s s'"
proof -
  obtain s' where s': "callUser E u s = Inr s'" "conn_core s'" "guar s s'" "calls s' = calls s @ [u]"
    "state s' = state s \<or> state s = kConnected \<and> state s' = kDisconnecting"
    using callUser_ok [OF assms(1,2), of s u] assms(3) by (auto simp: conn_inv_def)
  have "lifecycle s' = lifecycle s" using s'(4) assms(4) by (simp add: lifecycle_def)
  with s'(5) assms(3) have "calls_ok s'" using calls_ok_same [of s s'] by (simp add: conn_inv_def)
  with s'(1,2) guar_advance [OF s'(3)] guar_still [OF s'(3)] show ?thesis by (auto simp: conn_inv_def)
qed

lemma handleClose_inv:
  assumes "env_ok E" and "user_ok E" and "conn_inv s" and "up s"
  shows "\<exists>s'. handleClose E s = Inr s' \<and> conn_inv s' \<and> advance s s' \<and> still s s' \<and> state s' = kDisconnected"
proof -
  obtain s' where s': "handleClose E s = Inr s'" "conn_core s'" "advance s s'" "state s' = kDisconnected"
    "calls s' = calls s @ [ConnectionCallback False, CloseCallback]" "still s s'"
    using handleClose_ok [OF assms(1,2), of s] assms(3,4) by (auto simp: conn_inv_def up_def)
  have "lifecycle s = [ConnectionCallback True]"
    using assms(3,4) by (auto simp: conn_inv_def calls_ok_def up_def)
  with s' show ?thesis by (simp add: conn_inv_def calls_ok_def lifecycle_def)
qed

lemma input_inv:
  assumes "conn_inv s" and "buf_inv b"
  shows "conn_inv (s\<lparr>inputBuffer := b\<rparr>)" and "up (s\<lparr>inputBuffer := b\<rparr>) = up s"
    and "advance s (s\<lparr>inputBuffer := b\<rparr>)" and "still s (s\<lparr>inputBuffer := b\<rparr>)"
proof -
  have "conn_core (s\<lparr>inputBuffer := b\<rparr>)"
    using assms by (simp add: conn_inv_def conn_core_def chan_state_def epoll_inv_def)
  then show "conn_inv (s\<lparr>inputBuffer := b\<rparr>)"
    using assms(1) by (simp add: conn_inv_def calls_ok_def lifecycle_def)
qed (simp_all add: up_def advance_def still_def owed_def growsI)

lemma handleRead_inv:
  assumes "env_ok E" and "user_ok E" and "conn_inv s" and "up s" and "readv_ok readv s"
  shows "\<exists>s'. handleRead E readv s = Inr s' \<and> conn_inv s' \<and> advance s s' \<and> still s s'"
proof -
  let ?b = "inputBuffer s"
  have core: "conn_core s" "buf_inv ?b" using assms(3) by (simp_all add: conn_inv_def conn_core_def)
  have rd: "case readv (readFd_iovlen ?b) of
      Inl err \<Rightarrow> readFd readv ?b = Inr (-1, Some err, ?b)
    | Inr d \<Rightarrow> \<exists>b'. readFd readv ?b = Inr (int (length d), None, b') \<and> buf_inv b' \<and> content b' = content ?b @ d"
    using readFd_ok [OF core(2), of readv] assms(5) by (simp add: readv_ok_def)
  show ?thesis
  proof (cases "readv (readFd_iovlen ?b)")
    case (Inl err)
    with rd core input_inv [OF assms(3) core(2)] show ?thesis by (simp add: handleRead_def handleError_def)
  next
    case (Inr d)
    with rd obtain b where b: "readFd readv ?b = Inr (int (length d), None, b)" "buf_inv b" by auto
    note i = input_inv [OF assms(3) b(2)]
    show ?thesis
    proof (cases "d = []")
      case True
      obtain s' where "handleClose E (s\<lparr>inputBuffer := b\<rparr>) = Inr s'" "conn_inv s'"
        "advance (s\<lparr>inputBuffer := b\<rparr>) s'" "still (s\<lparr>inputBuffer := b\<rparr>) s'"
        using handleClose_inv [OF assms(1,2) i(1)] i(2) assms(4) by blast
      with True b(1) core(1) advance_trans [OF i(3)] still_trans [OF i(4)] show ?thesis by (simp add: handleRead_def)
    next
      case False
      obtain s' where "callUser E MessageCallback (s\<lparr>inputBuffer := b\<rparr>) = Inr s'" "conn_inv s'"
        "advance (s\<lparr>inputBuffer := b\<rparr>) s'" "still (s\<lparr>inputBuffer := b\<rparr>) s'"
        using callUser_inv [OF assms(1,2) i(1), of MessageCallback] by auto
      with False b(1) core(1) advance_trans [OF i(3)] still_trans [OF i(4)] show ?thesis by (simp add: handleRead_def)
    qed
  qed
qed

lemma handleWrite_inv:
  assumes "env_ok E" and "conn_inv s"
  shows "\<exists>s'. handleWrite E s = Inr s' \<and> conn_inv s' \<and> advance s s' \<and> still s s' \<and> state s' = state s"
proof -
  obtain s' where "handleWrite E s = Inr s'" "op_post s s'" "state s' = state s"
    using handleWrite_ok [OF assms(1), of s] assms(2) by (auto simp: conn_inv_def)
  with op_post_inv [OF assms(2)] show ?thesis by blast
qed

lemma forceCloseInLoop_inv:
  assumes "env_ok E" and "user_ok E" and "conn_inv s"
  shows "\<exists>s'. forceCloseInLoop E s = Inr s' \<and> conn_inv s' \<and> advance s s' \<and> still s s'"
proof (cases "up s")
  case True
  with handleClose_inv [OF assms True] assms(3) show ?thesis
    by (auto simp: forceCloseInLoop_def up_def conn_inv_def)
next
  case False
  with assms(3) show ?thesis by (auto simp: forceCloseInLoop_def up_def conn_inv_def)
qed

section \<open>Establishing and destroying\<close>

lemma connectEstablished_inv:
  assumes "env_ok E" and "user_ok E" and "conn_inv s" and "state s = kConnecting"
  shows "\<exists>s'. connectEstablished E s = Inr s' \<and> conn_inv s' \<and> advance s s' \<and> up s' \<and> owed s' = owed s \<and>
    eventHandling_loop s' = eventHandling_loop s \<and>
    map_option eventHandling (heap s' (channel s')) = map_option eventHandling (heap s (channel s))"
proof -
  from assms(1) have E: "epoll_kernel (e_ctl E)" by (simp add: env_ok_def)
  have core: "conn_core s" using assms(3) by (simp add: conn_inv_def)
  from core assms(4) obtain c where c: "heap s (channel s) = Some c" "ownerLoop c = self s" "0 \<le> fd c"
    "channels s (fd c) = None" "index c = kNew" "events c = 0" "content (outputBuffer s) = []" "reading s"
    and i: "epoll_inv s" "threadId s = tid s" "buf_inv (inputBuffer s)" "buf_inv (outputBuffer s)"
    "wire s @ content (outputBuffer s) = accepted s"
    by (auto simp: conn_core_def chan_state_def)
  let ?c = "c\<lparr>tie := Some (channel s), tied := True\<rparr>"
  let ?s = "s\<lparr>state := kConnected, heap := (heap s)(channel s \<mapsto> ?c)\<rparr>"
  have t: "Channel_tie (channel s) (channel s) (setState kConnected s) = Inr ?s"
    using c(1) by (simp add: Channel_tie_def setState_def)
  have q: "q \<noteq> channel s" if "channels s k = Some q" for k q
    using epoll_invD [OF i(1) that] c(1,4) that by auto
  have es: "epoll_inv ?s" using i(1) q unfolding epoll_inv_def by simp
  let ?d = "?c\<lparr>events := kReadEvent, addedToLoop := True, index := kAdded\<rparr>"
  let ?t = "?s\<lparr>heap := (heap ?s)(channel s \<mapsto> ?d), channels := (channels s)(fd c \<mapsto> channel s),
    epoll := (epoll s)(fd c \<mapsto> (kReadEvent, channel s))\<rparr>"
  have "enableReading (upd E) (channel s) ?s = Inr ?t"
    using epoll_kernel.epoll_update_new [OF E es, of "channel s" ?c kReadEvent] i(2) c
      interest_ops(1) [of ?s "channel s" ?c "upd E"] by simp
  moreover have "epoll_inv ?t"
    using epoll_inv_upd [OF es, of "channel s" ?c ?d "Some (kReadEvent, channel s)"] c
    by (simp add: valid_events_def poll_flags)
  then have "conn_core ?t"
    using i c by (simp add: conn_core_def chan_state_def isWriting_def isReading_def poll_flags)
  moreover have "lifecycle ?t = []" using assms(3,4) by (simp add: conn_inv_def calls_ok_def lifecycle_def)
  moreover obtain s' where s': "connectionCallback E ?t = Inr s'" "conn_core s'" "guar ?t s'"
    "calls s' = calls s @ [ConnectionCallback True]" "state s' = kConnected \<or> state s' = kDisconnecting"
    using callUser_ok [OF assms(1,2) \<open>conn_core ?t\<close>, of "ConnectionCallback True"]
    by (auto simp: connectionCallback_def connected_def)
  ultimately have "connectEstablished E s = Inr s'" "calls_ok s'"
    using t core assms(4) c(1)
    by (auto simp: connectEstablished_def calls_ok_def lifecycle_def setState_def)
  moreover have "advance s ?t" using assms(4) by (simp add: advance_def growsI)
  moreover have "owed ?t = owed s" using assms(4) by (simp add: owed_def)
  then have "owed s' = owed s" "eventHandling_loop s' = eventHandling_loop s"
    using guar_still [OF s'(3)] by (simp_all add: still_def)
  moreover have "map_option eventHandling (heap s' (channel s')) = map_option eventHandling (heap s (channel s))"
    using still_eventHandling [OF guar_still [OF s'(3)]] c(1) by simp
  moreover have "conn_inv s'" "up s'" using s'(2,5) \<open>calls_ok s'\<close> by (simp_all add: conn_inv_def up_def)
  moreover have "advance s s'" by (rule advance_trans [OF \<open>advance s ?t\<close> guar_advance [OF s'(3)]])
  ultimately show ?thesis by blast
qed

lemma Channel_remove_world:
  assumes "env_ok E" and "conn_core s" and "state s = kDisconnected" and "heap s (channel s) = Some c"
    and "channels s (fd c) = Some (channel s)" and "\<not> eventHandling_loop s"
  shows "\<exists>h cs k c'. Channel_remove (rem E) (channel s) s = Inr (s\<lparr>heap := h, channels := cs, epoll := k\<rparr>) \<and>
    conn_core (s\<lparr>heap := h, channels := cs, epoll := k\<rparr>) \<and> cs (fd c) = None \<and> k (fd c) = None \<and>
    h (channel s) = Some c' \<and> fd c' = fd c \<and> \<not> addedToLoop c' \<and> eventHandling c' = eventHandling c \<and>
    ownerLoop c' = self s"
proof -
  from assms(1) have E: "epoll_kernel (e_ctl E)" by (simp add: env_ok_def)
  from assms(2-4) have i: "epoll_inv s" "threadId s = tid s" "events c = 0" "ownerLoop c = self s" "0 \<le> fd c"
    by (auto simp: conn_core_def chan_state_def)
  let ?c = "c\<lparr>addedToLoop := False, index := kNew\<rparr>"
  let ?s = "s\<lparr>heap := (heap s)(channel s \<mapsto> ?c), channels := (channels s)(fd c := None),
    epoll := (epoll s)(fd c := None)\<rparr>"
  have "Channel_remove (rem E) (channel s) s = Inr ?s"
    using epoll_kernel.epoll_remove [OF E i(1,2) assms(4,5) i(3)] assms(6) by simp
  moreover have "epoll_inv ?s" by (rule epoll_kernel.epoll_inv_remove [OF E i(1) assms(4,5)])
  then have "conn_core ?s"
    using assms(2,3) i by (simp add: conn_core_def chan_state_def)
  ultimately show ?thesis
    using i(4) by (intro exI [of _ "(heap s)(channel s \<mapsto> ?c)"] exI [of _ "(channels s)(fd c := None)"]
        exI [of _ "(epoll s)(fd c := None)"] exI [of _ ?c]) simp
qed

lemma connectDestroyed_inv:
  assumes "env_ok E" and "user_ok E" and "conn_inv s" and "state s = kConnected \<or> state s = kDisconnected"
    and "heap s (channel s) = Some c" and "channels s (fd c) = Some (channel s)" and "\<not> eventHandling_loop s"
  shows "\<exists>s'. connectDestroyed E s = Inr s' \<and> conn_inv s' \<and> advance s s' \<and> state s' = kDisconnected \<and>
    destroyRequests s' = destroyRequests s \<and> \<not> eventHandling_loop s' \<and>
    (\<exists>c'. heap s' (channel s') = Some c' \<and> \<not> addedToLoop c' \<and> channels s' (fd c') = None \<and>
       epoll s' (fd c') = None \<and> eventHandling c' = eventHandling c)"
proof -
  have core: "conn_core s" using assms(3) by (simp add: conn_inv_def)
  have "\<exists>t d. (if state s = kConnected
        then bindR (disableAll (upd E) (channel s) (setState kDisconnected s)) (connectionCallback E)
        else Inr s) = Inr t \<and> conn_inv t \<and> advance s t \<and> state t = kDisconnected \<and> channel t = channel s \<and>
      heap t (channel s) = Some d \<and> channels t (fd d) = Some (channel s) \<and> \<not> eventHandling_loop t \<and>
      eventHandling d = eventHandling c \<and> destroyRequests t = destroyRequests s"
  proof (cases "state s = kConnected")
    case True
    obtain s1 d where s1: "disableAll (upd E) (channel s) (setState kDisconnected s) = Inr s1" "conn_core s1"
      "advance s s1" "state s1 = kDisconnected" "calls s1 = calls s" "\<not> eventHandling_loop s1"
      "heap s1 (channel s) = Some d" "channels s1 (fd d) = Some (channel s)" "eventHandling d = eventHandling c"
      "destroyRequests s1 = destroyRequests s"
      using disableAll_world [OF assms(1) core] True assms(5,7) by (auto simp: sig_def)
    obtain s2 where s2: "connectionCallback E s1 = Inr s2" "conn_core s2" "guar s1 s2"
      "calls s2 = calls s @ [ConnectionCallback False]" "state s2 = kDisconnected"
      using callUser_ok [OF assms(1,2) s1(2), of "ConnectionCallback (connected s1)"] s1(4,5)
      by (auto simp: connectionCallback_def connected_def)
    have "lifecycle s = [ConnectionCallback True]"
      using assms(3) True by (simp add: conn_inv_def calls_ok_def)
    with s2(2,4,5) have "conn_inv s2" by (simp add: conn_inv_def calls_ok_def lifecycle_def)
    moreover have "heap s2 = heap s1" "channels s2 = channels s1" "channel s2 = channel s"
      "eventHandling_loop s2 = eventHandling_loop s1" "destroyRequests s2 = destroyRequests s1"
      using s2(3) s1(3,4) by (simp_all add: guar_def fixed_def advance_def)
    ultimately show ?thesis
      using True s1 s2 advance_trans [OF s1(3) guar_advance [OF s2(3)]] by simp
  next
    case False
    with assms show ?thesis by simp
  qed
  then obtain t d where t: "(if state s = kConnected
        then bindR (disableAll (upd E) (channel s) (setState kDisconnected s)) (connectionCallback E)
        else Inr s) = Inr t" "conn_inv t" "advance s t" "state t = kDisconnected" "channel t = channel s"
      "heap t (channel s) = Some d" "channels t (fd d) = Some (channel s)" "\<not> eventHandling_loop t"
      "eventHandling d = eventHandling c" "destroyRequests t = destroyRequests s"
    by blast
  have "conn_core t" using t(2) by (simp add: conn_inv_def)
  from Channel_remove_world [OF assms(1) this t(4)] t(5-8) obtain h cs k c' where r:
    "Channel_remove (rem E) (channel t) t = Inr (t\<lparr>heap := h, channels := cs, epoll := k\<rparr>)"
    "conn_core (t\<lparr>heap := h, channels := cs, epoll := k\<rparr>)" "cs (fd d) = None"
    "h (channel t) = Some c'" "fd c' = fd d" "\<not> addedToLoop c'" "k (fd d) = None"
    "eventHandling c' = eventHandling d"
    by auto
  let ?u = "t\<lparr>heap := h, channels := cs, epoll := k\<rparr>"
  have "connectDestroyed E s = Inr ?u"
    using core t(1) r(1) by (simp add: connectDestroyed_def del: if_split)
  moreover have "conn_inv ?u" using t(2) r(2) by (simp add: conn_inv_def calls_ok_def lifecycle_def)
  moreover have "advance s ?u" using t(3) by (simp add: advance_def grows_def)
  ultimately show ?thesis using t(4,8-10) r(3-8) by simp
qed

end
