(* ===== verification/Net_TcpRun.thy ===== *)
theory Net_TcpRun
  imports Net_TcpConnection
begin

text \<open>
  Whole runs of a connection: its loop dispatches events and runs queued functors, the user
  calls the interface from the loop thread and from other threads, the owner answers the
  close callback with \<open>connectDestroyed\<close>. Every action is an atomic step; a call from another
  thread tests the state and queues a functor. The invariant of \<open>Net_TcpConnection\<close> is
  extended by what may be in the functor queue.
\<close>

section \<open>Events of the channel\<close>

text \<open>
  What the kernel reports together: a hang-up with nothing to read comes without the other
  read events. \<open>reads\<close> is a \<open>readv\<close> that delivers as much as fits.
\<close>

definition event_ok :: "32 word \<Rightarrow> bool" where
  "event_ok r \<longleftrightarrow> (r AND POLLHUP \<noteq> 0 \<and> r AND POLLIN = 0 \<longrightarrow> r AND (POLLIN OR POLLPRI OR POLLRDHUP) = 0)"

definition reads :: "int + char list \<Rightarrow> nat \<Rightarrow> int + char list" where
  "reads x n = map_sum id (take n) x"

definition room_to_read :: "World \<Rightarrow> bool" where
  "room_to_read s \<longleftrightarrow> length (buffer (inputBuffer s)) + sizeof_extrabuf \<le> max_size"

lemma readv_ok_reads: "room_to_read s \<Longrightarrow> readv_ok (reads x) s"
  by (cases x) (auto simp: readv_ok_def reads_def room_to_read_def)

lemma epoll_inv_chan:
  assumes "epoll_inv s" and "heap s p = Some c" and "fd c' = fd c" and "events c' = events c"
    and "index c' = index c" and "ownerLoop c' = ownerLoop c"
  shows "epoll_inv (s\<lparr>heap := (heap s)(p \<mapsto> c')\<rparr>)"
proof -
  have "\<exists>d. (if q = p then Some c' else heap s q) = Some d \<and> fd d = k \<and> 0 \<le> k \<and> ownerLoop d = self s \<and>
      valid_events (events d) \<and> (index d = kAdded \<and> epoll s k = Some (events d, q) \<or>
        index d = kDeleted \<and> events d = 0 \<and> epoll s k = None)" if "channels s k = Some q" for k q
    using epoll_invD [OF assms(1) that] assms(2-6) by (cases "q = p") simp_all
  then show ?thesis using assms(1) by (simp add: epoll_inv_def)
qed

lemma conn_inv_chan:
  assumes "conn_inv s" and "heap s (channel s) = Some c" and "fd c' = fd c" and "events c' = events c"
    and "index c' = index c" and "ownerLoop c' = ownerLoop c" and "addedToLoop c' = addedToLoop c"
  shows "conn_inv (s\<lparr>heap := (heap s)(channel s \<mapsto> c')\<rparr>)"
proof -
  have i: "epoll_inv (s\<lparr>heap := (heap s)(channel s \<mapsto> c')\<rparr>)"
    using assms by (intro epoll_inv_chan [where c = c]) (simp_all add: conn_inv_def conn_core_def)
  have "chan_state (s\<lparr>heap := (heap s)(channel s \<mapsto> c')\<rparr>) c'"
    using assms by (auto simp: conn_inv_def conn_core_def chan_state_def isWriting_def isReading_def)
  then have "conn_core (s\<lparr>heap := (heap s)(channel s \<mapsto> c')\<rparr>)"
    using i assms by (auto simp: conn_inv_def conn_core_def)
  then show ?thesis using assms(1) by (simp add: conn_inv_def calls_ok_def lifecycle_def)
qed

text \<open>One test of \<open>handleEventWithGuard\<close> and its callback.\<close>

lemma when_inv:
  assumes "conn_inv s" and "map_option revents (heap s (channel s)) = Some r"
    and "P r \<Longrightarrow> \<exists>s'. f s = Inr s' \<and> conn_inv s' \<and> advance s s' \<and> still s s'"
  shows "\<exists>s'. when_revents P (Some f) (channel s) s = Inr s' \<and> conn_inv s' \<and> advance s s' \<and> still s s' \<and>
    channel s' = channel s \<and> map_option revents (heap s' (channel s')) = Some r \<and> (\<not> P r \<longrightarrow> s' = s)"
proof -
  obtain c where c: "heap s (channel s) = Some c" "revents c = r" using assms(2) by auto
  show ?thesis
  proof (cases "P r")
    case True
    with assms(3) obtain s' where s': "f s = Inr s'" "conn_inv s'" "advance s s'" "still s s'" by blast
    then have "map_option revents (heap s' (channel s')) = Some r"
      using c by (auto simp: still_def sig_def)
    with s' True c show ?thesis by (simp add: when_revents_def call_def advance_def)
  next
    case False
    with c assms(1) show ?thesis by (simp add: when_revents_def)
  qed
qed

lemma up_registered:
  assumes "conn_inv s" and "up s" and "heap s (channel s) = Some c"
  shows "channels s (fd c) = Some (channel s)"
  using assms by (auto simp: conn_inv_def conn_core_def chan_state_def up_def)

lemma guarded_event:
  assumes E: "env_ok E" "user_ok E" and "conn_inv s" and "up s" and "event_ok r" and "readv_ok readv s"
    and "map_option revents (heap s (channel s)) = Some r"
  shows "\<exists>s'. bindR (when_revents (\<lambda>r. r AND POLLHUP \<noteq> 0 \<and> r AND POLLIN = 0) (Some (handleClose E)) (channel s) s) (\<lambda>s1.
      bindR (when_revents (\<lambda>r. r AND (POLLERR OR POLLNVAL) \<noteq> 0) (Some handleError) (channel s) s1) (\<lambda>s1.
      bindR (when_revents (\<lambda>r. r AND (POLLIN OR POLLPRI OR POLLRDHUP) \<noteq> 0) (Some (handleRead E readv)) (channel s) s1) (\<lambda>s1.
      when_revents (\<lambda>r. r AND POLLOUT \<noteq> 0) (Some (handleWrite E)) (channel s) s1))) = Inr s' \<and>
    conn_inv s' \<and> advance s s' \<and> still s s' \<and> channel s' = channel s"
proof -
  let ?P = "\<lambda>r. r AND POLLHUP \<noteq> 0 \<and> r AND POLLIN = 0"
  let ?R = "\<lambda>r. r AND (POLLIN OR POLLPRI OR POLLRDHUP) \<noteq> 0"
  have cl: "\<exists>s'. handleClose E s = Inr s' \<and> conn_inv s' \<and> advance s s' \<and> still s s'"
    using handleClose_inv [OF E assms(3,4)] by blast
  obtain s1 where s1: "when_revents ?P (Some (handleClose E)) (channel s) s = Inr s1" "conn_inv s1"
    "advance s s1" "still s s1" "channel s1 = channel s" "map_option revents (heap s1 (channel s1)) = Some r"
    "\<not> ?P r \<Longrightarrow> s1 = s"
    using when_inv [where P = ?P and f = "handleClose E", OF assms(3,7) cl] by blast
  obtain s2 where s2: "when_revents (\<lambda>r. r AND (POLLERR OR POLLNVAL) \<noteq> 0) (Some handleError) (channel s1) s1 = Inr s2"
    "s2 = s1"
    using s1(2,6) by (auto simp: when_revents_def call_def handleError_def)
  have rd: "\<exists>s'. handleRead E readv s1 = Inr s' \<and> conn_inv s' \<and> advance s1 s' \<and> still s1 s'" if "?R r"
  proof -
    have "s1 = s" using that assms(5) by (intro s1(7)) (auto simp: event_ok_def)
    then show ?thesis using handleRead_inv [OF E assms(3,4,6)] by simp
  qed
  obtain s3 where s3: "when_revents ?R (Some (handleRead E readv)) (channel s1) s1 = Inr s3" "conn_inv s3"
    "advance s1 s3" "still s1 s3" "channel s3 = channel s1" "map_option revents (heap s3 (channel s3)) = Some r"
    using when_inv [where s = s1 and P = ?R and f = "handleRead E readv", OF s1(2,6) rd] by blast
  have wr: "\<exists>s'. handleWrite E s3 = Inr s' \<and> conn_inv s' \<and> advance s3 s' \<and> still s3 s'"
    using handleWrite_inv [OF E(1) s3(2)] by blast
  obtain s4 where s4: "when_revents (\<lambda>r. r AND POLLOUT \<noteq> 0) (Some (handleWrite E)) (channel s3) s3 = Inr s4"
    "conn_inv s4" "advance s3 s4" "still s3 s4" "channel s4 = channel s3"
    using when_inv [where s = s3 and P = "\<lambda>r. r AND POLLOUT \<noteq> 0" and f = "handleWrite E", OF s3(2,6) wr] by blast
  have "advance s s4" by (rule advance_trans [OF s1(3) advance_trans [OF s3(3) s4(3)]])
  moreover have "still s s4" by (rule still_trans [OF s1(4) still_trans [OF s3(4) s4(4)]])
  ultimately show ?thesis using s1(1,5) s2 s3(1,5) s4(1,2,5) by simp
qed

lemma channel_event_inv:
  assumes "env_ok E" and "user_ok E" and "conn_inv s" and "up s" and "event_ok r" and "readv_ok readv s"
  shows "\<exists>s'. channel_event E readv r s = Inr s' \<and> conn_inv s' \<and> advance s s' \<and>
    channels s' = channels s \<and> eventHandling_loop s' = eventHandling_loop s \<and> owed s' = owed s \<and>
    map_option fd (heap s' (channel s')) = map_option fd (heap s (channel s)) \<and>
    map_option eventHandling (heap s' (channel s')) = Some False"
proof -
  obtain c where c: "heap s (channel s) = Some c" using assms(3) by (auto simp: conn_inv_def conn_core_def)
  let ?c = "c\<lparr>revents := r, eventHandling := True\<rparr>"
  let ?s = "s\<lparr>heap := (heap s)(channel s \<mapsto> ?c)\<rparr>"
  have i: "conn_inv ?s" by (rule conn_inv_chan [OF assms(3) c]) simp_all
  have u: "up ?s" "readv_ok readv ?s" "map_option revents (heap ?s (channel ?s)) = Some r"
    using assms(4,6) by (simp_all add: up_def readv_ok_def)
  obtain t where t: "bindR (when_revents (\<lambda>r. r AND POLLHUP \<noteq> 0 \<and> r AND POLLIN = 0) (Some (handleClose E)) (channel ?s) ?s) (\<lambda>s1.
      bindR (when_revents (\<lambda>r. r AND (POLLERR OR POLLNVAL) \<noteq> 0) (Some handleError) (channel ?s) s1) (\<lambda>s1.
      bindR (when_revents (\<lambda>r. r AND (POLLIN OR POLLPRI OR POLLRDHUP) \<noteq> 0) (Some (handleRead E readv)) (channel ?s) s1) (\<lambda>s1.
      when_revents (\<lambda>r. r AND POLLOUT \<noteq> 0) (Some (handleWrite E)) (channel ?s) s1))) = Inr t"
    "conn_inv t" "advance ?s t" "still ?s t" "channel t = channel ?s"
    using guarded_event [OF assms(1,2) i u(1) assms(5) u(2,3)] by blast
  obtain d where d: "heap t (channel t) = Some d" "fd d = fd c"
    using t(4) by (auto simp: still_def sig_def)
  let ?t = "t\<lparr>heap := (heap t)(channel t \<mapsto> d\<lparr>eventHandling := False\<rparr>)\<rparr>"
  have "channel_event E readv r s = Inr ?t"
    using c t(1,5) d(1)
    by (simp add: channel_event_def handleEvent_def handleEventWithGuard_def bindR_assoc [symmetric])
  moreover have "conn_inv ?t" by (rule conn_inv_chan [OF t(2) d(1)]) simp_all
  moreover have "advance s ?t" using t(3) by (simp add: advance_def grows_def)
  moreover have "channels ?t = channels s" "eventHandling_loop ?t = eventHandling_loop s" "owed ?t = owed s"
    using t(4) by (simp_all add: still_def owed_def)
  ultimately show ?thesis using d(2) c by simp
qed

section \<open>Runs\<close>

text \<open>
  \<open>Event x r\<close>: \<open>poll\<close> reported \<open>r\<close> for the channel and \<open>readv\<close> would deliver \<open>x\<close>. \<open>Functor\<close>: the
  next queued functor. \<open>Call a\<close>, \<open>CallFrom t a\<close>: a call of the interface from the loop thread and
  from thread \<open>t\<close>. \<open>OwnerDestroys\<close>: the owner queues \<open>connectDestroyed\<close> after a close callback.
  \<open>DelayExpires\<close>: the timer of \<open>forceCloseWithDelay\<close>. \<open>DestroyNow\<close>: the owner's destructor destroys
  an open connection.
\<close>

datatype action =
    Event "int + char list" "32 word"
  | Functor
  | Call api
  | CallFrom nat api
  | OwnerDestroys
  | DelayExpires
  | DestroyNow

fun perform :: "Env \<Rightarrow> action \<Rightarrow> World \<Rightarrow> World res" where
  "perform E (Event x r) s =
     bindR (channel_event E (reads x) r (s\<lparr>eventHandling_loop := True\<rparr>)) (\<lambda>s.
     Inr (s\<lparr>eventHandling_loop := False\<rparr>))"
| "perform E Functor s =
     (case pendingFunctors s of [] \<Rightarrow> Inr s | f # fs \<Rightarrow> run_functor E f (s\<lparr>pendingFunctors := fs\<rparr>))"
| "perform E (Call a) s = run_api E a s"
| "perform E (CallFrom t a) s =
     bindR (run_api E a (s\<lparr>tid := t\<rparr>)) (\<lambda>s'. Inr (s'\<lparr>tid := tid s\<rparr>))"
| "perform E OwnerDestroys s =
     Inr (queueInLoop ConnectDestroyed (s\<lparr>destroyRequests := destroyRequests s - 1\<rparr>))"
| "perform E DelayExpires s = Inr (forceClose (s\<lparr>delayedCloses := delayedCloses s - 1\<rparr>))"
| "perform E DestroyNow s = connectDestroyed E s"

text \<open>
  The contract of the callers: output and input fit into the buffers, reading is switched
  only while the connection is up, \<open>retrieve\<close> only in the loop thread, and the owner destroys
  an open connection only before it is shut down.
\<close>

fun functor_legal :: "conn_functor \<Rightarrow> World \<Rightarrow> bool" where
  "functor_legal (SendInLoop d) s \<longleftrightarrow> length d \<le> room (outputBuffer s)"
| "functor_legal StartReadInLoop s \<longleftrightarrow> up s"
| "functor_legal StopReadInLoop s \<longleftrightarrow> up s"
| "functor_legal _ s \<longleftrightarrow> True"

fun legal :: "action \<Rightarrow> World \<Rightarrow> bool" where
  "legal (Event x r) s \<longleftrightarrow> up s \<and> event_ok r \<and> room_to_read s"
| "legal Functor s \<longleftrightarrow> (case pendingFunctors s of [] \<Rightarrow> True | f # fs \<Rightarrow> functor_legal f s)"
| "legal (Call a) s \<longleftrightarrow> api_ok a s"
| "legal (CallFrom t a) s \<longleftrightarrow> t \<noteq> threadId s \<and> (case a of ApiRetrieve n \<Rightarrow> False | _ \<Rightarrow> True)"
| "legal OwnerDestroys s \<longleftrightarrow> 0 < destroyRequests s"
| "legal DelayExpires s \<longleftrightarrow> 0 < delayedCloses s"
| "legal DestroyNow s \<longleftrightarrow> state s = kConnected"

fun legal_acts :: "Env \<Rightarrow> action list \<Rightarrow> World \<Rightarrow> bool" where
  "legal_acts E [] s \<longleftrightarrow> True"
| "legal_acts E (a # as) s \<longleftrightarrow> legal a s \<and>
     (case perform E a s of Inl e \<Rightarrow> True | Inr s' \<Rightarrow> legal_acts E as s')"

text \<open>
  The start, as \<open>TcpServer::newConnection\<close> leaves it: a new connection in a loop with nothing
  queued, for a descriptor and a channel address that are not in use, its callbacks set and
  \<open>connectEstablished\<close> queued.
\<close>

definition loop_ready :: "conn_functor EventLoop \<Rightarrow> ptr \<Rightarrow> int \<Rightarrow> bool" where
  "loop_ready l p sockfd \<longleftrightarrow> epoll_inv l \<and> threadId l = tid l \<and> \<not> eventHandling_loop l \<and>
     pendingFunctors l = [] \<and> heap l p = None \<and> channels l sockfd = None \<and> 0 \<le> sockfd"

definition newConnection ::
  "conn_functor EventLoop \<Rightarrow> ptr \<Rightarrow> int \<Rightarrow> bool \<Rightarrow> bool \<Rightarrow> nat \<Rightarrow> World" where
  "newConnection l p sockfd wc hw mark =
     queueInLoop ConnectEstablished ((TcpConnection_new l p sockfd)
       \<lparr>writeCompleteCallback := wc, highWaterMarkCallback := hw, highWaterMark := mark\<rparr>)"

section \<open>The invariant of a run\<close>

definition registered :: "World \<Rightarrow> bool" where
  "registered s \<longleftrightarrow> (\<exists>c. heap s (channel s) = Some c \<and> channels s (fd c) = Some (channel s))"

definition gone :: "World \<Rightarrow> bool" where
  "gone s \<longleftrightarrow> state s = kDisconnected \<and> \<not> registered s"

definition queue_inv :: "World \<Rightarrow> bool" where
  "queue_inv s \<longleftrightarrow>
     count_list (pendingFunctors s) ConnectEstablished = (if state s = kConnecting then 1 else 0) \<and>
     (\<forall>d. SendInLoop d \<in> set (pendingFunctors s) \<longrightarrow> state s \<noteq> kConnecting) \<and>
     owed s + count_list (pendingFunctors s) ConnectDestroyed = (if gone s then 0 else 1)"

definition run_inv :: "World \<Rightarrow> bool" where
  "run_inv s \<longleftrightarrow> conn_inv s \<and> \<not> eventHandling_loop s \<and>
     map_option eventHandling (heap s (channel s)) = Some False \<and> queue_inv s"

text \<open>What a handler or a call in the loop thread does to the invariant.\<close>

definition tpost :: "World \<Rightarrow> World \<Rightarrow> bool" where
  "tpost s s' \<longleftrightarrow> conn_inv s' \<and> advance s s' \<and> channels s' = channels s \<and>
     eventHandling_loop s' = eventHandling_loop s \<and> owed s' = owed s \<and>
     map_option fd (heap s' (channel s')) = map_option fd (heap s (channel s)) \<and>
     map_option eventHandling (heap s' (channel s')) = map_option eventHandling (heap s (channel s)) \<and>
     (state s' = kConnecting \<longleftrightarrow> state s = kConnecting) \<and>
     (state s' = kDisconnected \<longrightarrow> state s = kDisconnected \<or> up s)"

lemma count_quiet:
  "list_all quiet q \<Longrightarrow> \<not> quiet f \<Longrightarrow> count_list q f = 0"
  "list_all quiet q \<Longrightarrow> SendInLoop d \<notin> set q"
  by (induction q) auto

lemma map_fd_registered:
  assumes "map_option fd (heap s' (channel s')) = map_option fd (heap s (channel s))"
    and "channels s' = channels s" and "channel s' = channel s"
  shows "registered s' = registered s"
  using assms unfolding registered_def by (cases "heap s (channel s)") auto

lemma tpost_run_inv:
  assumes "run_inv s" and "tpost s s'"
  shows "run_inv s'"
proof -
  have ch: "channel s' = channel s" using assms(2) by (simp add: tpost_def advance_def)
  have reg: "registered s' = registered s"
    using assms(2) ch by (intro map_fd_registered) (simp_all add: tpost_def)
  have "registered s" if "up s"
    using assms(1) that up_registered [of s] by (auto simp: run_inv_def registered_def)
  moreover have "state s' = kDisconnected" if "state s = kDisconnected"
    using assms(2) that by (cases "state s'") (simp_all add: tpost_def advance_def)
  ultimately have "gone s' = gone s" using reg assms(2) by (auto simp: gone_def tpost_def)
  moreover obtain q where "pendingFunctors s' = pendingFunctors s @ q" "list_all quiet q"
    using assms(2) by (auto simp: tpost_def advance_def grows_def)
  ultimately have "queue_inv s'"
    using assms count_quiet [of q] by (auto simp: queue_inv_def tpost_def run_inv_def)
  with assms show ?thesis by (simp add: run_inv_def tpost_def)
qed

lemma still_tpost:
  assumes "conn_inv s'" and "advance s s'" and "still s s'" and "state s' = kConnecting \<longleftrightarrow> state s = kConnecting"
    and "state s' = kDisconnected \<longrightarrow> state s = kDisconnected \<or> up s"
  shows "tpost s s'"
proof -
  have "map_option fd (heap s' (channel s')) = map_option fd (heap s (channel s))"
    using assms(3) by (cases "heap s' (channel s')"; cases "heap s (channel s)") (auto simp: still_def sig_def)
  with assms still_eventHandling [OF assms(3)] show ?thesis by (simp add: tpost_def still_def)
qed

lemma op_post_tpost:
  assumes "conn_inv s" and "op_post s s'"
  shows "tpost s s'"
  using op_post_inv [OF assms] assms(2) by (intro still_tpost) (auto simp: op_post_def)

section \<open>Every action keeps the invariant\<close>

definition progress :: "World \<Rightarrow> World \<Rightarrow> bool" where
  "progress s s' \<longleftrightarrow> stage (state s) \<le> stage (state s') \<and>
     (\<exists>w. wire s' = wire s @ w) \<and> (\<exists>a. accepted s' = accepted s @ a)"

lemma progress_refl [simp]: "progress s s"
  by (simp add: progress_def)

lemma progress_trans: "progress s1 s2 \<Longrightarrow> progress s2 s3 \<Longrightarrow> progress s1 s3"
  unfolding progress_def by (elim conjE exE) simp

lemma advance_progress: "advance s s' \<Longrightarrow> progress s s'"
  by (simp add: advance_def progress_def)

lemma tpost_run:
  assumes "run_inv s" and "tpost s s'"
  shows "run_inv s' \<and> progress s s'"
  using tpost_run_inv [OF assms] assms(2) by (simp add: tpost_def advance_progress)

lemma conn_inv_frame [simp]:
  "conn_inv (s\<lparr>eventHandling_loop := b\<rparr>) = conn_inv s"
  "conn_inv (s\<lparr>pendingFunctors := q\<rparr>) = conn_inv s"
  "conn_inv (s\<lparr>destroyRequests := n\<rparr>) = conn_inv s"
  "conn_inv (s\<lparr>delayedCloses := n\<rparr>) = conn_inv s"
  "conn_inv (s\<lparr>wakeupCount := m\<rparr>) = conn_inv s"
  by (simp_all add: conn_inv_def conn_core_def chan_state_def epoll_inv_def calls_ok_def lifecycle_def)

lemma event_run:
  assumes "env_ok E" and "user_ok E" and "run_inv s" and "legal (Event x r) s"
  shows "\<exists>s'. perform E (Event x r) s = Inr s' \<and> run_inv s' \<and> progress s s'"
proof -
  let ?s = "s\<lparr>eventHandling_loop := True\<rparr>"
  have i: "conn_inv ?s" "up ?s" "readv_ok (reads x) ?s"
    using assms(3,4) readv_ok_reads [of s x] by (simp_all add: run_inv_def up_def readv_ok_def)
  obtain t where t: "channel_event E (reads x) r ?s = Inr t" "conn_inv t" "advance ?s t" "channels t = channels ?s"
    "owed t = owed ?s" "map_option fd (heap t (channel t)) = map_option fd (heap ?s (channel ?s))"
    "map_option eventHandling (heap t (channel t)) = Some False"
    using channel_event_inv [OF assms(1,2) i(1,2) _ i(3), of r] assms(4) by auto
  have "up s" using assms(4) by simp
  have "state t \<noteq> kConnecting" using t(3) \<open>up s\<close> by (cases "state t") (auto simp: advance_def up_def)
  then have "tpost s (t\<lparr>eventHandling_loop := False\<rparr>)"
    using t(2-7) assms(3) \<open>up s\<close> by (auto simp: tpost_def run_inv_def advance_def grows_def owed_def up_def)
  with tpost_run [OF assms(3)] t(1) show ?thesis by simp
qed

text \<open>The functors the connection queues itself, and \<open>SendInLoop\<close>.\<close>

lemma callUser_tpost:
  assumes "env_ok E" and "user_ok E" and "conn_inv s" and "\<not> lifecycle_call u"
  shows "\<exists>s'. callUser E u s = Inr s' \<and> tpost s s'"
proof -
  obtain s' where s': "callUser E u s = Inr s'" "conn_core s'" "guar s s'" "calls s' = calls s @ [u]"
    "state s' = state s \<or> state s = kConnected \<and> state s' = kDisconnecting"
    using callUser_ok [OF assms(1,2), of s u] assms(3) by (auto simp: conn_inv_def)
  have "calls_ok s'" using calls_ok_same [of s s'] s'(4,5) assms(3,4) by (simp add: conn_inv_def lifecycle_def)
  with s'(2) have "conn_inv s'" by (simp add: conn_inv_def)
  then have "tpost s s'"
    using guar_advance [OF s'(3)] guar_still [OF s'(3)] s'(5) by (intro still_tpost) auto
  with s'(1) show ?thesis by blast
qed

lemma plain_functor:
  assumes "env_ok E" and "user_ok E" and "conn_inv s" and "functor_legal f s" and "state s \<noteq> kConnecting \<or> quiet f"
    and "f \<noteq> ConnectEstablished" and "f \<noteq> ConnectDestroyed"
  shows "\<exists>s'. run_functor E f s = Inr s' \<and> tpost s s'"
proof -
  have c: "conn_core s" using assms(3) by (simp add: conn_inv_def)
  note op = op_post_tpost [OF assms(3)]
  show ?thesis
  proof (cases f)
    case (SendInLoop d)
    then obtain s' where "sendInLoop E d (length d) s = Inr s'" "op_post s s'"
      using sendInLoop_ok [OF assms(1) c, of "length d" d] assms(4,5) by (auto simp: op_post_def)
    with op SendInLoop show ?thesis by auto
  next
    case ShutdownInLoop
    with shutdownInLoop_ok [OF c] op show ?thesis by auto
  next
    case ForceCloseInLoop
    show ?thesis
    proof (cases "up s")
      case True
      obtain s' where "handleClose E s = Inr s'" "conn_inv s'" "advance s s'" "still s s'" "state s' = kDisconnected"
        using handleClose_inv [OF assms(1-3) True] by blast
      with still_tpost [of s' s] True c ForceCloseInLoop show ?thesis by (auto simp: forceCloseInLoop_def up_def)
    next
      case False
      with op [of s] c ForceCloseInLoop show ?thesis by (auto simp: forceCloseInLoop_def up_def)
    qed
  next
    case StartReadInLoop
    with startRead_ok(1) [OF assms(1) c] assms(4) op show ?thesis by (auto simp: up_def)
  next
    case StopReadInLoop
    with startRead_ok(2) [OF assms(1) c] assms(4) op show ?thesis by (auto simp: up_def)
  qed (use callUser_tpost [OF assms(1-3)] assms(6,7) in auto)
qed

lemma run_inv_pop:
  assumes "run_inv s" and "pendingFunctors s = f # fs" and "f \<noteq> ConnectEstablished" and "f \<noteq> ConnectDestroyed"
  shows "run_inv (s\<lparr>pendingFunctors := fs\<rparr>)"
  using assms by (auto simp: run_inv_def queue_inv_def owed_def gone_def registered_def)

lemma established_run:
  assumes "env_ok E" and "user_ok E" and "run_inv s" and "pendingFunctors s = ConnectEstablished # fs"
  shows "\<exists>s'. connectEstablished E (s\<lparr>pendingFunctors := fs\<rparr>) = Inr s' \<and> run_inv s' \<and> progress s s'"
proof -
  let ?s = "s\<lparr>pendingFunctors := fs\<rparr>"
  have st: "state s = kConnecting" "count_list fs ConnectEstablished = 0"
    using assms(3,4) by (auto simp: run_inv_def queue_inv_def split: if_splits)
  have "conn_inv ?s" "state ?s = kConnecting" using assms(3) st by (simp_all add: run_inv_def)
  then obtain s' where s': "connectEstablished E ?s = Inr s'" "conn_inv s'" "advance ?s s'" "up s'"
    "owed s' = owed ?s" "eventHandling_loop s' = eventHandling_loop ?s"
    "map_option eventHandling (heap s' (channel s')) = map_option eventHandling (heap ?s (channel ?s))"
    using connectEstablished_inv [OF assms(1,2)] by blast
  obtain q where q: "pendingFunctors s' = fs @ q" "list_all quiet q"
    using s'(3) by (auto simp: advance_def grows_def)
  have n: "\<not> gone s" "\<not> gone s'" "state s' \<noteq> kConnecting" using st(1) s'(4) by (auto simp: gone_def up_def)
  have "queue_inv s'"
    using q n st assms(3,4) s'(5) count_quiet [OF q(2)] by (auto simp: queue_inv_def run_inv_def owed_def)
  moreover have "progress s s'" using s'(3) by (simp add: progress_def advance_def)
  ultimately show ?thesis using s'(1,2,6,7) assms(3) by (auto simp: run_inv_def)
qed

lemma destroyed_run:
  assumes "env_ok E" and "user_ok E" and "conn_inv s" and "state s = kConnected \<or> state s = kDisconnected"
    and "registered s" and "\<not> eventHandling_loop s" and "map_option eventHandling (heap s (channel s)) = Some False"
    and "destroyRequests s = 0" and "count_list (pendingFunctors s) ConnectDestroyed = 0"
    and "count_list (pendingFunctors s) ConnectEstablished = 0"
  shows "\<exists>s'. connectDestroyed E s = Inr s' \<and> run_inv s' \<and> progress s s' \<and> gone s'"
proof -
  obtain c where c: "heap s (channel s) = Some c" "channels s (fd c) = Some (channel s)" "\<not> eventHandling c"
    using assms(5,7) by (auto simp: registered_def)
  obtain s' c' where s': "connectDestroyed E s = Inr s'" "conn_inv s'" "advance s s'" "state s' = kDisconnected"
    "destroyRequests s' = destroyRequests s" "\<not> eventHandling_loop s'" "heap s' (channel s') = Some c'"
    "channels s' (fd c') = None" "\<not> eventHandling c'"
    using connectDestroyed_inv [OF assms(1-4) c(1,2) assms(6)] c(3) by auto
  have g: "gone s'" using s'(4,7,8) by (simp add: gone_def registered_def)
  obtain q where q: "pendingFunctors s' = pendingFunctors s @ q" "list_all quiet q"
    using s'(3) by (auto simp: advance_def grows_def)
  have "queue_inv s'"
    using q g s'(4,5) assms(8-10) count_quiet [OF q(2)] by (simp add: queue_inv_def owed_def)
  with s' g show ?thesis by (auto simp: run_inv_def intro: advance_progress)
qed

lemma functor_run:
  assumes "env_ok E" and "user_ok E" and "run_inv s" and "legal Functor s"
  shows "\<exists>s'. perform E Functor s = Inr s' \<and> run_inv s' \<and> progress s s'"
proof (cases "pendingFunctors s")
  case Nil
  with assms(3) show ?thesis by simp
next
  case (Cons f fs)
  let ?s = "s\<lparr>pendingFunctors := fs\<rparr>"
  have p: "progress s s' \<longleftrightarrow> progress ?s s'" for s' by (simp add: progress_def)
  consider "f = ConnectEstablished" | "f = ConnectDestroyed" | "f \<noteq> ConnectEstablished" "f \<noteq> ConnectDestroyed" by blast
  then show ?thesis
  proof cases
    case 1
    with established_run [OF assms(1-3)] Cons show ?thesis by simp
  next
    case 2
    have o: "state s = kDisconnected" "destroyRequests s = 0" "count_list fs ConnectDestroyed = 0" "\<not> gone s"
      "count_list fs ConnectEstablished = 0"
      using assms(3) Cons 2 by (auto simp: run_inv_def queue_inv_def owed_def split: if_splits)
    then have "registered ?s" by (simp add: gone_def registered_def)
    with o assms(3) destroyed_run [OF assms(1,2), of ?s] 2 Cons p show ?thesis by (auto simp: run_inv_def)
  next
    case 3
    have "state s \<noteq> kConnecting \<or> quiet f"
      using assms(3) Cons 3 by (cases f) (auto simp: run_inv_def queue_inv_def)
    moreover have "functor_legal f ?s" using assms(4) Cons by (cases f) (auto simp: up_def)
    moreover note r = run_inv_pop [OF assms(3) Cons 3]
    ultimately obtain s' where "run_functor E f ?s = Inr s'" "tpost ?s s'"
      using plain_functor [OF assms(1,2), of ?s f] 3 by (auto simp: run_inv_def)
    with tpost_run [OF r] Cons p show ?thesis by auto
  qed
qed

text \<open>A call from another thread, and \<open>forceClose\<close> from a timer, only set the state and queue.\<close>

abbreviation (input) queued :: "nat \<Rightarrow> conn_functor list \<Rightarrow> StateE \<Rightarrow> nat \<Rightarrow> World \<Rightarrow> World" where
  "queued w q st n s \<equiv>
     s\<lparr>wakeupCount := w, pendingFunctors := pendingFunctors s @ q, state := st, delayedCloses := n\<rparr>"

definition may_queue :: "World \<Rightarrow> conn_functor \<Rightarrow> bool" where
  "may_queue s f \<longleftrightarrow> quiet f \<or> (\<exists>d. f = SendInLoop d) \<and> state s = kConnected"

lemma queued_run:
  assumes "run_inv s" and "list_all (may_queue s) q" and "st = state s \<or> up s \<and> st = kDisconnecting"
  shows "run_inv (queued w q st n s) \<and> progress s (queued w q st n s)"
proof -
  have st: "st = kConnecting \<longleftrightarrow> state s = kConnecting" "st = kDisconnected \<longleftrightarrow> state s = kDisconnected"
    using assms(3) by (auto simp: up_def)
  have "conn_inv (s\<lparr>state := st\<rparr>)"
    using assms(3)
  proof
    assume "up s \<and> st = kDisconnecting"
    then show ?thesis
      using assms(1) setState_disconnecting [of s] op_post_inv(1) [of s "s\<lparr>state := st\<rparr>"]
      by (auto simp: run_inv_def conn_inv_def up_def setState_def)
  qed (use assms(1) in \<open>simp add: run_inv_def\<close>)
  then have i: "conn_inv (queued w q st n s)"
    by (simp add: conn_inv_def conn_core_def chan_state_def epoll_inv_def calls_ok_def lifecycle_def)
  have q: "count_list q ConnectEstablished = 0" "count_list q ConnectDestroyed = 0"
    using assms(2) by (auto simp: list_all_iff may_queue_def count_list_0_iff)
  have send: "state s = kConnected" if "SendInLoop d \<in> set q" for d
    using assms(2) that by (auto simp: list_all_iff may_queue_def)
  have "owed (queued w q st n s) = owed s" "gone (queued w q st n s) = gone s"
    using st by (simp_all add: owed_def gone_def registered_def)
  then have "queue_inv (queued w q st n s)"
    using assms(1) q send st by (auto simp: run_inv_def queue_inv_def)
  moreover have "stage (state s) \<le> stage st" using assms(3) by (auto simp: up_def)
  ultimately show ?thesis using i assms(1) by (simp add: run_inv_def progress_def)
qed

lemma call_from_queued:
  assumes "threadId s = tid s" and "legal (CallFrom t a) s"
  shows "\<exists>w q st n. perform E (CallFrom t a) s = Inr (queued w q st n s) \<and> list_all (may_queue s) q \<and>
    (st = state s \<or> up s \<and> st = kDisconnecting)"
proof -
  note unf = send_def shutdown_def forceClose_def forceCloseWithDelay_def startRead_def stopRead_def
    runInLoop_def queueInLoop_def isInLoopThread_def wakeup_def setState_def may_queue_def up_def
  have t: "threadId s \<noteq> t" using assms(2) by simp
  let ?w = "wakeupCount s + 1"
  show ?thesis
  proof (cases a)
    case (ApiSend d)
    with t show ?thesis
      by (intro exI [of _ "if state s = kConnected then ?w else wakeupCount s"]
          exI [of _ "if state s = kConnected then [SendInLoop d] else []"]
          exI [of _ "state s"] exI [of _ "delayedCloses s"]) (simp add: unf)
  next
    case ApiShutdown
    with t show ?thesis
      by (intro exI [of _ "if state s = kConnected then ?w else wakeupCount s"]
          exI [of _ "if state s = kConnected then [ShutdownInLoop] else []"]
          exI [of _ "if state s = kConnected then kDisconnecting else state s"]
          exI [of _ "delayedCloses s"]) (simp add: unf)
  next
    case ApiForceClose
    with t show ?thesis
      by (intro exI [of _ "if up s then ?w else wakeupCount s"] exI [of _ "if up s then [ForceCloseInLoop] else []"]
          exI [of _ "if up s then kDisconnecting else state s"] exI [of _ "delayedCloses s"]) (simp add: unf)
  next
    case ApiForceCloseWithDelay
    with t show ?thesis
      by (intro exI [of _ "wakeupCount s"] exI [of _ "[]"] exI [of _ "if up s then kDisconnecting else state s"]
          exI [of _ "if up s then delayedCloses s + 1 else delayedCloses s"]) (simp add: unf)
  next
    case ApiStartRead
    with t show ?thesis
      by (intro exI [of _ ?w] exI [of _ "[StartReadInLoop]"] exI [of _ "state s"] exI [of _ "delayedCloses s"])
        (simp add: unf)
  next
    case ApiStopRead
    with t show ?thesis
      by (intro exI [of _ ?w] exI [of _ "[StopReadInLoop]"] exI [of _ "state s"] exI [of _ "delayedCloses s"])
        (simp add: unf)
  next
    case (ApiRetrieve n)
    with assms(2) show ?thesis by simp
  qed
qed

lemma owner_run:
  assumes "run_inv s" and "legal OwnerDestroys s"
  shows "\<exists>s'. perform E OwnerDestroys s = Inr s' \<and> run_inv s' \<and> progress s s'"
proof -
  let ?s = "s\<lparr>destroyRequests := destroyRequests s - 1\<rparr>"
  obtain w where w: "queueInLoop ConnectDestroyed ?s =
      ?s\<lparr>wakeupCount := w, pendingFunctors := pendingFunctors ?s @ [ConnectDestroyed]\<rparr>"
    using queueInLoop_eq [of ConnectDestroyed ?s] by blast
  have "queue_inv (queueInLoop ConnectDestroyed ?s)"
    using assms unfolding w
    by (auto simp: run_inv_def queue_inv_def owed_def gone_def registered_def split: if_splits)
  moreover have "conn_inv (queueInLoop ConnectDestroyed ?s)" using assms(1) unfolding w by (simp add: run_inv_def)
  ultimately show ?thesis
    using assms(1) unfolding perform.simps w by (simp add: run_inv_def progress_def)
qed

lemma delay_run:
  assumes "run_inv s"
  shows "\<exists>s'. perform E DelayExpires s = Inr s' \<and> run_inv s' \<and> progress s s'"
proof -
  let ?s = "s\<lparr>delayedCloses := delayedCloses s - 1\<rparr>"
  have r: "run_inv ?s" using assms by (simp add: run_inv_def queue_inv_def owed_def gone_def registered_def)
  then have "op_post ?s (forceClose ?s)" using forceClose_ok(1) [of ?s] by (simp add: run_inv_def conn_inv_def)
  with tpost_run [OF r] op_post_tpost [of ?s] r show ?thesis by (auto simp: run_inv_def progress_def)
qed

lemma destroy_now_run:
  assumes "env_ok E" and "user_ok E" and "run_inv s" and "legal DestroyNow s"
  shows "\<exists>s'. perform E DestroyNow s = Inr s' \<and> run_inv s' \<and> progress s s'"
proof -
  have st: "state s = kConnected" using assms(4) by simp
  then have "registered s" using assms(3) up_registered [of s] by (auto simp: run_inv_def registered_def up_def)
  moreover have "destroyRequests s = 0" "count_list (pendingFunctors s) ConnectDestroyed = 0"
    "count_list (pendingFunctors s) ConnectEstablished = 0"
    using assms(3) st by (auto simp: run_inv_def queue_inv_def owed_def split: if_splits)
  ultimately show ?thesis using destroyed_run [OF assms(1,2), of s] assms(3) st by (auto simp: run_inv_def)
qed

lemma perform_run:
  assumes "env_ok E" and "user_ok E" and "run_inv s" and "legal a s"
  shows "\<exists>s'. perform E a s = Inr s' \<and> run_inv s' \<and> progress s s'"
proof (cases a)
  case (Call b)
  have c: "conn_inv s" using assms(3) by (simp add: run_inv_def)
  then obtain s' where "run_api E b s = Inr s'" "op_post s s'"
    using run_api_ok [OF assms(1), of s b] assms(4) Call by (auto simp: conn_inv_def)
  with tpost_run [OF assms(3) op_post_tpost [OF c]] Call show ?thesis by auto
next
  case (CallFrom t b)
  have "threadId s = tid s" using assms(3) by (simp add: run_inv_def conn_inv_def conn_core_def)
  then obtain w q st n where "perform E (CallFrom t b) s = Inr (queued w q st n s)"
    "list_all (may_queue s) q" "st = state s \<or> up s \<and> st = kDisconnecting"
    using call_from_queued [of s t b E] assms(4) CallFrom by blast
  with queued_run [OF assms(3)] CallFrom show ?thesis by blast
qed (use assms event_run functor_run owner_run delay_run destroy_now_run in blast)+

lemma acts_run:
  assumes "env_ok E" and "user_ok E" and "run_inv s" and "legal_acts E as s"
  shows "\<exists>s'. foldR (perform E) as s = Inr s' \<and> run_inv s' \<and> progress s s'"
  using assms(3,4)
proof (induction as arbitrary: s)
  case (Cons a as)
  then obtain s1 where s1: "perform E a s = Inr s1" "run_inv s1" "progress s s1"
    using perform_run [OF assms(1,2), of s a] by auto
  with Cons obtain s2 where "foldR (perform E) as s1 = Inr s2" "run_inv s2" "progress s1 s2" by auto
  with s1 progress_trans [of s s1 s2] show ?case by simp
qed simp

lemma newConnection_inv:
  assumes "loop_ready l p sockfd"
  shows "run_inv (newConnection l p sockfd wc hw mark)"
proof -
  let ?s = "(TcpConnection_new l p sockfd)
    \<lparr>writeCompleteCallback := wc, highWaterMarkCallback := hw, highWaterMark := mark\<rparr>"
  note unf = TcpConnection_new_def EventLoop.defs World.defs
  obtain w where w: "newConnection l p sockfd wc hw mark =
      ?s\<lparr>wakeupCount := w, pendingFunctors := [ConnectEstablished]\<rparr>"
    using queueInLoop_eq [of ConnectEstablished ?s] assms
    by (auto simp: newConnection_def loop_ready_def unf)
  have "q \<noteq> p" if "channels l k = Some q" for k q
    using epoll_invD [of l k q] that assms by (auto simp: loop_ready_def)
  then have "epoll_inv ?s" using assms by (auto simp: epoll_inv_def loop_ready_def unf)
  then have "conn_inv ?s"
    using assms by (simp add: conn_inv_def conn_core_def chan_state_def calls_ok_def lifecycle_def loop_ready_def
        unf Channel_new_def kNew_def emptyBuffer_inv)
  then have "conn_inv (?s\<lparr>wakeupCount := w, pendingFunctors := [ConnectEstablished]\<rparr>)" by simp
  moreover have "queue_inv (?s\<lparr>wakeupCount := w, pendingFunctors := [ConnectEstablished]\<rparr>)"
    by (simp add: queue_inv_def owed_def gone_def unf)
  moreover have "\<not> eventHandling_loop ?s" "map_option eventHandling (heap ?s (channel ?s)) = Some False"
    using assms by (simp_all add: unf loop_ready_def Channel_new_def)
  ultimately show ?thesis unfolding w by (simp add: run_inv_def)
qed

section \<open>Draining the output\<close>

lemma write_event:
  assumes "env_ok E" and "conn_inv s" and "up s" and "content (outputBuffer s) \<noteq> []"
    and "e_write E (writeCalls s) (content (outputBuffer s)) = Inr n" and "0 < n"
  shows "\<exists>s'. perform E (Event x POLLOUT) s = Inr s' \<and> conn_inv s' \<and> state s' = state s \<and>
    accepted s' = accepted s \<and> content (outputBuffer s') = drop n (content (outputBuffer s)) \<and>
    (content (outputBuffer s') = [] \<and> state s = kDisconnecting \<longrightarrow> writeShut s')"
proof -
  obtain c where c: "heap s (channel s) = Some c" using assms(2) by (auto simp: conn_inv_def conn_core_def)
  let ?c = "c\<lparr>revents := POLLOUT, eventHandling := True\<rparr>"
  let ?s = "s\<lparr>eventHandling_loop := True, heap := (heap s)(channel s \<mapsto> ?c)\<rparr>"
  have i: "conn_inv ?s" using conn_inv_chan [of "s\<lparr>eventHandling_loop := True\<rparr>" c ?c] assms(2) c by simp
  obtain t where t: "handleWrite E ?s = Inr t" "op_post ?s t" "state t = state s" "accepted t = accepted s"
    "content (outputBuffer t) = drop n (content (outputBuffer s))"
    "content (outputBuffer t) = [] \<and> state s = kDisconnecting \<longrightarrow> writeShut t"
    using handleWrite_ok [OF assms(1), of ?s] i assms(3-6) by (auto simp: conn_inv_def up_def)
  have it: "conn_inv t" "advance ?s t" "still ?s t" using op_post_inv [OF i t(2)] by auto
  then obtain d where d: "heap t (channel t) = Some d" "channel t = channel s"
    by (auto simp: still_def advance_def)
  let ?t = "t\<lparr>heap := (heap t)(channel t \<mapsto> d\<lparr>eventHandling := False\<rparr>)\<rparr>"
  have "channel_event E (reads x) POLLOUT (s\<lparr>eventHandling_loop := True\<rparr>) = Inr ?t"
    using c t(1) d
    by (simp add: channel_event_def handleEvent_def handleEventWithGuard_def when_revents_def call_def poll_flags)
  moreover have "conn_inv ?t" by (rule conn_inv_chan [OF it(1) d(1)]) simp_all
  then have "conn_inv (?t\<lparr>eventHandling_loop := False\<rparr>)" by (simp only: conn_inv_frame)
  ultimately show ?thesis using t(3-6) by simp
qed

lemma drain:
  assumes "env_ok E" and "\<forall>i d. \<exists>n. d \<noteq> [] \<longrightarrow> e_write E i d = Inr n \<and> 0 < n"
    and "conn_inv s" and "state s = kDisconnecting" and "content (outputBuffer s) \<noteq> []"
  shows "\<exists>k s'. k \<le> length (content (outputBuffer s)) \<and>
    foldR (perform E) (replicate k (Event x POLLOUT)) s = Inr s' \<and>
    wire s' = accepted s \<and> accepted s' = accepted s \<and> writeShut s'"
  using assms(3-5)
proof (induction "length (content (outputBuffer s))" arbitrary: s rule: less_induct)
  case less
  obtain n where n: "e_write E (writeCalls s) (content (outputBuffer s)) = Inr n" "0 < n"
    using assms(2) less.prems(3) by blast
  have "up s" using less.prems(2) by (simp add: up_def)
  then obtain t where t: "perform E (Event x POLLOUT) s = Inr t" "conn_inv t" "state t = kDisconnecting"
    "accepted t = accepted s" "content (outputBuffer t) = drop n (content (outputBuffer s))"
    "content (outputBuffer t) = [] \<longrightarrow> writeShut t"
    using write_event [OF assms(1) less.prems(1) _ less.prems(3) n, of x] less.prems(2)
    unfolding less.prems(2) by blast
  show ?case
  proof (cases "content (outputBuffer t) = []")
    case True
    moreover have "wire t @ content (outputBuffer t) = accepted t"
      using t(2) by (simp add: conn_inv_def conn_core_def)
    ultimately show ?thesis
      using t(1,4,6) less.prems(3)
      by (intro exI [of _ 1] exI [of _ t]) (auto simp: Suc_le_eq simp del: perform.simps)
  next
    case False
    have lt: "length (content (outputBuffer t)) < length (content (outputBuffer s))"
      using t(5) n(2) less.prems(3) by simp
    obtain k s' where "k \<le> length (content (outputBuffer t))"
      "foldR (perform E) (replicate k (Event x POLLOUT)) t = Inr s'"
      "wire s' = accepted s" "accepted s' = accepted s" "writeShut s'"
      using less.hyps [OF lt t(2,3) False] t(4) by auto
    with t(1) lt show ?thesis
      by (intro exI [of _ "Suc k"] exI [of _ s']) (simp del: perform.simps)
  qed
qed

section \<open>An echo server\<close>

text \<open>
  A concrete environment: the user sends back what it has read, the kernel takes one byte
  per \<open>write\<close>.
\<close>

definition echo :: "ucall \<Rightarrow> World \<Rightarrow> api list" where
  "echo u s = (if u = MessageCallback \<and> length (content (inputBuffer s)) \<le> room (outputBuffer s)
     then [ApiSend (content (inputBuffer s)), ApiRetrieve (length (content (inputBuffer s)))] else [])"

definition ex_env :: Env where
  "ex_env = \<lparr>e_ctl = linux_epoll_ctl, e_write = (\<lambda>i d. Inr (min 1 (length d))), e_user = echo\<rparr>"

lemma ex_env_ok: "env_ok ex_env"
  using linux.epoll_kernel_axioms by (simp add: env_ok_def write_spec_def ex_env_def)

lemma ex_user_ok: "user_ok ex_env"
proof -
  have "script_ok ex_env (e_user ex_env u s) (s\<lparr>calls := calls s @ [u]\<rparr>)" if "conn_core s" for u s
  proof (cases "u = MessageCallback \<and> length (content (inputBuffer s)) \<le> room (outputBuffer s)")
    case True
    let ?s = "s\<lparr>calls := calls s @ [u]\<rparr>" and ?d = "content (inputBuffer s)"
    have c: "conn_core ?s" using that by simp
    have "\<exists>s'. send ex_env ?d ?s = Inr s' \<and> inputBuffer s' = inputBuffer s \<and> conn_core s'"
      using sendInLoop_ok [OF ex_env_ok c, of "length ?d" ?d] True c that
      by (cases "state s = kConnected") (auto simp: send_def)
    then obtain s' where s': "send ex_env ?d ?s = Inr s'" "inputBuffer s' = inputBuffer s" "conn_core s'" by blast
    have b: "buf_inv (inputBuffer s)" using that by (simp add: conn_core_def)
    have "e_user ex_env u s = [ApiSend ?d, ApiRetrieve (length ?d)]"
      using True by (simp add: ex_env_def echo_def)
    moreover have "length ?d = readableBytes (inputBuffer s)" using length_content [OF b] .
    ultimately show ?thesis
      using s' True run_api_ok [OF ex_env_ok s'(3), of "ApiRetrieve (length ?d)"] by auto
  next
    case False
    then show ?thesis by (auto simp: ex_env_def echo_def)
  qed
  then show ?thesis by (simp add: user_ok_def)
qed

definition ex_loop :: "conn_functor EventLoop" where
  "ex_loop = \<lparr>self = 0, threadId = 1, tid = 1, heap = Map.empty, channels = Map.empty,
     eventHandling_loop = False, activeChannels = [], currentActiveChannel = None,
     epoll = Map.empty, eventsSize = kInitEventListSize, looping = True, quit = False,
     callingPendingFunctors = False, iteration = 0, wakeupFd = 4, wakeupChannel = 0, wakeupCount = 0,
     pendingFunctors = []\<rparr>"

lemma ex_loop_ready: "loop_ready ex_loop 7 5"
  by (simp add: loop_ready_def ex_loop_def epoll_inv_def)

section \<open>Properties\<close>

lemma calls_ok_lifecycle:
  "calls_ok s \<Longrightarrow> lifecycle s = [] \<and> state s = kConnecting \<or>
     lifecycle s = [ConnectionCallback True] \<and> up s \<or>
     lifecycle s = [ConnectionCallback True, ConnectionCallback False] \<and> state s = kDisconnected \<or>
     lifecycle s = [ConnectionCallback True, ConnectionCallback False, CloseCallback] \<and> state s = kDisconnected"
  by (cases "state s") (auto simp: calls_ok_def up_def)

text \<open>
  \<^bold>\<open>C1\<close>. In every legal run of a connection, with any user callbacks that keep to the
  contract and any interleaving of events, queued functors and calls from other threads,
  no assertion fails and no byte is lost, duplicated or reordered: the bytes given to the
  kernel followed by the output buffer are exactly the data accepted by \<open>sendInLoop\<close>. While
  the connection is up its channel is registered, asks for write events exactly when output is
  pending and for read events exactly when reading is on.
\<close>

theorem tcp_stream:
  assumes "env_ok E" and "user_ok E" and "loop_ready l p sockfd"
    and "legal_acts E as (newConnection l p sockfd wc hw mark)"
  shows "\<exists>s. foldR (perform E) as (newConnection l p sockfd wc hw mark) = Inr s \<and>
    wire s @ content (outputBuffer s) = accepted s \<and>
    (up s \<longrightarrow> (\<exists>c. heap s (channel s) = Some c \<and> channels s (fd c) = Some (channel s) \<and>
       (isWriting c \<longleftrightarrow> content (outputBuffer s) \<noteq> []) \<and> (isReading c \<longleftrightarrow> reading s)))"
proof -
  obtain s where s: "foldR (perform E) as (newConnection l p sockfd wc hw mark) = Inr s" "run_inv s"
    using acts_run [OF assms(1,2) newConnection_inv [OF assms(3)] assms(4)] by blast
  from s(2) obtain c where c: "heap s (channel s) = Some c" "chan_state s c"
    "wire s @ content (outputBuffer s) = accepted s"
    by (auto simp: run_inv_def conn_inv_def conn_core_def)
  with s(1) show ?thesis by (auto simp: chan_state_def up_def)
qed

text \<open>
  The runs of the witnesses: a connection that is established, closed by force and destroyed;
  one that sends and shuts down with output pending; one that stops reading.
\<close>

definition ex_conn :: World where
  "ex_conn = newConnection ex_loop 7 5 False False 64"

definition ex_acts :: "action list" where
  "ex_acts = [Functor, CallFrom 2 ApiForceClose, Functor, OwnerDestroys, Functor]"

definition ex_shutdown_acts :: "action list" where
  "ex_shutdown_acts = [Functor, Call (ApiSend ''hi''), Call ApiShutdown]"

lemma bindR_weak_cong: "m = m' \<Longrightarrow> bindR m f = bindR m' f"
  by simp

lemmas ex_conn_simps = ex_conn_def newConnection_def queueInLoop_def TcpConnection_new_def EventLoop.defs
  World.defs ex_loop_def isInLoopThread_def wakeup_def connectEstablished_def setState_def Channel_tie_def
  Channel_new_def enableReading_def Channel_update_def EventLoop_updateChannel_def EPollPoller_updateChannel_def
  EPollPoller_update_def ex_env_def connectionCallback_def callUser_def echo_def connected_def kNew_def
  kAdded_def kDeleted_def poll_flags isNoneEvent_def

lemmas ex_send_simps = Let_def emptyBuffer_def sub_size_def sendInLoop_rest_def append_data_def
  ensureWritableBytes_def buf_sizes kCheapPrepend_def kInitialSize_def hasWritten_def overwrite_def

lemmas ex_write_simps = isWritingNow_def isWriting_def poll_flags enableWriting_def Channel_update_def
  EventLoop_updateChannel_def EPollPoller_updateChannel_def EPollPoller_update_def kAdded_def kDeleted_def
  kNew_def isNoneEvent_def

lemma ex_acts_legal: "legal_acts ex_env ex_acts ex_conn"
  by (simp add: ex_acts_def ex_conn_simps forceClose_def forceCloseInLoop_def handleClose_def disableAll_def
      closeCallback_def split: sum.split)

lemma ex_shutdown_run:
  "\<exists>s. foldR (perform ex_env) ex_shutdown_acts ex_conn = Inr s \<and> state s = kDisconnecting \<and>
    content (outputBuffer s) = ''i'' \<and> accepted s = ''hi''"
  unfolding ex_shutdown_acts_def
  apply (simp add: ex_conn_simps send_def cong: bindR_weak_cong)
  apply (simp add: sendInLoop_def sendInLoop_write_def isWritingNow_def isWriting_def sys_write_def poll_flags
      cong: bindR_weak_cong)
  apply (simp add: ex_send_simps cong: bindR_weak_cong)
  apply (simp add: ex_write_simps cong: bindR_weak_cong)
  apply (simp add: shutdown_def runInLoop_def isInLoopThread_def setState_def shutdownInLoop_def isWritingNow_def
      isWriting_def poll_flags content_def range_of_def)
  done

theorem tcp_stream_witness:
  "\<exists>s. foldR (perform ex_env) ex_acts (newConnection ex_loop 7 5 False False 64) = Inr s \<and>
    wire s @ content (outputBuffer s) = accepted s \<and>
    (up s \<longrightarrow> (\<exists>c. heap s (channel s) = Some c \<and> channels s (fd c) = Some (channel s) \<and>
       (isWriting c \<longleftrightarrow> content (outputBuffer s) \<noteq> []) \<and> (isReading c \<longleftrightarrow> reading s)))"
  by (rule tcp_stream [OF ex_env_ok ex_user_ok ex_loop_ready ex_acts_legal [unfolded ex_conn_def]])

text \<open>
  \<^bold>\<open>C13\<close>. The connection's life: in every legal run the connection callback is called once when
  the connection comes up and once when it goes down, the close callback at most once and only
  after that, and the callbacks made so far match the state; the state only moves from connecting
  through connected and disconnecting to disconnected, and bytes on the wire are never taken
  back.
\<close>

theorem tcp_lifecycle:
  assumes "env_ok E" and "user_ok E" and "loop_ready l p sockfd"
    and "legal_acts E as (newConnection l p sockfd wc hw mark)"
    and "foldR (perform E) as (newConnection l p sockfd wc hw mark) = Inr s" and "legal_acts E bs s"
  shows "\<exists>s'. foldR (perform E) bs s = Inr s' \<and> stage (state s) \<le> stage (state s') \<and>
    (\<exists>w. wire s' = wire s @ w) \<and>
    (lifecycle s' = [] \<and> state s' = kConnecting \<or>
     lifecycle s' = [ConnectionCallback True] \<and> up s' \<or>
     lifecycle s' = [ConnectionCallback True, ConnectionCallback False] \<and> state s' = kDisconnected \<or>
     lifecycle s' = [ConnectionCallback True, ConnectionCallback False, CloseCallback] \<and> state s' = kDisconnected)"
proof -
  have "run_inv s" using acts_run [OF assms(1,2) newConnection_inv [OF assms(3)] assms(4)] assms(5) by auto
  then obtain s' where s': "foldR (perform E) bs s = Inr s'" "run_inv s'" "progress s s'"
    using acts_run [OF assms(1,2) _ assms(6)] by blast
  then have "calls_ok s'" by (simp add: run_inv_def conn_inv_def)
  from calls_ok_lifecycle [OF this] s' show ?thesis by (auto simp: progress_def)
qed

lemma ex_init_legal: "legal_acts ex_env [] ex_conn" "foldR (perform ex_env) [] ex_conn = Inr ex_conn"
  by simp_all

theorem tcp_lifecycle_witness:
  "\<exists>s'. foldR (perform ex_env) ex_acts ex_conn = Inr s' \<and> stage (state ex_conn) \<le> stage (state s') \<and>
    (\<exists>w. wire s' = wire ex_conn @ w) \<and>
    (lifecycle s' = [] \<and> state s' = kConnecting \<or>
     lifecycle s' = [ConnectionCallback True] \<and> up s' \<or>
     lifecycle s' = [ConnectionCallback True, ConnectionCallback False] \<and> state s' = kDisconnected \<or>
     lifecycle s' = [ConnectionCallback True, ConnectionCallback False, CloseCallback] \<and> state s' = kDisconnected)"
  by (rule tcp_lifecycle [OF ex_env_ok ex_user_ok ex_loop_ready
        ex_init_legal [unfolded ex_conn_def] ex_acts_legal [unfolded ex_conn_def], folded ex_conn_def])

text \<open>
  \<^bold>\<open>C17\<close>. The end of the connection: once it is disconnected, the owner has answered every
  close callback and no \<open>connectDestroyed\<close> is queued, the channel is out of the poller and the
  destructors of connection and channel pass all their assertions.
\<close>

theorem tcp_destroyed:
  assumes "env_ok E" and "user_ok E" and "loop_ready l p sockfd"
    and "legal_acts E as (newConnection l p sockfd wc hw mark)"
    and "foldR (perform E) as (newConnection l p sockfd wc hw mark) = Inr s"
    and "state s = kDisconnected" and "destroyRequests s = 0" and "ConnectDestroyed \<notin> set (pendingFunctors s)"
  shows "(\<exists>c. heap s (channel s) = Some c \<and> channels s (fd c) \<noteq> Some (channel s)) \<and>
    TcpConnection_dtor s = Inr (s\<lparr>heap := (heap s)(channel s := None)\<rparr>)"
proof -
  have r: "run_inv s" using acts_run [OF assms(1,2) newConnection_inv [OF assms(3)] assms(4)] assms(5) by auto
  moreover have "count_list (pendingFunctors s) ConnectDestroyed = 0" using assms(8) by (simp add: count_list_0_iff)
  ultimately have g: "gone s"
    using assms(6,7) by (auto simp: run_inv_def queue_inv_def owed_def split: if_splits)
  obtain c where c: "heap s (channel s) = Some c" "ownerLoop c = self s" "\<not> eventHandling c" "threadId s = tid s"
    "addedToLoop c \<longrightarrow> channels s (fd c) = Some (channel s)"
    using r by (auto simp: run_inv_def conn_inv_def conn_core_def)
  then have n: "channels s (fd c) \<noteq> Some (channel s)" using g by (auto simp: gone_def registered_def)
  then have "TcpConnection_dtor s = Inr (s\<lparr>heap := (heap s)(channel s := None)\<rparr>)"
    using c assms(6)
    by (simp add: TcpConnection_dtor_def Channel_dtor_def EventLoop_hasChannel_def Poller_hasChannel_def)
  with c(1) n show ?thesis by blast
qed

lemma ex_acts_run:
  "\<exists>s. foldR (perform ex_env) ex_acts ex_conn = Inr s \<and> state s = kDisconnected \<and> destroyRequests s = 0 \<and>
    pendingFunctors s = []"
  by (simp add: ex_acts_def ex_conn_simps forceClose_def forceCloseInLoop_def handleClose_def disableAll_def
      closeCallback_def connectDestroyed_def Channel_remove_def EventLoop_removeChannel_def
      EPollPoller_removeChannel_def Let_def cong: bindR_weak_cong)

theorem tcp_destroyed_witness:
  "\<exists>s. foldR (perform ex_env) ex_acts (newConnection ex_loop 7 5 False False 64) = Inr s \<and>
    (\<exists>c. heap s (channel s) = Some c \<and> channels s (fd c) \<noteq> Some (channel s)) \<and>
    TcpConnection_dtor s = Inr (s\<lparr>heap := (heap s)(channel s := None)\<rparr>)"
proof -
  from ex_acts_run obtain s where s: "foldR (perform ex_env) ex_acts (newConnection ex_loop 7 5 False False 64) = Inr s"
    "state s = kDisconnected" "destroyRequests s = 0" "ConnectDestroyed \<notin> set (pendingFunctors s)"
    by (auto simp: ex_conn_def)
  from s(1) tcp_destroyed [OF ex_env_ok ex_user_ok ex_loop_ready ex_acts_legal [unfolded ex_conn_def] s]
  show ?thesis by blast
qed

text \<open>
  \<^bold>\<open>C14\<close>. A graceful shutdown loses nothing: from every state a legal run reaches in which the
  connection is being shut down with output pending, if the kernel keeps taking at least one byte
  per \<open>write\<close>, then after at most one write event per pending byte everything accepted is on the
  wire and the write side is shut down.
\<close>

theorem shutdown_drains:
  assumes "env_ok E" and "user_ok E" and "loop_ready l p sockfd"
    and "legal_acts E as (newConnection l p sockfd wc hw mark)"
    and "foldR (perform E) as (newConnection l p sockfd wc hw mark) = Inr s"
    and "state s = kDisconnecting" and "content (outputBuffer s) \<noteq> []"
    and "\<forall>i d. \<exists>n. d \<noteq> [] \<longrightarrow> e_write E i d = Inr n \<and> 0 < n"
  shows "\<exists>k s'. k \<le> length (content (outputBuffer s)) \<and>
    foldR (perform E) (replicate k (Event x POLLOUT)) s = Inr s' \<and>
    wire s' = accepted s \<and> accepted s' = accepted s \<and> writeShut s'"
proof -
  have "conn_inv s"
    using acts_run [OF assms(1,2) newConnection_inv [OF assms(3)] assms(4)] assms(5) by (auto simp: run_inv_def)
  from drain [OF assms(1,8) this assms(6,7)] show ?thesis .
qed

lemma ex_shutdown_legal: "legal_acts ex_env ex_shutdown_acts ex_conn"
proof -
  have "perform ex_env (Call ApiShutdown) s = Inr s' \<Longrightarrow> legal_acts ex_env [] s'" for s s' by simp
  then show ?thesis
    by (simp add: ex_shutdown_acts_def ex_conn_simps emptyBuffer_inv del: One_nat_def cong: bindR_weak_cong
        split: sum.split)
qed

theorem shutdown_drains_witness:
  "\<exists>s k s'. foldR (perform ex_env) ex_shutdown_acts ex_conn = Inr s \<and> k \<le> length (content (outputBuffer s)) \<and>
    foldR (perform ex_env) (replicate k (Event (Inl 11) POLLOUT)) s = Inr s' \<and>
    wire s' = ''hi'' \<and> writeShut s'"
proof -
  obtain s where s: "foldR (perform ex_env) ex_shutdown_acts (newConnection ex_loop 7 5 False False 64) = Inr s"
    "state s = kDisconnecting" "content (outputBuffer s) \<noteq> []" "accepted s = ''hi''"
    using ex_shutdown_run by (auto simp: ex_conn_def)
  have w: "\<forall>i d. \<exists>n. d \<noteq> [] \<longrightarrow> e_write ex_env i d = Inr n \<and> 0 < n"
  proof (intro allI)
    show "\<exists>n. d \<noteq> [] \<longrightarrow> e_write ex_env i d = Inr n \<and> 0 < n" for i d
      by (intro exI [of _ "min 1 (length d)"]) (simp add: ex_env_def)
  qed
  from s(1,4) shutdown_drains [OF ex_env_ok ex_user_ok ex_loop_ready ex_shutdown_legal [unfolded ex_conn_def] s(1-3) w,
      of "Inl 11"]
  show ?thesis by (auto simp: ex_conn_def)
qed

text \<open>
  \<^bold>\<open>C32\<close>. Closing a connection that is not watched (reading stopped, nothing to write) puts its
  descriptor back into the epoll set with an empty mask; a hang-up that epoll then reports
  before \<open>connectDestroyed\<close> has run calls \<open>handleClose\<close> a second time, which fails its
  assertion.
\<close>

theorem close_unwatched:
  assumes "env_ok E" and "user_ok E" and "conn_inv s" and "up s" and "heap s (channel s) = Some c"
    and "events c = 0" and "epoll s (fd c) = None"
  shows "\<exists>s'. handleClose E s = Inr s' \<and> epoll s' (fd c) = Some (0, channel s') \<and>
    channel_event E readv POLLHUP s' = Inl AssertFailed"
proof -
  let ?s = "setState kDisconnected s"
  have ch: "channels s (fd c) = Some (channel s)" by (rule up_registered [OF assms(3-5)])
  have e: "epoll_inv ?s" "threadId ?s = tid ?s" "heap ?s (channel s) = Some c" "channels ?s (fd c) = Some (channel s)"
    using assms(3,5) ch by (simp_all add: conn_inv_def conn_core_def setState_def epoll_inv_def)
  have E: "epoll_kernel (e_ctl E)" using assms(1) by (simp add: env_ok_def)
  have up: "state s = kConnected \<or> state s = kDisconnecting" and core: "conn_core s"
    using assms(3,4) by (simp_all add: up_def conn_inv_def)
  obtain s1 where s1: "disableAll (upd E) (channel s) ?s = Inr s1" "conn_core s1" "channel s1 = channel s"
    "state s1 = kDisconnected"
    using disableAll_world [OF assms(1) core up] by (auto simp: advance_def)
  have k: "epoll s1 (fd c) = Some (0, channel s)"
    using s1(1) interest_ops(5) [OF e(3), of "upd E"] epoll_kernel.epoll_update_zero [OF E e assms(6)] assms(7)
    by (auto simp: setState_def)
  obtain s2 where s2: "connectionCallback E s1 = Inr s2" "conn_core s2" "guar s1 s2" "state s2 = kDisconnected"
    using callUser_ok [OF assms(1,2) s1(2), of "ConnectionCallback (connected s1)"] s1(4)
    by (auto simp: connectionCallback_def)
  have "epoll s2 = epoll s1" "channel s2 = channel s" using s2(3) s1(3,4) by (simp_all add: guar_def fixed_def)
  moreover obtain d where d: "heap s2 (channel s2) = Some d" using conn_coreD [OF s2(2)] by blast
  moreover have "threadId s2 = tid s2" using s2(2) by (simp add: conn_core_def)
  then have "channel_event E readv POLLHUP (closeCallback s2) = Inl AssertFailed"
    using d s2(4)
    by (simp add: channel_event_def handleEvent_def handleEventWithGuard_def when_revents_def call_def poll_flags
        closeCallback_def handleClose_def assertR_def)
  moreover have "handleClose E s = Inr (closeCallback s2)"
    using s1(1) s2(1) core up by (auto simp: handleClose_def)
  ultimately show ?thesis using k by (simp add: closeCallback_def)
qed

lemma ex_stopped:
  "\<exists>s c. foldR (perform ex_env) [Functor, Call ApiStopRead] ex_conn = Inr s \<and> up s \<and>
    heap s (channel s) = Some c \<and> events c = 0 \<and> epoll s (fd c) = None"
  by (simp add: ex_conn_simps stopRead_def runInLoop_def stopReadInLoop_def isReadingNow_def isReading_def
      disableReading_def up_def Let_def cong: bindR_weak_cong)

lemma ex_stopped_legal: "legal_acts ex_env [Functor, Call ApiStopRead] ex_conn"
  by (simp add: ex_conn_simps split: sum.split)

theorem close_unwatched_witness:
  "\<exists>s s'. foldR (perform ex_env) [Functor, Call ApiStopRead] ex_conn = Inr s \<and> handleClose ex_env s = Inr s' \<and>
    channel_event ex_env (reads (Inr [])) POLLHUP s' = Inl AssertFailed"
proof -
  obtain s c where s: "foldR (perform ex_env) [Functor, Call ApiStopRead] ex_conn = Inr s" "up s"
    "heap s (channel s) = Some c" "events c = 0" "epoll s (fd c) = None"
    using ex_stopped by blast
  have "conn_inv s"
    using acts_run [OF ex_env_ok ex_user_ok newConnection_inv [OF ex_loop_ready] ex_stopped_legal [unfolded ex_conn_def]]
      s(1) by (auto simp: run_inv_def ex_conn_def)
  from close_unwatched [OF ex_env_ok ex_user_ok this s(2-5), of "reads (Inr [])"] s(1) show ?thesis by blast
qed

text \<open>
  \<^bold>\<open>C33\<close>. \<open>connectDestroyed\<close> handles an open connection only in state connected: on one that
  is being shut down and still reads or writes, which the destructor of \<open>TcpServer\<close> may meet,
  the assertion of \<open>Channel::remove\<close> fails.
\<close>

theorem destroy_disconnecting:
  assumes "conn_inv s" and "state s = kDisconnecting" and "reading s \<or> wire s \<noteq> accepted s"
  shows "connectDestroyed E s = Inl AssertFailed"
proof -
  obtain c where c: "heap s (channel s) = Some c" "chan_state s c" "threadId s = tid s"
    "wire s @ content (outputBuffer s) = accepted s"
    using assms(1) by (auto simp: conn_inv_def conn_core_def)
  then have "events c \<noteq> 0"
    using assms(2,3) by (auto simp: chan_state_def isReading_def isWriting_def)
  with c(1,3) assms(2) show ?thesis
    by (simp add: connectDestroyed_def Channel_remove_def isNoneEvent_def kNoneEvent_def assertR_def)
qed

theorem destroy_disconnecting_witness:
  "\<exists>s. foldR (perform ex_env) ex_shutdown_acts ex_conn = Inr s \<and> connectDestroyed ex_env s = Inl AssertFailed"
proof -
  obtain s where s: "foldR (perform ex_env) ex_shutdown_acts ex_conn = Inr s"
    "state s = kDisconnecting" "content (outputBuffer s) = ''i''"
    using ex_shutdown_run by blast
  have i: "conn_inv s"
    using acts_run [OF ex_env_ok ex_user_ok newConnection_inv [OF ex_loop_ready] ex_shutdown_legal [unfolded ex_conn_def]]
      s(1) by (auto simp: run_inv_def ex_conn_def)
  then have "wire s \<noteq> accepted s" using s(3) by (auto simp: conn_inv_def conn_core_def)
  with destroy_disconnecting [OF i s(2), of ex_env] s(1) show ?thesis by blast
qed

end
