(* ===== verification/Base_Date.thy ===== *)
theory Base_Date
  imports Muduo_Prelude
begin

text \<open>
  \<open>muduo/base/Date.h\<close> and \<open>Date.cc\<close>: dates as Julian day numbers. The arithmetic is that of
  C++ \<open>int\<close> with division towards zero, on values far from its limits for the years the class
  is documented for. The reference is the Gregorian calendar itself: the lengths of the
  months and the successor of a day.
\<close>

section \<open>Definitions\<close>

record YearMonthDay =
  ymd_year :: int
  ymd_month :: int
  ymd_day :: int

definition getJulianDayNumber :: "int \<Rightarrow> int \<Rightarrow> int \<Rightarrow> int" where
  "getJulianDayNumber year month day =
     (let a = (14 - month) sdiv 12;
          y = year + 4800 - a;
          m = month + 12 * a - 3
      in day + (153 * m + 2) sdiv 5 + y * 365 + y sdiv 4 - y sdiv 100 + y sdiv 400 - 32045)"

definition getYearMonthDay :: "int \<Rightarrow> YearMonthDay" where
  "getYearMonthDay julianDayNumber =
     (let a = julianDayNumber + 32044;
          b = (4 * a + 3) sdiv 146097;
          c = a - (b * 146097) sdiv 4;
          d = (4 * c + 3) sdiv 1461;
          e = c - (1461 * d) sdiv 4;
          m = (5 * e + 2) sdiv 153
      in \<lparr>ymd_year = b * 100 + d - 4800 + m sdiv 10,
          ymd_month = m + 3 - 12 * (m sdiv 10),
          ymd_day = e - (153 * m + 2) sdiv 5 + 1\<rparr>)"

record Date =
  julianDayNumber :: int

definition kDaysPerWeek :: int where "kDaysPerWeek = 7"

definition kJulianDayOf1970_01_01 :: int where
  "kJulianDayOf1970_01_01 = getJulianDayNumber 1970 1 1"

definition Date_default :: Date where
  "Date_default = \<lparr>julianDayNumber = 0\<rparr>"

definition Date_of_jdn :: "int \<Rightarrow> Date" where
  "Date_of_jdn n = \<lparr>julianDayNumber = n\<rparr>"

definition Date_new :: "int \<Rightarrow> int \<Rightarrow> int \<Rightarrow> Date" where
  "Date_new y m d = \<lparr>julianDayNumber = getJulianDayNumber y m d\<rparr>"

definition Date_valid :: "Date \<Rightarrow> bool" where
  "Date_valid t \<longleftrightarrow> julianDayNumber t > 0"

definition yearMonthDay :: "Date \<Rightarrow> YearMonthDay" where
  "yearMonthDay t = getYearMonthDay (julianDayNumber t)"

definition Date_year :: "Date \<Rightarrow> int" where
  "Date_year t = ymd_year (yearMonthDay t)"

definition Date_month :: "Date \<Rightarrow> int" where
  "Date_month t = ymd_month (yearMonthDay t)"

definition Date_day :: "Date \<Rightarrow> int" where
  "Date_day t = ymd_day (yearMonthDay t)"

definition weekDay :: "Date \<Rightarrow> int" where
  "weekDay t = (julianDayNumber t + 1) smod kDaysPerWeek"

definition Date_less :: "Date \<Rightarrow> Date \<Rightarrow> bool" where
  "Date_less x y \<longleftrightarrow> julianDayNumber x < julianDayNumber y"

definition Date_equal :: "Date \<Rightarrow> Date \<Rightarrow> bool" where
  "Date_equal x y \<longleftrightarrow> julianDayNumber x = julianDayNumber y"

text \<open>\<open>%4d\<close> and \<open>%02d\<close> of \<open>printf\<close>, without and with leading zeros.\<close>

definition fmt_space :: "nat \<Rightarrow> int \<Rightarrow> string" where
  "fmt_space w n = (let s = int_digits n in replicate (w - length s) (CHR '' '') @ s)"

definition fmt_zero :: "nat \<Rightarrow> int \<Rightarrow> string" where
  "fmt_zero w n =
     (let s = nat_digits (nat \<bar>n\<bar>); sign = (if n < 0 then ''-'' else '''')
      in sign @ replicate (w - length s - length sign) (CHR ''0'') @ s)"

definition toIsoString :: "Date \<Rightarrow> string" where
  "toIsoString t =
     (let ymd = yearMonthDay t
      in take 31 (fmt_space 4 (ymd_year ymd) @ ''-'' @ fmt_zero 2 (ymd_month ymd) @ ''-'' @
                  fmt_zero 2 (ymd_day ymd)))"

section \<open>The Gregorian calendar\<close>

definition leap_year :: "int \<Rightarrow> bool" where
  "leap_year y \<longleftrightarrow> 4 dvd y \<and> (\<not> 100 dvd y \<or> 400 dvd y)"

definition days_in_month :: "int \<Rightarrow> int \<Rightarrow> int" where
  "days_in_month y m =
     (if m = 2 then if leap_year y then 29 else 28
      else if m = 4 \<or> m = 6 \<or> m = 9 \<or> m = 11 then 30 else 31)"

definition valid_date :: "int \<Rightarrow> int \<Rightarrow> int \<Rightarrow> bool" where
  "valid_date y m d \<longleftrightarrow> (-4799 \<le> y \<or> y = -4800 \<and> 3 \<le> m) \<and> 1 \<le> m \<and> m \<le> 12 \<and>
     1 \<le> d \<and> d \<le> days_in_month y m"

definition next_day :: "int \<times> int \<times> int \<Rightarrow> int \<times> int \<times> int" where
  "next_day ymd = (case ymd of (y, m, d) \<Rightarrow>
     if d < days_in_month y m then (y, m, d + 1)
     else if m < 12 then (y, m + 1, 1) else (y + 1, 1, 1))"

section \<open>Arithmetic\<close>

lemma div_bounds: "0 < n \<Longrightarrow> n * (x div n) \<le> x \<and> x < n * (x div n) + (n :: int)"
  using pos_mod_bound [of n x] pos_mod_sign [of n x] mult_div_mod_eq [of n x] by linarith

text \<open>
  Both conversions go through the number of days since 1 March of the year -4800, split
  into centuries, years of the century and days of the year that starts in March.
\<close>

definition day_count :: "int \<Rightarrow> int \<Rightarrow> int \<Rightarrow> int" where
  "day_count B D e = 36524 * B + B div 4 + 365 * D + D div 4 + e"

definition in_year :: "int \<Rightarrow> int \<Rightarrow> int \<Rightarrow> bool" where
  "in_year B D e \<longleftrightarrow> 0 \<le> B \<and> 0 \<le> D \<and> D < 100 \<and> 0 \<le> e \<and>
     (e \<le> 364 \<or> e = 365 \<and> D mod 4 = 3 \<and> (D = 99 \<longrightarrow> B mod 4 = 3))"

lemma century: "(B * 146097) div 4 = 36524 * B + B div (4 :: int)"
proof -
  have "B * 146097 = B + 36524 * B * 4" by simp
  then show ?thesis by (metis add.commute div_mult_self1 zero_neq_numeral)
qed

lemma quadyear: "(1461 * D) div 4 = 365 * D + D div (4 :: int)"
proof -
  have "1461 * D = D + 365 * D * 4" by simp
  then show ?thesis by (metis add.commute div_mult_self1 zero_neq_numeral)
qed

lemma split_day_count:
  assumes "in_year B D e"
  defines "a \<equiv> day_count B D e"
  shows "(4 * a + 3) div 146097 = B" and "a - (B * 146097) div 4 = 365 * D + D div 4 + e"
    and "(4 * (365 * D + D div 4 + e) + 3) div 1461 = D"
    and "365 * D + D div 4 + e - (1461 * D) div 4 = e"
proof -
  have r: "4 * (B div 4) = B - B mod 4" "4 * (D div 4) = D - D mod 4" by (simp_all add: minus_mod_eq_mult_div)
  have m: "0 \<le> B mod 4" "B mod 4 \<le> 3" "0 \<le> D mod 4" "D mod 4 \<le> 3" by simp_all
  have "4 * a + 3 = 146097 * B + (4 * (365 * D + D div 4 + e) + 3 - B mod 4)"
    using r by (simp add: a_def day_count_def algebra_simps)
  moreover have q: "4 * (365 * D + D div 4 + e) = 1461 * D - D mod 4 + 4 * e"
    using r by (simp add: algebra_simps)
  have "D mod 4 \<le> D" using assms(1) by (simp add: in_year_def zmod_le_nonneg_dividend)
  then have "0 \<le> 4 * (365 * D + D div 4 + e) + 3 - B mod 4"
    using assms(1) q m unfolding in_year_def by linarith
  moreover have "4 * (365 * D + D div 4 + e) + 3 - B mod 4 < 146097"
  proof (cases "D = 99")
    case True
    with assms(1) m show ?thesis unfolding q in_year_def by auto
  next
    case False
    with assms(1) q m show ?thesis unfolding in_year_def by linarith
  qed
  ultimately show "(4 * a + 3) div 146097 = B" by (intro int_div_pos_eq) auto
  show "a - (B * 146097) div 4 = 365 * D + D div 4 + e"
    unfolding century by (simp add: a_def day_count_def)
  have "4 * (365 * D + D div 4 + e) + 3 = 1461 * D + (4 * e + 3 - D mod 4)"
    using r by (simp add: algebra_simps)
  moreover have "0 \<le> 4 * e + 3 - D mod 4" "4 * e + 3 - D mod 4 < 1461"
    using assms(1) m by (auto simp: in_year_def)
  ultimately show "(4 * (365 * D + D div 4 + e) + 3) div 1461 = D" by (intro int_div_pos_eq) auto
  show "365 * D + D div 4 + e - (1461 * D) div 4 = e" by (simp add: quadyear)
qed

lemma day_count_nonneg:
  assumes "in_year B D e"
  shows "0 \<le> day_count B D e"
proof -
  have "0 \<le> B" "0 \<le> D" "0 \<le> e" using assms by (auto simp: in_year_def)
  then have "0 \<le> B div 4" "0 \<le> D div 4" "0 \<le> 36524 * B" "0 \<le> 365 * D" by simp_all
  with \<open>0 \<le> e\<close> show ?thesis unfolding day_count_def by linarith
qed

lemma ex_day_count:
  assumes "0 \<le> a"
  shows "\<exists>B D e. in_year B D e \<and> a = day_count B D e"
proof -
  define B where "B = (4 * a + 3) div 146097"
  define c where "c = a - (B * 146097) div 4"
  define D where "D = (4 * c + 3) div 1461"
  define e where "e = c - (1461 * D) div 4"
  have B: "146097 * B \<le> 4 * a + 3" "4 * a + 3 < 146097 * B + 146097" "0 \<le> B"
    using assms div_bounds [of 146097 "4 * a + 3"] unfolding B_def by (simp_all add: pos_imp_zdiv_nonneg_iff)
  have r: "4 * (B div 4) = B - B mod 4" "4 * (D div 4) = D - D mod 4" by (simp_all add: minus_mod_eq_mult_div)
  have m: "0 \<le> B mod 4" "B mod 4 \<le> 3" "0 \<le> D mod 4" "D mod 4 \<le> 3" by simp_all
  have c4: "4 * c = 4 * a - 146097 * B + B mod 4" using r(1) unfolding c_def century by simp
  have c: "0 \<le> c" "4 * c \<le> 146093 + B mod 4" using B c4 m by linarith+
  have D: "1461 * D \<le> 4 * c + 3" "4 * c + 3 < 1461 * D + 1461" "0 \<le> D"
    using c div_bounds [of 1461 "4 * c + 3"] unfolding D_def by (simp_all add: pos_imp_zdiv_nonneg_iff)
  have D99: "D < 100" using c D m by linarith
  have e4: "4 * e = 4 * c - 1461 * D + D mod 4" using r(2) unfolding e_def quadyear by simp
  have e: "0 \<le> e" "4 * e \<le> 1457 + D mod 4" using D e4 m by linarith+
  have eq: "a = day_count B D e"
    unfolding day_count_def e_def c_def century quadyear by simp
  have "B mod 4 = 3" if "e = 365" "D = 99" using c(2) e4 m that by simp
  moreover have "D mod 4 = 3" if "e = 365" using e m that by linarith
  moreover have "e \<le> 365" using e m by linarith
  ultimately have "in_year B D e" using B(3) D(3) D99 e(1) by (auto simp: in_year_def)
  with eq show ?thesis by blast
qed

text \<open>The day of the year that starts in March: \<open>M = 0\<close> is March, \<open>M = 11\<close> February.\<close>

lemma twelve: "0 \<le> M \<Longrightarrow> M \<le> (11 :: int) \<Longrightarrow> M \<in> {0,1,2,3,4,5,6,7,8,9,10,11}"
  unfolding insert_iff empty_iff by presburger

lemma month_start:
  assumes "0 \<le> M" and "M \<le> 11" and "0 \<le> k" and "k \<le> 30" and "M \<in> {1, 3, 6, 8} \<longrightarrow> k \<le> 29" and "M = 11 \<longrightarrow> k \<le> 28"
  defines "e \<equiv> k + (153 * M + 2) div (5 :: int)"
  shows "(5 * e + 2) div 153 = M" and "e - (153 * M + 2) div 5 = k" and "0 \<le> e" and "e \<le> 365"
    and "e = 365 \<longrightarrow> M = 11 \<and> k = 28"
proof -
  have "M \<in> {0,1,2,3,4,5,6,7,8,9,10,11}" by (rule twelve [OF assms(1,2)])
  then have b: "153 * M \<le> 5 * e + 2 \<and> 5 * e + 2 < 153 * M + 153 \<and> e \<le> 365 \<and> (e = 365 \<longrightarrow> M = 11 \<and> k = 28)"
    by (elim insertE emptyE) (use assms(3-6) in \<open>simp_all add: e_def\<close>)
  then show "e \<le> 365" and "e = 365 \<longrightarrow> M = 11 \<and> k = 28" by simp_all
  from b show "(5 * e + 2) div 153 = M" by (intro int_div_pos_eq [where r = "5 * e + 2 - 153 * M"]) simp_all
  show "0 \<le> e" using assms(1,3) by (simp add: e_def)
  show "e - (153 * M + 2) div 5 = k" by (simp add: e_def)
qed

lemma ex_month:
  assumes "0 \<le> e" and "e \<le> (365 :: int)"
  shows "\<exists>M k. 0 \<le> M \<and> M \<le> 11 \<and> 0 \<le> k \<and> k \<le> 30 \<and> (M \<in> {1, 3, 6, 8} \<longrightarrow> k \<le> 29) \<and> (M = 11 \<longrightarrow> k \<le> 28) \<and>
    e = k + (153 * M + 2) div 5 \<and> (e \<le> 364 \<longrightarrow> M = 11 \<longrightarrow> k \<le> 27)"
proof -
  define M where "M = (5 * e + 2) div 153"
  have "153 * M \<le> 5 * e + 2" "5 * e + 2 < 153 * M + 153" "0 \<le> M" "M \<le> 11"
    using assms div_bounds [of 153 "5 * e + 2"] unfolding M_def by (simp_all add: pos_imp_zdiv_nonneg_iff)
  moreover from this(3,4) have "M \<in> {0,1,2,3,4,5,6,7,8,9,10,11}" by (rule twelve)
  ultimately have "0 \<le> e - (153 * M + 2) div 5 \<and> e - (153 * M + 2) div 5 \<le> 30 \<and>
      (M \<in> {1, 3, 6, 8} \<longrightarrow> e - (153 * M + 2) div 5 \<le> 29) \<and> (M = 11 \<longrightarrow> e - (153 * M + 2) div 5 \<le> 28) \<and>
      (e \<le> 364 \<longrightarrow> M = 11 \<longrightarrow> e - (153 * M + 2) div 5 \<le> 27)"
    using assms(2) by (elim insertE emptyE) simp_all
  with \<open>0 \<le> M\<close> \<open>M \<le> 11\<close> show ?thesis
    by (intro exI [of _ M] exI [of _ "e - (153 * M + 2) div 5"]) simp
qed

text \<open>The year that starts in March and its month.\<close>

definition shifted_year :: "int \<Rightarrow> int \<Rightarrow> int" where
  "shifted_year y m = y + 4800 - (if m \<le> 2 then 1 else 0)"

definition shifted_month :: "int \<Rightarrow> int" where
  "shifted_month m = (if m \<le> 2 then m + 9 else m - 3)"

lemma shifted_a: "1 \<le> m \<Longrightarrow> m \<le> 12 \<Longrightarrow> (14 - m) sdiv 12 = (if m \<le> 2 then 1 else (0 :: int))"
  by (auto simp: sdiv_nonneg div_pos_pos_trivial intro: int_div_pos_eq)

lemma year_parts:
  fixes Y :: int
  shows "Y div 4 = 25 * (Y div 100) + (Y mod 100) div 4" and "Y div 400 = (Y div 100) div 4"
    and "Y = 100 * (Y div 100) + Y mod 100"
proof -
  have "Y = Y mod 100 + 25 * (Y div 100) * 4" by simp
  then show "Y div 4 = 25 * (Y div 100) + (Y mod 100) div 4"
    by (metis add.commute div_mult_self1 zero_neq_numeral)
  show "Y div 400 = (Y div 100) div 4" using zdiv_zmult2_eq [of 4 Y 100] by simp
qed simp

definition leaps :: "int \<Rightarrow> int" where
  "leaps Y = Y div 4 - Y div 100 + Y div 400"

lemma jdn_formula:
  assumes "1 \<le> m" and "m \<le> 12" and "0 \<le> shifted_year y m"
  defines "Y \<equiv> shifted_year y m" and "M \<equiv> shifted_month m"
  shows "getJulianDayNumber y m d = d + (153 * M + 2) div 5 + Y * 365 + leaps Y - 32045"
  using assms(1-3) unfolding getJulianDayNumber_def Let_def shifted_a [OF assms(1,2)] leaps_def
  by (auto simp: Y_def M_def shifted_year_def shifted_month_def sdiv_nonneg algebra_simps)

lemma jdn_day_count:
  assumes "1 \<le> m" and "m \<le> 12" and "0 \<le> shifted_year y m"
  defines "Y \<equiv> shifted_year y m" and "M \<equiv> shifted_month m"
  shows "getJulianDayNumber y m d = day_count (Y div 100) (Y mod 100) (d - 1 + (153 * M + 2) div 5) - 32044"
proof -
  have "d + p + X * 365 + (q - B + t) - 32045 = 36524 * B + t + 365 * D + r + (d - 1 + p) - 32044"
    if "q = 25 * B + r" and "X = 100 * B + D" for p q r t X B D :: int
    using that by simp
  from this [OF year_parts(1,3)] show ?thesis
    unfolding jdn_formula [OF assms(1-3)] leaps_def day_count_def Y_def M_def year_parts(2) [symmetric] .
qed

lemma leap_shifted:
  assumes "leap_year y" and "Y = y + 4799"
  shows "(Y mod 100) mod 4 = 3" and "Y mod 100 = 99 \<longrightarrow> (Y div 100) mod 4 = 3"
proof -
  obtain k where "y = 4 * k" using assms(1) by (auto simp: leap_year_def)
  then have "Y = 3 + (k + 1199) * 4" using assms(2) by simp
  then have "Y mod 4 = 3" by simp
  then show "(Y mod 100) mod 4 = 3" by (simp add: mod_mod_cancel)
  show "Y mod 100 = 99 \<longrightarrow> (Y div 100) mod 4 = 3"
  proof
    assume "Y mod 100 = 99"
    then have "y = 100 * (Y div 100 - 47)" using assms(2) year_parts(3) [of Y] by simp
    with assms(1) have "400 dvd y" by (auto simp: leap_year_def)
    then obtain k where "y = 400 * k" by blast
    then have "Y = 99 + (4 * k + 47) * 100" using assms(2) by simp
    then have "Y div 100 = 3 + (k + 11) * 4" by simp
    then show "(Y div 100) mod 4 = 3" by simp
  qed
qed

lemma leap_shifted_conv:
  assumes "(Y mod 100) mod 4 = 3" and "Y mod 100 = 99 \<longrightarrow> (Y div 100) mod 4 = 3" and "Y = y + 4799"
  shows "leap_year y"
proof -
  have "Y mod 4 = 3" using assms(1) by (simp add: mod_mod_cancel)
  then have "y = 4 * (Y div 4 - 1199)" using assms(3) mult_div_mod_eq [of 4 Y] by simp
  then have "4 dvd y" by simp
  moreover have "400 dvd y" if "100 dvd y"
  proof -
    obtain k where k: "y = 100 * k" using \<open>100 dvd y\<close> by blast
    then have Y: "Y = 99 + (k + 47) * 100" using assms(3) by simp
    then have "Y mod 100 = 99" "Y div 100 = k + 47" by simp_all
    with assms(2) have "(k + 47) mod 4 = 3" by simp
    then have "k = 4 * ((k + 47) div 4 - 11)" using mult_div_mod_eq [of 4 "k + 47"] by simp
    with k have "y = 400 * ((k + 47) div 4 - 11)" by simp
    then show ?thesis by simp
  qed
  ultimately show ?thesis by (auto simp: leap_year_def)
qed

lemma valid_in_year:
  assumes "valid_date y m d"
  defines "Y \<equiv> shifted_year y m" and "M \<equiv> shifted_month m"
  shows "in_year (Y div 100) (Y mod 100) (d - 1 + (153 * M + 2) div 5)" and "0 \<le> Y"
    and "0 \<le> M" and "M \<le> 11" and "0 \<le> d - 1" and "d - 1 \<le> 30" and "M \<in> {1, 3, 6, 8} \<longrightarrow> d - 1 \<le> 29"
    and "M = 11 \<longrightarrow> d - 1 \<le> 28"
proof -
  show *: "0 \<le> Y" "0 \<le> M" "M \<le> 11" "0 \<le> d - 1" "d - 1 \<le> 30" "M \<in> {1, 3, 6, 8} \<longrightarrow> d - 1 \<le> 29"
    "M = 11 \<longrightarrow> d - 1 \<le> 28"
    using assms(1) by (auto simp: valid_date_def Y_def M_def shifted_year_def shifted_month_def days_in_month_def
        split: if_splits)
  note ms = month_start [OF *(2-7)]
  have "(Y mod 100) mod 4 = 3 \<and> (Y mod 100 = 99 \<longrightarrow> (Y div 100) mod 4 = 3)"
    if "d - 1 + (153 * M + 2) div 5 = 365"
  proof -
    have "M = 11" "d = 29" using ms(5) that by auto
    then have "m = 2" using assms(1) by (auto simp: M_def shifted_month_def valid_date_def split: if_splits)
    with assms(1) \<open>d = 29\<close> have "leap_year y" "Y = y + 4799"
      by (auto simp: valid_date_def days_in_month_def Y_def shifted_year_def split: if_splits)
    with leap_shifted show ?thesis by blast
  qed
  with *(1) ms(3,4) show "in_year (Y div 100) (Y mod 100) (d - 1 + (153 * M + 2) div 5)"
    by (auto simp: in_year_def pos_imp_zdiv_nonneg_iff)
qed

lemma getYearMonthDay_day_count:
  assumes "in_year B D e" and "0 \<le> M" and "M \<le> 11" and "0 \<le> k" and "k \<le> 30" and "M \<in> {1, 3, 6, 8} \<longrightarrow> k \<le> 29"
    and "M = 11 \<longrightarrow> k \<le> 28" and "e = k + (153 * M + 2) div 5"
  shows "getYearMonthDay (day_count B D e - 32044) =
    \<lparr>ymd_year = B * 100 + D - 4800 + M div 10, ymd_month = M + 3 - 12 * (M div 10), ymd_day = k + 1\<rparr>"
proof -
  note sp = split_day_count [OF assms(1)]
  note ms = month_start [OF assms(2-7), folded assms(8)]
  have nn: "0 \<le> B" "0 \<le> D" "0 \<le> e" "0 \<le> D div 4" "0 \<le> B div 4" using assms(1) by (auto simp: in_year_def)
  then have a: "0 \<le> 4 * (day_count B D e - 32044 + 32044) + 3" by (simp add: day_count_def)
  have b: "(4 * (day_count B D e - 32044 + 32044) + 3) sdiv 146097 = B"
    unfolding sdiv_nonneg [OF a zero_less_numeral] using sp(1) by simp
  have c: "day_count B D e - 32044 + 32044 - (B * 146097) sdiv 4 = 365 * D + D div 4 + e"
    using sp(2) nn(1) by (simp add: sdiv_nonneg)
  have d: "(4 * (365 * D + D div 4 + e) + 3) sdiv 1461 = D" using sp(3) nn by (simp add: sdiv_nonneg)
  have e: "365 * D + D div 4 + e - (1461 * D) sdiv 4 = e" using sp(4) nn(2) by (simp add: sdiv_nonneg)
  have m: "(5 * e + 2) sdiv 153 = M" using ms(1) nn(3) by (simp add: sdiv_nonneg)
  show ?thesis
    unfolding getYearMonthDay_def Let_def b c d e m using assms(2) ms(2) by (simp add: sdiv_nonneg)
qed

lemma months_back:
  assumes "1 \<le> m" and "m \<le> 12"
  defines "M \<equiv> shifted_month m"
  shows "M + 3 - 12 * (M div 10) = m" and "100 * (shifted_year y m div 100) + shifted_year y m mod 100 - 4800 + M div 10 = y"
proof -
  have "M div 10 = (if m \<le> 2 then 1 else 0)"
    using assms(1,2) by (auto simp: M_def shifted_month_def div_pos_pos_trivial intro: int_div_pos_eq)
  then show "M + 3 - 12 * (M div 10) = m" "100 * (shifted_year y m div 100) + shifted_year y m mod 100 - 4800 + M div 10 = y"
    by (simp_all add: M_def shifted_month_def shifted_year_def)
qed

lemma of_valid:
  assumes "valid_date y m d"
  shows "getYearMonthDay (getJulianDayNumber y m d) = \<lparr>ymd_year = y, ymd_month = m, ymd_day = d\<rparr>"
    and "-32044 \<le> getJulianDayNumber y m d"
proof -
  note v = valid_in_year [OF assms]
  have m: "1 \<le> m" "m \<le> 12" using assms by (simp_all add: valid_date_def)
  note j = jdn_day_count [OF m v(2), of d]
  show "getYearMonthDay (getJulianDayNumber y m d) = \<lparr>ymd_year = y, ymd_month = m, ymd_day = d\<rparr>"
    unfolding j getYearMonthDay_day_count [OF v(1) v(3-8) refl]
    using months_back(1) [OF m] months_back(2) [OF m, of y] by simp
  show "-32044 \<le> getJulianDayNumber y m d" unfolding j using day_count_nonneg [OF v(1)] by simp
qed

lemma month_cases:
  assumes "0 \<le> M" and "M \<le> 11"
  shows "1 \<le> M + 3 - 12 * (M div 10)" and "M + 3 - 12 * (M div 10) \<le> 12"
    and "shifted_month (M + 3 - 12 * (M div 10)) = M" and "M + 3 - 12 * (M div 10) \<le> 2 \<longleftrightarrow> M div 10 = 1"
    and "M div 10 = 0 \<or> M div 10 = 1" and "M + 3 - 12 * (M div 10) = 2 \<longleftrightarrow> M = 11"
    and "M + 3 - 12 * (M div 10) \<in> {4, 6, 9, 11} \<longleftrightarrow> M \<in> {1, 3, 6, 8 :: int}"
proof -
  have "M \<in> {0,1,2,3,4,5,6,7,8,9,10,11}" by (rule twelve [OF assms])
  then have "1 \<le> M + 3 - 12 * (M div 10) \<and> M + 3 - 12 * (M div 10) \<le> 12 \<and>
      shifted_month (M + 3 - 12 * (M div 10)) = M \<and> (M + 3 - 12 * (M div 10) \<le> 2 \<longleftrightarrow> M div 10 = 1) \<and>
      (M div 10 = 0 \<or> M div 10 = 1) \<and> (M + 3 - 12 * (M div 10) = 2 \<longleftrightarrow> M = 11) \<and>
      (M + 3 - 12 * (M div 10) \<in> {4, 6, 9, 11} \<longleftrightarrow> M \<in> {1, 3, 6, 8})"
    by (elim insertE emptyE) (simp_all add: shifted_month_def)
  then show "1 \<le> M + 3 - 12 * (M div 10)" and "M + 3 - 12 * (M div 10) \<le> 12"
    and "shifted_month (M + 3 - 12 * (M div 10)) = M" and "M + 3 - 12 * (M div 10) \<le> 2 \<longleftrightarrow> M div 10 = 1"
    and "M div 10 = 0 \<or> M div 10 = 1" and "M + 3 - 12 * (M div 10) = 2 \<longleftrightarrow> M = 11"
    and "M + 3 - 12 * (M div 10) \<in> {4, 6, 9, 11} \<longleftrightarrow> M \<in> {1, 3, 6, 8}"
    by blast+
qed

lemma to_valid:
  assumes "-32044 \<le> j"
  shows "\<exists>y m d. getYearMonthDay j = \<lparr>ymd_year = y, ymd_month = m, ymd_day = d\<rparr> \<and> valid_date y m d \<and>
    getJulianDayNumber y m d = j"
proof -
  obtain B D e where B: "in_year B D e" "j + 32044 = day_count B D e"
    using ex_day_count [of "j + 32044"] assms by auto
  then have e: "0 \<le> e" "e \<le> 365" by (auto simp: in_year_def)
  obtain M k where M: "0 \<le> M" "M \<le> 11" "0 \<le> k" "k \<le> 30" "M \<in> {1, 3, 6, 8} \<longrightarrow> k \<le> 29" "M = 11 \<longrightarrow> k \<le> 28"
    "e = k + (153 * M + 2) div 5" "e \<le> 364 \<longrightarrow> M = 11 \<longrightarrow> k \<le> 27"
    using ex_month [OF e] by blast
  define y m where "y = B * 100 + D - 4800 + M div 10" and "m = M + 3 - 12 * (M div 10)"
  note mc = month_cases [OF M(1,2), folded m_def]
  have D: "0 \<le> B" "0 \<le> D" "D < 100" using B(1) by (auto simp: in_year_def)
  have Y: "shifted_year y m = D + B * 100"
    using mc(4,5) by (cases "M div 10 = 1") (simp_all add: shifted_year_def y_def)
  then have YBD: "shifted_year y m div 100 = B" "shifted_year y m mod 100 = D" "0 \<le> shifted_year y m"
    using D by simp_all
  have leap: "leap_year y" if "M = 11" "k = 28"
  proof -
    have "e = 365" using M(7) that by simp
    then have "shifted_year y m mod 100 mod 4 = 3"
      "shifted_year y m mod 100 = 99 \<longrightarrow> shifted_year y m div 100 mod 4 = 3"
      using B(1) unfolding YBD by (auto simp: in_year_def)
    moreover have "shifted_year y m = y + 4799" using that(1) by (simp add: shifted_year_def m_def)
    ultimately show ?thesis by (rule leap_shifted_conv)
  qed
  have "k + 1 \<le> days_in_month y m"
  proof (cases "M = 11")
    case True
    with mc(6) have "m = 2" by simp
    moreover have "k \<le> 28" "k = 28 \<longrightarrow> leap_year y" using True M(6) leap by auto
    ultimately show ?thesis by (auto simp: days_in_month_def)
  next
    case False
    then have "m \<noteq> 2" using mc(6) by simp
    moreover have "m = 4 \<or> m = 6 \<or> m = 9 \<or> m = 11 \<Longrightarrow> k \<le> 29" using mc(7) M(5) by simp
    ultimately show ?thesis using M(4) by (simp add: days_in_month_def)
  qed
  moreover have "-4799 \<le> y \<or> y = -4800 \<and> 3 \<le> m"
  proof (cases "M div 10 = 1")
    case True
    with D(1,2) show ?thesis by (simp add: y_def)
  next
    case False
    with mc(4,5) have "3 \<le> m" "M div 10 = 0" by auto
    moreover have "0 \<le> B * 100 + D" using D(1,2) by simp
    ultimately show ?thesis unfolding y_def by linarith
  qed
  ultimately have v: "valid_date y m (k + 1)" using mc(1,2) M(3) by (simp add: valid_date_def)
  have "getYearMonthDay j = \<lparr>ymd_year = y, ymd_month = m, ymd_day = k + 1\<rparr>"
    using getYearMonthDay_day_count [OF B(1) M(1-7)] unfolding y_def m_def B(2) [symmetric] by simp
  moreover have "getJulianDayNumber y m (k + 1) = j"
    using jdn_day_count [OF mc(1,2) YBD(3), of "k + 1"] YBD mc(3) M(7) B(2) by simp
  ultimately show ?thesis using v by blast
qed

lemma div_succ:
  assumes "0 < n"
  shows "(Y + 1) div n = Y div n + (if n dvd Y + 1 then 1 else (0 :: int))"
proof (cases "n dvd Y + 1")
  case True
  then obtain k where k: "Y + 1 = n * k" by blast
  then have "Y = n * (k - 1) + (n - 1)" by (simp add: right_diff_distrib)
  from int_div_pos_eq [OF this] have "Y div n = k - 1" using assms by simp
  with True k assms show ?thesis by simp
next
  case False
  have m: "Y = n * (Y div n) + Y mod n" by simp
  have "Y mod n + 1 \<noteq> n"
  proof
    assume "Y mod n + 1 = n"
    with m have "Y + 1 = n * (Y div n) + n * 1" by linarith
    then have "Y + 1 = n * (Y div n + 1)" by (simp only: distrib_left)
    with False show False by (metis dvd_triv_left)
  qed
  then have "Y mod n + 1 < n" using pos_mod_bound [OF assms, of Y] by linarith
  moreover have "Y + 1 = n * (Y div n) + (Y mod n + 1)" using m by linarith
  ultimately have "(Y + 1) div n = Y div n" using assms by (intro int_div_pos_eq) simp_all
  with False show ?thesis by simp
qed

lemma february_length:
  assumes "0 \<le> Y" and "Y = y + 4799"
  shows "leaps (Y + 1) = leaps Y + (if leap_year y then 1 else 0)"
proof -
  have e: "Y + 1 = y + 4800" using assms(2) by simp
  have d: "k dvd y + 4800 \<longleftrightarrow> k dvd y" if "k dvd (4800 :: int)" for k
    using dvd_add_left_iff [OF that] .
  have "(100 :: int) dvd y \<longrightarrow> 4 dvd y" "(400 :: int) dvd y \<longrightarrow> 100 dvd y"
    using dvd_trans [of 4 100 y] dvd_trans [of 100 400 y] by simp_all
  note sub = this
  have st: "(Y + 1) div k = Y div k + (if k dvd y then 1 else 0)" if "0 < k" "k dvd 4800" for k
    unfolding div_succ [OF that(1)] unfolding e d [OF that(2)] ..
  have q: "(Y + 1) div 4 = Y div 4 + (if 4 dvd y then 1 else 0)" by (rule st) simp_all
  have c: "(Y + 1) div 100 = Y div 100 + (if 100 dvd y then 1 else 0)" by (rule st) simp_all
  have g: "(Y + 1) div 400 = Y div 400 + (if 400 dvd y then 1 else 0)" by (rule st) simp_all
  have "(if a then 1 else 0) - (if b then 1 else 0) + (if c then 1 else 0) = (if a \<and> (\<not> b \<or> c) then 1 else (0 :: int))"
    if "b \<longrightarrow> a" "c \<longrightarrow> b" for a b c
    using that by (cases a; cases b; cases c) simp_all
  note ind = this [of "100 dvd y" "4 dvd y" "400 dvd y", OF sub]
  have "u + a - (v + b) + (w + c) = u - v + w + r" if "a - b + c = r" for u v w a b c r :: int
    using that by simp
  from this [OF ind] show ?thesis unfolding leaps_def q c g leap_year_def .
qed





end
