(* ===== verification/Base_TimeZone.thy ===== *)
theory Base_TimeZone
  imports Base_Date Net_Endian
begin

text \<open>
  \<open>muduo/base/TimeZone.h\<close> and \<open>TimeZone.cc\<close>: reading a zone file, finding the local time type
  that is in force, and the conversions between UTC, local time and seconds since the epoch.

  A zone file is its bytes, \<open>None\<close> when it cannot be opened. Reading it is a computation
  on the unread bytes and the data filled so far; an exception leaves both as they are.
  \<open>gmtime_r\<close> and \<open>timegm\<close> of the C library are \<open>toUtcTime\<close> and \<open>fromUtcTime\<close>, which are
  documented as their equivalents.
\<close>

section \<open>Data\<close>

record Transition =
  gmttime :: int
  localtime :: int
  localtimeIdx :: nat

record Localtime =
  gmtOffset :: int
  isDst :: bool
  arrbIdx :: nat

record TZData =
  transitions :: "Transition list"
  localtimes :: "Localtime list"
  tz_abbreviation :: "char list"

record tm =
  tm_sec :: int
  tm_min :: int
  tm_hour :: int
  tm_mday :: int
  tm_mon :: int
  tm_year :: int
  tm_wday :: int
  tm_yday :: int
  tm_isdst :: bool
  tm_gmtoff :: int
  tm_zone :: "char list"

text \<open>\<open>memZero\<close> of a \<open>struct tm\<close>.\<close>

definition tm_zero :: tm where
  "tm_zero = \<lparr>tm_sec = 0, tm_min = 0, tm_hour = 0, tm_mday = 0, tm_mon = 0, tm_year = 0, tm_wday = 0,
     tm_yday = 0, tm_isdst = False, tm_gmtoff = 0, tm_zone = []\<rparr>"

definition emptyData :: TZData where
  "emptyData = \<lparr>transitions = [], localtimes = [], tz_abbreviation = []\<rparr>"

text \<open>The comparison \<open>Comp\<close>: by UTC or by local time.\<close>

definition comp_less :: "bool \<Rightarrow> Transition \<Rightarrow> Transition \<Rightarrow> bool" where
  "comp_less compareGmt lhs rhs \<longleftrightarrow>
     (if compareGmt then gmttime lhs < gmttime rhs else localtime lhs < localtime rhs)"

definition comp_equal :: "bool \<Rightarrow> Transition \<Rightarrow> Transition \<Rightarrow> bool" where
  "comp_equal compareGmt lhs rhs \<longleftrightarrow>
     (if compareGmt then gmttime lhs = gmttime rhs else localtime lhs = localtime rhs)"

definition fillHMS :: "int \<Rightarrow> tm \<Rightarrow> tm" where
  "fillHMS seconds utc =
     (let minutes = seconds div 60
      in utc\<lparr>tm_sec := seconds mod 60, tm_min := minutes mod 60, tm_hour := minutes div 60\<rparr>)"

definition kSecondsPerDay :: int where
  "kSecondsPerDay = 24 * 60 * 60"

section \<open>Reading a zone file\<close>

record tzstate =
  bytes :: "char list"
  tzdata :: TZData

type_synonym 'a reader = "tzstate \<Rightarrow> 'a res \<times> tzstate"

definition bindT :: "'a reader \<Rightarrow> ('a \<Rightarrow> 'b reader) \<Rightarrow> 'b reader" where
  "bindT m f s = (case m s of (Inl e, s) \<Rightarrow> (Inl e, s) | (Inr x, s) \<Rightarrow> f x s)"

definition returnT :: "'a \<Rightarrow> 'a reader" where
  "returnT x s = (Inr x, s)"

definition throwT :: "string \<Rightarrow> 'a reader" where
  "throwT what s = (Inl (LogicError what), s)"

definition File_readBytes :: "int \<Rightarrow> (char list) reader" where
  "File_readBytes n s =
     (if n < 0 then (Inl UndefinedBehaviour, s)
      else if length (bytes s) < nat n then throwT ''no enough data'' (s\<lparr>bytes := []\<rparr>)
      else (Inr (take (nat n) (bytes s)), s\<lparr>bytes := drop (nat n) (bytes s)\<rparr>))"

definition File_readInt32 :: "int reader" where
  "File_readInt32 s =
     (if length (bytes s) < 4 then throwT ''bad int32_t data'' (s\<lparr>bytes := []\<rparr>)
      else (Inr (sint (networkToHost32 (mem_value (take 4 (bytes s))))), s\<lparr>bytes := drop 4 (bytes s)\<rparr>))"

definition File_readUInt8 :: "nat reader" where
  "File_readUInt8 s =
     (case bytes s of
        [] \<Rightarrow> throwT ''bad uint8_t data'' s
      | c # cs \<Rightarrow> (Inr (of_char c), s\<lparr>bytes := cs\<rparr>))"

text \<open>The \<open>for\<close> loops that push what they read into a vector.\<close>

fun repeatT :: "nat \<Rightarrow> 'a reader \<Rightarrow> ('a list) reader" where
  "repeatT 0 m = returnT []"
| "repeatT (Suc n) m = bindT m (\<lambda>x. bindT (repeatT n m) (\<lambda>xs. returnT (x # xs)))"

definition push_localtime :: "unit reader" where
  "push_localtime =
     bindT File_readInt32 (\<lambda>gmtoff.
     bindT File_readUInt8 (\<lambda>isdst.
     bindT File_readUInt8 (\<lambda>abbrind s.
       (Inr (), s\<lparr>tzdata := (tzdata s)\<lparr>localtimes := localtimes (tzdata s) @
          [\<lparr>gmtOffset = gmtoff, isDst = (isdst \<noteq> 0), arrbIdx = abbrind\<rparr>]\<rparr>\<rparr>))))"

fun push_transitions :: "(int \<times> nat) list \<Rightarrow> unit reader" where
  "push_transitions [] = returnT ()"
| "push_transitions ((t, localIdx) # ts) = (\<lambda>s.
     if localIdx < length (localtimes (tzdata s)) then
       let l = t + gmtOffset (localtimes (tzdata s) ! localIdx);
           tr = \<lparr>gmttime = t, localtime = l, localtimeIdx = localIdx\<rparr>
       in push_transitions ts (s\<lparr>tzdata := (tzdata s)\<lparr>transitions := transitions (tzdata s) @ [tr]\<rparr>\<rparr>)
     else (Inl UndefinedBehaviour, s))"

text \<open>The body of the \<open>try\<close> block; \<open>reserve\<close> of a negative count throws \<open>length_error\<close>, a \<open>logic_error\<close>.\<close>

definition read_zone :: "unit reader" where
  "read_zone =
     bindT (File_readBytes 4) (\<lambda>head.
     if head \<noteq> ''TZif'' then throwT ''bad head'' else
     bindT (File_readBytes 1) (\<lambda>version.
     bindT (File_readBytes 15) (\<lambda>_.
     bindT File_readInt32 (\<lambda>isgmtcnt.
     bindT File_readInt32 (\<lambda>isstdcnt.
     bindT File_readInt32 (\<lambda>leapcnt.
     bindT File_readInt32 (\<lambda>timecnt.
     bindT File_readInt32 (\<lambda>typecnt.
     bindT File_readInt32 (\<lambda>charcnt.
     if timecnt < 0 then throwT ''vector::reserve'' else
     bindT (repeatT (nat timecnt) File_readInt32) (\<lambda>trans.
     bindT (repeatT (nat timecnt) File_readUInt8) (\<lambda>localIdxs.
     bindT (repeatT (nat typecnt) push_localtime) (\<lambda>_.
     bindT (push_transitions (zip trans localIdxs)) (\<lambda>_.
     bindT (File_readBytes charcnt) (\<lambda>abbr s.
       (Inr (), s\<lparr>tzdata := (tzdata s)\<lparr>tz_abbreviation := abbr\<rparr>\<rparr>)))))))))))))))"

definition readTimeZoneFile :: "char list option \<Rightarrow> TZData \<Rightarrow> (bool \<times> TZData) res" where
  "readTimeZoneFile f data =
     (case f of
        None \<Rightarrow> Inr (True, data)
      | Some bs \<Rightarrow>
          (case read_zone \<lparr>bytes = bs, tzdata = data\<rparr> of
             (Inr _, s) \<Rightarrow> Inr (True, tzdata s)
           | (Inl (LogicError what), s) \<Rightarrow> Inr (True, tzdata s)
           | (Inl e, s) \<Rightarrow> Inl e))"

section \<open>Local time\<close>

text \<open>\<open>std::lower_bound\<close> on a range partitioned by the comparison with the value.\<close>

definition lower_bound_trans :: "bool \<Rightarrow> Transition list \<Rightarrow> Transition \<Rightarrow> nat" where
  "lower_bound_trans compareGmt trs sentry = length (takeWhile (\<lambda>t. comp_less compareGmt t sentry) trs)"

definition localtime_at :: "TZData \<Rightarrow> nat \<Rightarrow> Localtime res" where
  "localtime_at data i = (if i < length (localtimes data) then Inr (localtimes data ! i) else Inl UndefinedBehaviour)"

definition findLocaltime :: "TZData \<Rightarrow> Transition \<Rightarrow> bool \<Rightarrow> Localtime res" where
  "findLocaltime data sentry compareGmt =
     (if transitions data = [] \<or> comp_less compareGmt sentry (hd (transitions data))
      then localtime_at data 0
      else
        let transI = lower_bound_trans compareGmt (transitions data) sentry
        in if transI \<noteq> length (transitions data) then
             if \<not> comp_equal compareGmt sentry (transitions data ! transI) then
               bindR (assertR (transI \<noteq> 0) ()) (\<lambda>_.
               localtime_at data (localtimeIdx (transitions data ! (transI - 1))))
             else localtime_at data (localtimeIdx (transitions data ! transI))
           else localtime_at data (localtimeIdx (last (transitions data))))"

section \<open>UTC\<close>

definition toUtcTime :: "int \<Rightarrow> bool \<Rightarrow> tm" where
  "toUtcTime secondsSinceEpoch yday =
     (let utc = tm_zero\<lparr>tm_zone := ''GMT''\<rparr>;
          seconds = to_int (secondsSinceEpoch smod kSecondsPerDay);
          days = to_int (secondsSinceEpoch sdiv kSecondsPerDay);
          (seconds, days) = (if seconds < 0 then (seconds + kSecondsPerDay, days - 1) else (seconds, days));
          utc = fillHMS seconds utc;
          date = Date_of_jdn (days + kJulianDayOf1970_01_01);
          ymd = yearMonthDay date;
          utc = utc\<lparr>tm_year := ymd_year ymd - 1900, tm_mon := ymd_month ymd - 1, tm_mday := ymd_day ymd,
                    tm_wday := weekDay date\<rparr>
      in if yday
         then utc\<lparr>tm_yday := julianDayNumber date - julianDayNumber (Date_new (ymd_year ymd) 1 1)\<rparr>
         else utc)"

definition fromUtcTime :: "int \<Rightarrow> int \<Rightarrow> int \<Rightarrow> int \<Rightarrow> int \<Rightarrow> int \<Rightarrow> int" where
  "fromUtcTime year month day hour minute seconds =
     (let date = Date_new year month day;
          secondsInDay = hour * 3600 + minute * 60 + seconds;
          days = julianDayNumber date - kJulianDayOf1970_01_01
      in days * kSecondsPerDay + secondsInDay)"

definition fromUtcTime_tm :: "tm \<Rightarrow> int" where
  "fromUtcTime_tm utc =
     fromUtcTime (tm_year utc + 1900) (tm_mon utc + 1) (tm_mday utc) (tm_hour utc) (tm_min utc) (tm_sec utc)"

definition gmtime_r :: "int \<Rightarrow> tm" where
  "gmtime_r t = toUtcTime t True"

definition timegm :: "tm \<Rightarrow> int" where
  "timegm t = fromUtcTime_tm t"

section \<open>The class\<close>

type_synonym TimeZone = "TZData option"

definition TimeZone_file :: "char list option \<Rightarrow> TimeZone res" where
  "TimeZone_file f =
     bindR (readTimeZoneFile f emptyData) (\<lambda>(ok, data). Inr (if ok then Some data else None))"

definition TimeZone_fixed :: "int \<Rightarrow> char list \<Rightarrow> TimeZone" where
  "TimeZone_fixed eastOfUtc name =
     Some \<lparr>transitions = [], localtimes = [\<lparr>gmtOffset = eastOfUtc, isDst = False, arrbIdx = 0\<rparr>],
           tz_abbreviation = name\<rparr>"

definition TimeZone_valid :: "TimeZone \<Rightarrow> bool" where
  "TimeZone_valid tz \<longleftrightarrow> tz \<noteq> None"

text \<open>The C string that starts at \<open>&abbreviation[i]\<close>.\<close>

definition zone_name :: "TZData \<Rightarrow> nat \<Rightarrow> char list res" where
  "zone_name data i =
     (if i \<le> length (tz_abbreviation data)
      then Inr (takeWhile (\<lambda>c. c \<noteq> CHR 0x00) (drop i (tz_abbreviation data)))
      else Inl UndefinedBehaviour)"

definition toLocalTime :: "TimeZone \<Rightarrow> int \<Rightarrow> tm res" where
  "toLocalTime tz seconds =
     (case tz of
        None \<Rightarrow> Inl AssertFailed
      | Some data \<Rightarrow>
          bindR (findLocaltime data \<lparr>gmttime = seconds, localtime = 0, localtimeIdx = 0\<rparr> True) (\<lambda>local.
          bindR (zone_name data (arrbIdx local)) (\<lambda>name.
          let localSeconds = seconds + gmtOffset local
          in Inr ((gmtime_r localSeconds)
               \<lparr>tm_isdst := isDst local, tm_gmtoff := gmtOffset local, tm_zone := name\<rparr>))))"

definition fromLocalTime :: "TimeZone \<Rightarrow> tm \<Rightarrow> int res" where
  "fromLocalTime tz localTm =
     (case tz of
        None \<Rightarrow> Inl AssertFailed
      | Some data \<Rightarrow>
          let seconds = timegm localTm
          in bindR (findLocaltime data \<lparr>gmttime = 0, localtime = seconds, localtimeIdx = 0\<rparr> False) (\<lambda>local.
             bindR (if tm_isdst localTm then
                      bindR (toLocalTime tz (seconds - gmtOffset local)) (\<lambda>tryTm.
                      Inr (if \<not> tm_isdst tryTm \<and> tm_hour tryTm = tm_hour localTm \<and> tm_min tryTm = tm_min localTm
                           then seconds - 3600 else seconds))
                    else Inr seconds) (\<lambda>seconds.
             Inr (seconds - gmtOffset local))))"

section \<open>UTC conversions\<close>

text \<open>The correction of the truncating division gives the rounding-down one.\<close>

lemma floor_split:
  assumes "0 < (n :: int)"
  shows "(if t smod n < 0 then (t smod n + n, t sdiv n - 1) else (t smod n, t sdiv n)) = (t mod n, t div n)"
proof (cases "0 \<le> t")
  case True
  moreover have "\<not> t mod n < 0" using pos_mod_sign [OF assms, of t] by linarith
  ultimately show ?thesis using assms by (simp only: smod_nonneg sdiv_nonneg if_False)
next
  case False
  have q: "t sdiv n = - (- t div n)"
    using False assms by (simp add: signed_divide_int_def sgn_if zero_less_mult_iff mult_less_0_iff)
  have r: "t smod n = - (- t mod n)"
    using q minus_sdiv_mult_eq_smod [of t n] minus_div_mult_eq_mod [of "- t" n] by simp
  have m: "0 \<le> - t mod n" "- t mod n < n" using assms by simp_all
  have e: "t = n * (- (- t div n)) - (- t mod n)" using mult_div_mod_eq [of n "- t"] by linarith
  show ?thesis
  proof (cases "- t mod n = 0")
    case True
    then have "t = n * (- (- t div n))" using e by simp
    then have "t div n = - (- t div n)" "t mod n = 0" using assms by (metis nonzero_mult_div_cancel_left less_irrefl,
          metis mod_mult_self1_is_0)
    with True q r show ?thesis by simp
  next
    case False
    have "t = n * (- (- t div n) - 1) + (n - - t mod n)" using e by (simp add: right_diff_distrib)
    moreover have "0 \<le> n - - t mod n" "n - - t mod n < n" using m False by simp_all
    ultimately have "t div n = - (- t div n) - 1" "t mod n = n - - t mod n"
      by (metis int_div_pos_eq, metis int_mod_pos_eq)
    with False m q r show ?thesis by simp
  qed
qed

definition utc_range :: "int \<Rightarrow> bool" where
  "utc_range t \<longleftrightarrow> - (2472632 * 86400) \<le> t \<and> t < 500000000 * 86400"

lemma utc_days:
  assumes "utc_range t"
  shows "-2472632 \<le> t div 86400" and "t div 86400 < 500000000" and "to_int (t smod 86400) = t smod 86400"
    and "to_int (t sdiv 86400) = t sdiv 86400"
proof -
  show d: "-2472632 \<le> t div 86400" "t div 86400 < 500000000"
    using assms div_bounds [of 86400 t] unfolding utc_range_def by linarith+
  have m: "0 \<le> t mod 86400" "t mod 86400 < 86400" by simp_all
  from floor_split [of 86400 t] have
    "t smod 86400 = t mod 86400 \<and> t sdiv 86400 = t div 86400 \<or>
     t smod 86400 = t mod 86400 - 86400 \<and> t sdiv 86400 = t div 86400 + 1"
    by (auto split: if_splits)
  then show "to_int (t smod 86400) = t smod 86400" "to_int (t sdiv 86400) = t sdiv 86400"
    using d m by auto
qed

lemma k1970: "kJulianDayOf1970_01_01 = 2440588"
  by (simp add: kJulianDayOf1970_01_01_def getJulianDayNumber_def Let_def sdiv_nonneg)

lemma toUtcTime_eq:
  assumes "utc_range t" and "getYearMonthDay (t div 86400 + 2440588) = \<lparr>ymd_year = y, ymd_month = m, ymd_day = d\<rparr>"
  shows "tm_year (toUtcTime t yd) = y - 1900" and "tm_mon (toUtcTime t yd) = m - 1" and "tm_mday (toUtcTime t yd) = d"
    and "tm_sec (toUtcTime t yd) = t mod 86400 mod 60" and "tm_min (toUtcTime t yd) = t mod 86400 div 60 mod 60"
    and "tm_hour (toUtcTime t yd) = t mod 86400 div 60 div 60"
    and "tm_wday (toUtcTime t yd) = (2440589 + t div 86400) smod 7"
proof -
  note r = utc_days(3,4) [OF assms(1)]
  have k: "kSecondsPerDay = 86400" by (simp add: kSecondsPerDay_def)
  have s: "(if t smod 86400 < 0 then (t smod 86400 + 86400, t sdiv 86400 - 1) else (t smod 86400, t sdiv 86400)) =
      (t mod 86400, t div 86400)" by (rule floor_split) simp
  show "tm_year (toUtcTime t yd) = y - 1900" and "tm_mon (toUtcTime t yd) = m - 1" and "tm_mday (toUtcTime t yd) = d"
    and "tm_sec (toUtcTime t yd) = t mod 86400 mod 60" and "tm_min (toUtcTime t yd) = t mod 86400 div 60 mod 60"
    and "tm_hour (toUtcTime t yd) = t mod 86400 div 60 div 60"
    and "tm_wday (toUtcTime t yd) = (2440589 + t div 86400) smod 7"
    unfolding toUtcTime_def Let_def k r s prod.case fillHMS_def
    by (simp_all add: k1970 Date_of_jdn_def yearMonthDay_def assms(2) weekDay_def kDaysPerWeek_def)
qed

lemma hms_split: "t mod 86400 div 60 div 60 * 3600 + t mod 86400 div 60 mod 60 * 60 + t mod 86400 mod 60 = t mod (86400 :: int)"
proof -
  have "c * 3600 + d * 60 + e = x" if "60 * c + d = b" "60 * b + e = x" for b c d e x :: int
    using that by simp
  from this [OF mult_div_mod_eq mult_div_mod_eq] show ?thesis .
qed

lemma hour_bound: "0 \<le> t mod 86400 div 60 div 60 \<and> t mod 86400 div 60 div 60 < (24 :: int)"
proof -
  have "0 \<le> q \<and> q < 24" if "0 \<le> r" "60 * q + r = p" "r < 60" "0 \<le> s" "60 * p + s = x" "s < 60" "0 \<le> x" "x < 86400"
    for p q r s x :: int
    using that by linarith
  from this [OF _ mult_div_mod_eq _ _ mult_div_mod_eq] show ?thesis by simp
qed

lemma fromUtcTime_eq:
  "fromUtcTime y m d h mi s = (getJulianDayNumber y m d - 2440588) * 86400 + (h * 3600 + mi * 60 + s)"
  by (simp add: fromUtcTime_def Let_def Date_new_def k1970 kSecondsPerDay_def)

lemma toUtcTime_valid:
  fixes yd :: bool
  assumes "utc_range t"
  defines "u \<equiv> toUtcTime t yd"
  shows "valid_date (tm_year u + 1900) (tm_mon u + 1) (tm_mday u)" and "fromUtcTime_tm u = t"
    and "0 \<le> tm_hour u \<and> tm_hour u < 24" and "0 \<le> tm_min u \<and> tm_min u < 60" and "0 \<le> tm_sec u \<and> tm_sec u < 60"
proof -
  have "-32044 \<le> t div 86400 + 2440588" using utc_days(1) [OF assms(1)] by simp
  from to_valid [OF this] obtain y m d where
    j: "getYearMonthDay (t div 86400 + 2440588) = \<lparr>ymd_year = y, ymd_month = m, ymd_day = d\<rparr>" "valid_date y m d"
    "getJulianDayNumber y m d = t div 86400 + 2440588" by blast
  note e = toUtcTime_eq [OF assms(1) j(1), where yd = yd, folded u_def]
  have ym: "tm_year u + 1900 = y" "tm_mon u + 1 = m" using e(1,2) by simp_all
  show "valid_date (tm_year u + 1900) (tm_mon u + 1) (tm_mday u)" unfolding ym e(3) by (rule j(2))
  have "fromUtcTime_tm u = (getJulianDayNumber y m d - 2440588) * 86400 + t mod 86400"
    unfolding fromUtcTime_tm_def ym e(3-6) fromUtcTime_eq hms_split ..
  also have "getJulianDayNumber y m d - 2440588 = t div 86400" using j(3) by simp
  finally show "fromUtcTime_tm u = t" by simp
  show "0 \<le> tm_hour u \<and> tm_hour u < 24" unfolding e by (rule hour_bound)
  show "0 \<le> tm_min u \<and> tm_min u < 60" and "0 \<le> tm_sec u \<and> tm_sec u < 60"
    by (simp_all add: e)
qed

section \<open>Finding the local time\<close>

definition trans_key :: "bool \<Rightarrow> Transition \<Rightarrow> int" where
  "trans_key g t = (if g then gmttime t else localtime t)"

lemma comp_key: "comp_less g a b \<longleftrightarrow> trans_key g a < trans_key g b" "comp_equal g a b \<longleftrightarrow> trans_key g a = trans_key g b"
  by (simp_all add: comp_less_def comp_equal_def trans_key_def)

lemma sorted_split:
  assumes "sorted_wrt (\<lambda>a b. f a < f b) xs"
  shows "filter (\<lambda>a. f a \<le> x) xs = takeWhile (\<lambda>a. f a < x) xs @
    (case dropWhile (\<lambda>a. f a < x) xs of [] \<Rightarrow> [] | b # bs \<Rightarrow> if f b = (x :: int) then [b] else [])"
  using assms
proof (induction xs)
  case (Cons a xs)
  have "filter (\<lambda>a. f a \<le> x) xs = []" if "x \<le> f a" using that Cons.prems by (auto simp: filter_empty_conv)
  with Cons show ?case by (auto split: list.splits)
qed simp

text \<open>
  The search finds the last transition at or before the given time, and the first local time
  type when there is none.
\<close>

lemma findLocaltime_spec:
  fixes sentry :: Transition
  assumes "sorted_wrt (\<lambda>a b. trans_key g a < trans_key g b) (transitions data)"
  defines "ts \<equiv> filter (\<lambda>t. trans_key g t \<le> trans_key g sentry) (transitions data)"
  shows "findLocaltime data sentry g = localtime_at data (if ts = [] then 0 else localtimeIdx (last ts))"
proof -
  let ?x = "trans_key g sentry"
  define A where "A = takeWhile (\<lambda>t. trans_key g t < ?x) (transitions data)"
  define B where "B = dropWhile (\<lambda>t. trans_key g t < ?x) (transitions data)"
  have ts: "ts = A @ (case B of [] \<Rightarrow> [] | b # bs \<Rightarrow> if trans_key g b = ?x then [b] else [])"
    unfolding ts_def A_def B_def by (rule sorted_split [OF assms(1)])
  have AB: "transitions data = A @ B" by (simp add: A_def B_def)
  have lb: "lower_bound_trans g (A @ B) sentry = length A"
    unfolding lower_bound_trans_def comp_key AB [symmetric] by (simp add: A_def)
  have A: "trans_key g a < ?x" if "a \<in> set A" for a using that by (auto simp: A_def dest: set_takeWhileD)
  have hd: "\<not> ?x < trans_key g (hd A)" if "A \<noteq> []" using A [of "hd A"] that by auto
  have last: "(A @ C) ! (length A - Suc 0) = last A" if "A \<noteq> []" for C
    using that by (simp add: nth_append last_conv_nth)
  show ?thesis
  proof (cases B)
    case Nil
    with ts hd lb show ?thesis unfolding findLocaltime_def Let_def comp_key AB by auto
  next
    case (Cons b bs)
    then have b: "\<not> trans_key g b < ?x" unfolding B_def by (metis dropWhile_eq_Cons_conv)
    show ?thesis
    proof (cases "A = []")
      case True
      with b ts lb Cons show ?thesis unfolding findLocaltime_def Let_def comp_key AB by auto
    next
      case False
      with b ts lb Cons hd last [of "b # bs"] show ?thesis
        unfolding findLocaltime_def Let_def comp_key AB by auto
    qed
  qed
qed

section \<open>Properties\<close>

text \<open>
  \<^bold>\<open>C22\<close>. Seconds since the epoch and broken-down UTC time determine each other: for every
  time in the range where the \<open>int\<close> arithmetic does not overflow, before or after 1970,
  \<open>toUtcTime\<close> gives a date of the calendar and a time of day, and \<open>fromUtcTime\<close> gives the
  seconds back.
\<close>

theorem utc_roundtrip:
  assumes "utc_range t"
  shows "fromUtcTime_tm (toUtcTime t yd) = t \<and>
    valid_date (tm_year (toUtcTime t yd) + 1900) (tm_mon (toUtcTime t yd) + 1) (tm_mday (toUtcTime t yd)) \<and>
    0 \<le> tm_hour (toUtcTime t yd) \<and> tm_hour (toUtcTime t yd) < 24 \<and>
    0 \<le> tm_min (toUtcTime t yd) \<and> tm_min (toUtcTime t yd) < 60 \<and>
    0 \<le> tm_sec (toUtcTime t yd) \<and> tm_sec (toUtcTime t yd) < 60"
  using toUtcTime_valid [OF assms, of yd] by blast

theorem utc_roundtrip_witness:
  "fromUtcTime_tm (toUtcTime (- 86401) True) = - 86401 \<and>
    valid_date (tm_year (toUtcTime (- 86401) True) + 1900) (tm_mon (toUtcTime (- 86401) True) + 1)
      (tm_mday (toUtcTime (- 86401) True))"
  using utc_roundtrip [of "- 86401" True] by (simp add: utc_range_def)

text \<open>
  \<^bold>\<open>C21\<close>. Local time round trip: for a zone whose transitions are sorted by UTC and by
  local time, if the local time of \<open>t\<close> has not been reached by a later transition (it is not in
  the hour that is repeated when the clock is set back), \<open>fromLocalTime\<close> of \<open>toLocalTime t\<close> is \<open>t\<close>.
\<close>

definition zone_ok :: "TZData \<Rightarrow> bool" where
  "zone_ok data \<longleftrightarrow>
     sorted_wrt (\<lambda>a b. gmttime a < gmttime b) (transitions data) \<and>
     sorted_wrt (\<lambda>a b. localtime a < localtime b) (transitions data) \<and> localtimes data \<noteq> [] \<and>
     (\<forall>tr \<in> set (transitions data). localtimeIdx tr < length (localtimes data) \<and>
        localtime tr = gmttime tr + gmtOffset (localtimes data ! localtimeIdx tr)) \<and>
     (\<forall>l \<in> set (localtimes data). arrbIdx l \<le> length (tz_abbreviation data))"

definition in_force :: "TZData \<Rightarrow> int \<Rightarrow> Localtime" where
  "in_force data t =
     (let ts = filter (\<lambda>tr. gmttime tr \<le> t) (transitions data)
      in localtimes data ! (if ts = [] then 0 else localtimeIdx (last ts)))"

theorem local_roundtrip:
  assumes "zone_ok data" and "utc_range (t + gmtOffset (in_force data t))"
    and "\<forall>tr \<in> set (transitions data).
      (gmttime tr \<le> t \<longrightarrow> localtime tr \<le> t + gmtOffset (in_force data t)) \<and>
      (t < gmttime tr \<longrightarrow> t + gmtOffset (in_force data t) < localtime tr)"
  shows "bindR (toLocalTime (Some data) t) (fromLocalTime (Some data)) = Inr t"
proof -
  let ?l = "in_force data t" and ?L = "t + gmtOffset (in_force data t)"
  let ?s = "\<lparr>gmttime = t, localtime = 0, localtimeIdx = 0\<rparr>" and ?r = "\<lparr>gmttime = 0, localtime = ?L, localtimeIdx = 0\<rparr>"
  have srt: "sorted_wrt (\<lambda>a b. trans_key g a < trans_key g b) (transitions data)" for g
    using assms(1) by (cases g) (simp_all add: zone_ok_def trans_key_def)
  have eq: "filter (\<lambda>tr. localtime tr \<le> ?L) (transitions data) = filter (\<lambda>tr. gmttime tr \<le> t) (transitions data)"
    using assms(3) by (intro filter_cong) (auto simp: not_le [symmetric])
  define i where "i = (if filter (\<lambda>tr. gmttime tr \<le> t) (transitions data) = [] then 0
      else localtimeIdx (last (filter (\<lambda>tr. gmttime tr \<le> t) (transitions data))))"
  have l: "?l = localtimes data ! i" by (simp add: in_force_def i_def Let_def)
  have idx: "i < length (localtimes data)"
    using assms(1) last_in_set [of "filter (\<lambda>tr. gmttime tr \<le> t) (transitions data)"]
    by (auto simp: zone_ok_def i_def)
  have "trans_key True tr \<le> trans_key True ?s \<longleftrightarrow> gmttime tr \<le> t"
    "trans_key False tr \<le> trans_key False ?r \<longleftrightarrow> localtime tr \<le> ?L" for tr
    by (simp_all add: trans_key_def)
  then have "findLocaltime data ?s True = localtime_at data i" "findLocaltime data ?r False = localtime_at data i"
    unfolding findLocaltime_spec [OF srt] i_def by (simp_all only: eq)
  then have g: "findLocaltime data ?s True = Inr ?l" and lc: "findLocaltime data ?r False = Inr ?l"
    using idx unfolding l by (simp_all add: localtime_at_def)
  have "?l \<in> set (localtimes data)" using idx unfolding l by simp
  then obtain name where name: "zone_name data (arrbIdx ?l) = Inr name"
    using assms(1) by (auto simp: zone_ok_def zone_name_def)
  let ?tm = "(gmtime_r ?L)\<lparr>tm_isdst := isDst ?l, tm_gmtoff := gmtOffset ?l, tm_zone := name\<rparr>"
  have to: "toLocalTime (Some data) t = Inr ?tm" using g name by (simp add: toLocalTime_def)
  have "timegm ?tm = ?L"
    using toUtcTime_valid(2) [OF assms(2), of True] by (simp add: timegm_def fromUtcTime_tm_def gmtime_r_def)
  then have "fromLocalTime (Some data) ?tm = Inr t"
    using lc to by (simp add: fromLocalTime_def Let_def)
  with to show ?thesis by simp
qed

definition ex_zone :: TZData where
  "ex_zone = \<lparr>transitions = [\<lparr>gmttime = 1000000, localtime = 1003600, localtimeIdx = 1\<rparr>,
       \<lparr>gmttime = 2000000, localtime = 2000000, localtimeIdx = 0\<rparr>],
     localtimes = [\<lparr>gmtOffset = 0, isDst = False, arrbIdx = 0\<rparr>, \<lparr>gmtOffset = 3600, isDst = True, arrbIdx = 4\<rparr>],
     tz_abbreviation = ''STD'' @ [CHR 0x00] @ ''DST''\<rparr>"

theorem local_roundtrip_witness:
  "bindR (toLocalTime (Some ex_zone) 1500000) (fromLocalTime (Some ex_zone)) = Inr 1500000"
  by (rule local_roundtrip) (simp_all add: zone_ok_def ex_zone_def in_force_def utc_range_def)

text \<open>
  \<^bold>\<open>C34\<close>. A zone file that cannot be opened, or is too short, still gives a zone that claims to
  be valid: \<open>readTimeZoneFile\<close> returns true in every case, and the first use of the zone reads the
  front of an empty vector.
\<close>

theorem missing_zone_file:
  assumes "f = None \<or> (\<exists>bs. f = Some bs \<and> length bs < 44)"
  shows "\<exists>tz. TimeZone_file f = Inr tz \<and> TimeZone_valid tz \<and>
    (\<forall>t. toLocalTime tz t = Inl UndefinedBehaviour) \<and> (\<forall>x. fromLocalTime tz x = Inl UndefinedBehaviour)"
proof -
  have i: "\<exists>w r. read_zone \<lparr>bytes = bs, tzdata = emptyData\<rparr> = (Inl (LogicError w), \<lparr>bytes = r, tzdata = emptyData\<rparr>)"
    if "length bs < 44" for bs
    using that
    by (auto simp: read_zone_def bindT_def throwT_def File_readBytes_def File_readInt32_def)
  have "TimeZone_file f = Inr (Some emptyData)"
    using assms i by (fastforce simp: TimeZone_file_def readTimeZoneFile_def)
  moreover have "toLocalTime (Some emptyData) t = Inl UndefinedBehaviour" for t
    by (simp add: toLocalTime_def findLocaltime_def emptyData_def localtime_at_def)
  moreover have "fromLocalTime (Some emptyData) x = Inl UndefinedBehaviour" for x
    by (simp add: fromLocalTime_def findLocaltime_def emptyData_def localtime_at_def Let_def)
  ultimately show ?thesis by (auto simp: TimeZone_valid_def)
qed

theorem missing_zone_file_witness:
  "\<exists>tz. TimeZone_file None = Inr tz \<and> TimeZone_valid tz \<and>
    (\<forall>t. toLocalTime tz t = Inl UndefinedBehaviour) \<and> (\<forall>x. fromLocalTime tz x = Inl UndefinedBehaviour)"
  by (rule missing_zone_file) simp

section \<open>Zone files\<close>

text \<open>
  The zone file format of \<open>tzfile(5)\<close>, version 1 block: the magic, the counts, the transition times,
  their local time types, the types, the abbreviations; what follows is not read.
\<close>

definition be32 :: "int \<Rightarrow> char list" where
  "be32 i = rev (mem_bytes (word_of_int i :: 32 word))"

definition int32 :: "int \<Rightarrow> bool" where
  "int32 i \<longleftrightarrow> - (2 ^ 31) \<le> i \<and> i < 2 ^ 31"

definition encode_type :: "Localtime \<Rightarrow> char list" where
  "encode_type l = be32 (gmtOffset l) @ [char_of (if isDst l then 1 else 0 :: nat), char_of (arrbIdx l)]"

definition encode_zone ::
  "char \<Rightarrow> int \<Rightarrow> int \<Rightarrow> int \<Rightarrow> (int \<times> nat) list \<Rightarrow> Localtime list \<Rightarrow> char list \<Rightarrow> char list" where
  "encode_zone version isgmtcnt isstdcnt leapcnt trs types abbr =
     ''TZif'' @ [version] @ replicate 15 (CHR 0x00) @ be32 isgmtcnt @ be32 isstdcnt @ be32 leapcnt @
     be32 (int (length trs)) @ be32 (int (length types)) @ be32 (int (length abbr)) @
     concat (map (be32 \<circ> fst) trs) @ map (char_of \<circ> snd) trs @ concat (map encode_type types) @ abbr"

definition zone_data :: "(int \<times> nat) list \<Rightarrow> Localtime list \<Rightarrow> char list \<Rightarrow> TZData" where
  "zone_data trs types abbr =
     \<lparr>transitions = map (\<lambda>(t, i). \<lparr>gmttime = t, localtime = t + gmtOffset (types ! i), localtimeIdx = i\<rparr>) trs,
      localtimes = types, tz_abbreviation = abbr\<rparr>"

lemma length_be32 [simp]: "length (be32 i) = 4"
  by (simp add: be32_def)

lemma be32_value: "int32 i \<Longrightarrow> sint (networkToHost32 (mem_value (be32 i))) = i"
proof -
  assume i: "int32 i"
  have "networkToHost32 (mem_value (be32 i)) = (word_of_int i :: 32 word)"
    unfolding be32_def networkToHost32_def bswap_def [symmetric] by (rule bswap_bswap) simp
  with i show ?thesis by (simp add: int32_def signed_of_int signed_take_bit_int_eq_self)
qed

lemma readInt32_be32:
  "bytes s = be32 i @ r \<Longrightarrow> int32 i \<Longrightarrow> File_readInt32 s = (Inr i, s\<lparr>bytes := r\<rparr>)"
  by (simp add: File_readInt32_def be32_value)

lemma readUInt8_char:
  "bytes s = char_of n # r \<Longrightarrow> n < 256 \<Longrightarrow> File_readUInt8 s = (Inr n, s\<lparr>bytes := r\<rparr>)"
  by (simp add: File_readUInt8_def of_char_of)

lemma repeatT_read:
  assumes "\<And>x r s. x \<in> set xs \<Longrightarrow> bytes s = enc x @ r \<Longrightarrow> m s = (Inr x, s\<lparr>bytes := r\<rparr>)"
    and "bytes s = concat (map enc xs) @ r"
  shows "repeatT (length xs) m s = (Inr xs, s\<lparr>bytes := r\<rparr>)"
  using assms
proof (induction xs arbitrary: s)
  case Nil
  then show ?case by (simp add: returnT_def)
next
  case (Cons x xs)
  have "m s = (Inr x, s\<lparr>bytes := concat (map enc xs) @ r\<rparr>)" using Cons.prems by simp
  moreover have "repeatT (length xs) m (s\<lparr>bytes := concat (map enc xs) @ r\<rparr>) =
      (Inr xs, s\<lparr>bytes := concat (map enc xs) @ r\<rparr>\<lparr>bytes := r\<rparr>)"
    using Cons.prems(1) by (intro Cons.IH) simp_all
  ultimately show ?case by (simp add: bindT_def returnT_def)
qed

lemma push_localtimes:
  assumes "\<forall>l \<in> set types. int32 (gmtOffset l) \<and> arrbIdx l < 256"
    and "bytes s = concat (map encode_type types) @ r"
  shows "\<exists>us. repeatT (length types) push_localtime s =
    (Inr us, s\<lparr>bytes := r, tzdata := (tzdata s)\<lparr>localtimes := localtimes (tzdata s) @ types\<rparr>\<rparr>)"
  using assms
proof (induction types arbitrary: s)
  case Nil
  then show ?case by (simp add: returnT_def)
next
  case (Cons l types)
  let ?r = "concat (map encode_type types) @ r"
  let ?s = "s\<lparr>bytes := ?r, tzdata := (tzdata s)\<lparr>localtimes := localtimes (tzdata s) @ [l]\<rparr>\<rparr>"
  have l: "int32 (gmtOffset l)" "arrbIdx l < 256" using Cons.prems(1) by simp_all
  have b: "bytes s = be32 (gmtOffset l) @ char_of (if isDst l then 1 else 0 :: nat) # char_of (arrbIdx l) # ?r"
    using Cons.prems(2) encode_type_def [of l] by simp
  have p: "push_localtime s = (Inr (), ?s)"
    using l(2) readInt32_be32 [OF b l(1)]
    by (cases "isDst l"; cases l) (simp_all add: push_localtime_def bindT_def File_readUInt8_def of_char_of)
  obtain us where "repeatT (length types) push_localtime ?s =
      (Inr us, ?s\<lparr>bytes := r, tzdata := (tzdata ?s)\<lparr>localtimes := localtimes (tzdata ?s) @ types\<rparr>\<rparr>)"
    using Cons.IH [of ?s] Cons.prems(1) by auto
  with p show ?case by (simp add: bindT_def returnT_def)
qed

lemma push_transitions_all:
  assumes "\<forall>(t, i) \<in> set trs. i < length (localtimes (tzdata s))"
  shows "push_transitions trs s = (Inr (), s\<lparr>tzdata := (tzdata s)\<lparr>transitions := transitions (tzdata s) @
    map (\<lambda>(t, i). \<lparr>gmttime = t, localtime = t + gmtOffset (localtimes (tzdata s) ! i), localtimeIdx = i\<rparr>) trs\<rparr>\<rparr>)"
  using assms
proof (induction trs arbitrary: s)
  case Nil
  then show ?case by (simp add: returnT_def)
next
  case (Cons x trs)
  then show ?case by (cases x) (simp add: Let_def)
qed

text \<open>
  \<^bold>\<open>C20\<close>. Reading a well-formed zone file gives exactly the zone it encodes: the transitions with
  their local times, the local time types and the abbreviations, whatever follows the first block.
\<close>

theorem zone_file_roundtrip:
  assumes "int32 isgmtcnt" and "int32 isstdcnt" and "int32 leapcnt"
    and "length trs < 2 ^ 31" and "length types < 2 ^ 31" and "length abbr < 2 ^ 31"
    and "\<forall>(t, i) \<in> set trs. int32 t \<and> i < length types \<and> i < 256"
    and "\<forall>l \<in> set types. int32 (gmtOffset l) \<and> arrbIdx l < 256"
  shows "TimeZone_file (Some (encode_zone version isgmtcnt isstdcnt leapcnt trs types abbr @ rest)) =
    Inr (Some (zone_data trs types abbr))"
proof -
  have n: "int32 (int (length trs))" "int32 (int (length types))" "int32 (int (length abbr))"
    using assms(4-6) by (simp_all add: int32_def)
  let ?r3 = "abbr @ rest" and ?s = "\<lambda>b. \<lparr>bytes = b, tzdata = emptyData\<rparr>"
  define r2 where "r2 = concat (map encode_type types) @ ?r3"
  define r1 where "r1 = concat (map (\<lambda>i. [char_of i]) (map snd trs)) @ r2"
  define r0 where "r0 = concat (map be32 (map fst trs)) @ r1"
  let ?h = "be32 isgmtcnt @ be32 isstdcnt @ be32 leapcnt @ be32 (int (length trs)) @ be32 (int (length types)) @
    be32 (int (length abbr)) @ r0"
  have enc: "encode_zone version isgmtcnt isstdcnt leapcnt trs types abbr @ rest =
      ''TZif'' @ [version] @ replicate 15 (CHR 0x00) @ ?h"
    by (simp add: encode_zone_def r0_def r1_def r2_def o_def concat_map_singleton)
  have c: "File_readInt32 (?s (be32 i @ r)) = (Inr i, ?s r)" if "int32 i" for i r
    using readInt32_be32 [of "?s (be32 i @ r)" i r] that by simp
  have p1: "File_readInt32 s = (Inr x, s\<lparr>bytes := r\<rparr>)" if "x \<in> set (map fst trs)" "bytes s = be32 x @ r" for x r s
    using readInt32_be32 [of s x r] that assms(7) by auto
  have p2: "File_readUInt8 s = (Inr x, s\<lparr>bytes := r\<rparr>)"
    if "x \<in> set (map snd trs)" "bytes s = [char_of x] @ r" for x r s
    using readUInt8_char [of s x r] that assms(7) by auto
  have t: "repeatT (length trs) File_readInt32 (?s r0) = (Inr (map fst trs), ?s r1)"
    using repeatT_read [of "map fst trs" be32 File_readInt32 "?s r0" r1] p1 by (simp add: r0_def)
  have i: "repeatT (length trs) File_readUInt8 (?s r1) = (Inr (map snd trs), ?s r2)"
    using repeatT_read [of "map snd trs" "\<lambda>i. [char_of i]" File_readUInt8 "?s r1" r2] p2 by (simp add: r1_def)
  obtain us where l: "repeatT (length types) push_localtime (?s r2) =
      (Inr us, \<lparr>bytes = ?r3, tzdata = emptyData\<lparr>localtimes := types\<rparr>\<rparr>)"
    using push_localtimes [OF assms(8), of "?s r2" ?r3] by (auto simp: emptyData_def r2_def)
  have p: "push_transitions trs \<lparr>bytes = ?r3, tzdata = emptyData\<lparr>localtimes := types\<rparr>\<rparr> =
      (Inr (), \<lparr>bytes = ?r3, tzdata = (zone_data trs types [])\<rparr>)"
    using push_transitions_all [of trs "\<lparr>bytes = ?r3, tzdata = emptyData\<lparr>localtimes := types\<rparr>\<rparr>"] assms(7)
    by (auto simp: emptyData_def zone_data_def)
  have "read_zone (?s (''TZif'' @ [version] @ replicate 15 (CHR 0x00) @ ?h)) =
      (Inr (), \<lparr>bytes = rest, tzdata = zone_data trs types abbr\<rparr>)"
    unfolding read_zone_def
    by (simp add: bindT_def File_readBytes_def c assms(1-3) n t i l p zip_map_fst_snd)
      (simp add: zone_data_def)
  then show ?thesis unfolding TimeZone_file_def readTimeZoneFile_def enc by simp
qed

theorem zone_file_roundtrip_witness:
  "TimeZone_file (Some (encode_zone (CHR ''2'') 2 2 0 [(1000000, 1), (2000000, 0)] (localtimes ex_zone)
     (tz_abbreviation ex_zone) @ ''TZif'')) = Inr (Some ex_zone)"
proof -
  have "ex_zone = zone_data [(1000000, 1), (2000000, 0)] (localtimes ex_zone) (tz_abbreviation ex_zone)"
    by (simp add: ex_zone_def zone_data_def)
  moreover have "TimeZone_file (Some (encode_zone (CHR ''2'') 2 2 0 [(1000000, 1), (2000000, 0)]
      (localtimes ex_zone) (tz_abbreviation ex_zone) @ ''TZif'')) =
    Inr (Some (zone_data [(1000000, 1), (2000000, 0)] (localtimes ex_zone) (tz_abbreviation ex_zone)))"
    by (rule zone_file_roundtrip) (simp_all add: ex_zone_def int32_def)
  ultimately show ?thesis by simp
qed

end
