(* ===== verification/Base_Timestamp.thy ===== *)
theory Base_Timestamp
  imports Complex_Main Base_TimeZone
begin

text \<open>
  \<open>muduo/base/Timestamp.h\<close> and \<open>Timestamp.cc\<close>: microseconds since the epoch, in the \<open>int64_t\<close>
  that is the class's only member. A \<open>double\<close> is its exact value, a rational; the product of
  two doubles is rounded, so multiplication is an argument \<open>dmul\<close>.
\<close>

type_synonym Timestamp = int
type_synonym double = rat

definition kMicroSecondsPerSecond :: int where
  "kMicroSecondsPerSecond = 1000 * 1000"

definition Timestamp_invalid :: Timestamp where
  "Timestamp_invalid = 0"

definition Timestamp_valid :: "Timestamp \<Rightarrow> bool" where
  "Timestamp_valid t \<longleftrightarrow> t > 0"

definition secondsSinceEpoch :: "Timestamp \<Rightarrow> int" where
  "secondsSinceEpoch t = t sdiv kMicroSecondsPerSecond"

definition fromUnixTime :: "int \<Rightarrow> int \<Rightarrow> Timestamp" where
  "fromUnixTime t microseconds = t * kMicroSecondsPerSecond + microseconds"

text \<open>\<open>Timestamp::now\<close>, given what \<open>gettimeofday\<close> put into the \<open>timeval\<close>.\<close>

definition Timestamp_now :: "int \<times> int \<Rightarrow> Timestamp" where
  "Timestamp_now tv = (case tv of (tv_sec, tv_usec) \<Rightarrow> tv_sec * kMicroSecondsPerSecond + tv_usec)"

text \<open>\<open>static_cast<int64_t>\<close> of a \<open>double\<close> in range drops the fraction.\<close>

definition trunc :: "double \<Rightarrow> int" where
  "trunc x = (if 0 \<le> x then \<lfloor>x\<rfloor> else \<lceil>x\<rceil>)"

definition addTime :: "(double \<Rightarrow> double \<Rightarrow> double) \<Rightarrow> Timestamp \<Rightarrow> double \<Rightarrow> Timestamp" where
  "addTime dmul timestamp seconds =
     (let delta = trunc (dmul seconds (of_int kMicroSecondsPerSecond)) in timestamp + delta)"

definition timeDifference :: "(double \<Rightarrow> double \<Rightarrow> double) \<Rightarrow> (int \<Rightarrow> double) \<Rightarrow> Timestamp \<Rightarrow> Timestamp \<Rightarrow> double" where
  "timeDifference ddiv to_double high low =
     (let diff = high - low in ddiv (to_double diff) (of_int kMicroSecondsPerSecond))"

definition Timestamp_toString :: "Timestamp \<Rightarrow> string" where
  "Timestamp_toString t =
     (let seconds = t sdiv kMicroSecondsPerSecond;
          microseconds = t smod kMicroSecondsPerSecond
      in take 31 (int_digits seconds @ ''.'' @ fmt_zero 6 microseconds))"

definition toFormattedString :: "bool \<Rightarrow> Timestamp \<Rightarrow> string" where
  "toFormattedString showMicroseconds t =
     (let seconds = t sdiv kMicroSecondsPerSecond;
          tm_time = gmtime_r seconds;
          date = fmt_space 4 (tm_year tm_time + 1900) @ fmt_zero 2 (tm_mon tm_time + 1) @
                 fmt_zero 2 (tm_mday tm_time) @ '' '' @
                 fmt_zero 2 (tm_hour tm_time) @ '':'' @ fmt_zero 2 (tm_min tm_time) @ '':'' @
                 fmt_zero 2 (tm_sec tm_time)
      in take 63 (if showMicroseconds
                  then let microseconds = to_int (t smod kMicroSecondsPerSecond)
                       in date @ ''.'' @ fmt_zero 6 microseconds
                  else date))"

lemma trunc_of_int [simp]: "trunc (of_int n) = n"
  by (simp add: trunc_def)

lemma addTime_later: "0 \<le> dmul seconds (of_int kMicroSecondsPerSecond) \<Longrightarrow> t \<le> addTime dmul t seconds"
  by (simp add: addTime_def trunc_def)

lemma Timestamp_now_pos: "0 \<le> tv_sec \<Longrightarrow> 0 \<le> tv_usec \<Longrightarrow> 0 < tv_sec \<or> 0 < tv_usec \<Longrightarrow> 0 < Timestamp_now (tv_sec, tv_usec)"
  by (auto simp: Timestamp_now_def kMicroSecondsPerSecond_def)

end
