(* ===== verification/Net_TimerQueue.thy ===== *)
theory Net_TimerQueue
  imports Net_EventLoop Base_Timestamp "HOL-Library.Product_Lexorder"
begin

text \<open>
  \<open>muduo/net/TimerQueue.h\<close>, \<open>TimerQueue.cc\<close>, \<open>Timer.h\<close>, \<open>Timer.cc\<close>, \<open>TimerId.h\<close> and the timer
  calls of \<open>EventLoop.cc\<close>. The record extends the event loop's. A \<open>std::set\<close> of entries is the
  strictly sorted list of its elements, ordered as \<open>std::pair\<close> is; the \<open>Timer\<close> objects are in
  \<open>timer_heap\<close>, by address, so that a use after \<open>delete\<close> is an error of the model.

  \<open>armed\<close> is the setting of the timerfd that no \<open>read\<close> has consumed yet. The rest of what the
  code calls is an environment: the results of the successive \<open>gettimeofday\<close> calls, whether a
  \<open>read\<close> of the timerfd found it expired, \<open>timerfd_settime\<close>, the allocator, the product of
  doubles, and the user's callbacks. A callback is a program \<open>prog\<close> of timer calls, each of which may
  depend on the \<open>TimerId\<close>s it received. \<open>fired\<close> records the timers run, by sequence number.
\<close>

section \<open>State\<close>

record Timer =
  t_callback :: nat
  t_expiration :: Timestamp
  t_interval :: double
  t_repeat :: bool
  t_sequence :: int

record TimerId =
  id_timer :: ptr
  id_sequence :: int

definition TimerId_null :: TimerId where
  "TimerId_null = \<lparr>id_timer = 0, id_sequence = 0\<rparr>"

datatype timer_functor = AddTimerInLoop ptr | CancelInLoop TimerId

type_synonym Entry = "Timestamp \<times> ptr"
type_synonym ActiveTimer = "ptr \<times> int"
type_synonym timespec = "int \<times> int"

record TimerQ = "timer_functor EventLoop" +
  timerfd :: int
  timerfdChannel :: ptr
  timers :: "Entry list"
  activeTimers :: "ActiveTimer set"
  callingExpiredTimers :: bool
  cancelingTimers :: "ActiveTimer set"
  timer_heap :: "ptr \<rightharpoonup> Timer"
  s_numCreated :: int
  armed :: "timespec option"
  nowCalls :: nat
  readCalls :: nat
  fired :: "int list"

datatype prog =
    Return
  | RunAt Timestamp nat "TimerId \<Rightarrow> prog"
  | RunAfter double nat "TimerId \<Rightarrow> prog"
  | RunEvery double nat "TimerId \<Rightarrow> prog"
  | Cancel TimerId prog

record TimerEnv =
  te_ctl :: epoll_ctl
  te_time :: "nat \<Rightarrow> int \<times> int"
  te_read :: "nat \<Rightarrow> bool"
  te_settime :: "timespec \<Rightarrow> timespec option \<Rightarrow> bool \<times> timespec option"
  te_alloc :: "nat \<Rightarrow> (ptr \<rightharpoonup> Timer) \<Rightarrow> ptr option"
  te_dmul :: "double \<Rightarrow> double \<Rightarrow> double"
  te_callback :: "nat \<Rightarrow> TimerQ \<Rightarrow> prog"

definition UINTPTR_MAX :: nat where
  "UINTPTR_MAX = 18446744073709551615"

section \<open>Timers\<close>

definition Timer_new :: "nat \<Rightarrow> Timestamp \<Rightarrow> double \<Rightarrow> int \<Rightarrow> Timer" where
  "Timer_new cb when interval created =
     \<lparr>t_callback = cb, t_expiration = when, t_interval = interval, t_repeat = (interval > 0),
      t_sequence = created + 1\<rparr>"

definition restart :: "TimerEnv \<Rightarrow> Timestamp \<Rightarrow> Timer \<Rightarrow> Timer" where
  "restart E now t =
     (if t_repeat t then t\<lparr>t_expiration := addTime (te_dmul E) now (t_interval t)\<rparr>
      else t\<lparr>t_expiration := Timestamp_invalid\<rparr>)"

definition derefT :: "ptr \<Rightarrow> TimerQ \<Rightarrow> Timer res" where
  "derefT p s = (case timer_heap s p of None \<Rightarrow> Inl UndefinedBehaviour | Some t \<Rightarrow> Inr t)"

definition deleteT :: "ptr \<Rightarrow> TimerQ \<Rightarrow> TimerQ res" where
  "deleteT p s = bindR (derefT p s) (\<lambda>_. Inr (s\<lparr>timer_heap := (timer_heap s)(p := None)\<rparr>))"

definition now_call :: "TimerEnv \<Rightarrow> TimerQ \<Rightarrow> Timestamp \<times> TimerQ" where
  "now_call E s = (Timestamp_now (te_time E (nowCalls s)), s\<lparr>nowCalls := nowCalls s + 1\<rparr>)"

section \<open>The timerfd\<close>

definition createTimerfd :: "int \<Rightarrow> int res" where
  "createTimerfd r = (if r < 0 then Inl LogFatal else Inr r)"

definition howMuchTimeFromNow :: "Timestamp \<Rightarrow> Timestamp \<Rightarrow> timespec" where
  "howMuchTimeFromNow when now =
     (let microseconds = when - now;
          microseconds = (if microseconds < 100 then 100 else microseconds)
      in (microseconds sdiv kMicroSecondsPerSecond, (microseconds smod kMicroSecondsPerSecond) * 1000))"

definition readTimerfd :: "TimerEnv \<Rightarrow> TimerQ \<Rightarrow> TimerQ" where
  "readTimerfd E s =
     (let expired = te_read E (readCalls s); s = s\<lparr>readCalls := readCalls s + 1\<rparr>
      in if expired then s\<lparr>armed := None\<rparr> else s)"

definition resetTimerfd :: "TimerEnv \<Rightarrow> Timestamp \<Rightarrow> TimerQ \<Rightarrow> TimerQ" where
  "resetTimerfd E expiration s =
     (let (now, s) = now_call E s;
          (ok, tfd) = te_settime E (howMuchTimeFromNow expiration now) (armed s)
      in s\<lparr>armed := tfd\<rparr>)"

section \<open>The queue\<close>

definition TimerQueue_new ::
  "TimerEnv \<Rightarrow> int \<Rightarrow> ptr \<Rightarrow> int \<Rightarrow> timer_functor EventLoop \<Rightarrow> TimerQ res" where
  "TimerQueue_new E r p created loop =
     bindR (createTimerfd r) (\<lambda>tfd.
     enableReading (EPollPoller_updateChannel (te_ctl E)) p
       (EventLoop.extend (loop\<lparr>heap := (heap loop)(p \<mapsto> Channel_new (self loop) tfd)\<rparr>)
         (TimerQ.fields tfd p [] {} False {} Map.empty created None 0 0 [])))"

definition TimerQueue_dtor :: "TimerEnv \<Rightarrow> TimerQ \<Rightarrow> TimerQ res" where
  "TimerQueue_dtor E s =
     bindR (disableAll (EPollPoller_updateChannel (te_ctl E)) (timerfdChannel s) s) (\<lambda>s.
     bindR (Channel_remove (EPollPoller_removeChannel (te_ctl E)) (timerfdChannel s) s) (\<lambda>s.
     foldR (\<lambda>timer. deleteT (snd timer)) (timers s) s))"

definition insert_timer :: "ptr \<Rightarrow> TimerQ \<Rightarrow> (bool \<times> TimerQ) res" where
  "insert_timer timer s =
     bindR (assertInLoopThread s) (\<lambda>_.
     bindR (assertR (length (timers s) = card (activeTimers s)) ()) (\<lambda>_.
     bindR (derefT timer s) (\<lambda>t.
     let when = t_expiration t;
         earliestChanged = (timers s = [] \<or> when < fst (hd (timers s)))
     in bindR (assertR ((when, timer) \<notin> set (timers s)) (s\<lparr>timers := insort (when, timer) (timers s)\<rparr>)) (\<lambda>s.
        bindR (assertR ((timer, t_sequence t) \<notin> activeTimers s)
          (s\<lparr>activeTimers := insert (timer, t_sequence t) (activeTimers s)\<rparr>)) (\<lambda>s.
        bindR (assertR (length (timers s) = card (activeTimers s)) ()) (\<lambda>_.
        Inr (earliestChanged, s)))))))"

definition addTimerInLoop :: "TimerEnv \<Rightarrow> ptr \<Rightarrow> TimerQ \<Rightarrow> TimerQ res" where
  "addTimerInLoop E timer s =
     bindR (assertInLoopThread s) (\<lambda>_.
     bindR (insert_timer timer s) (\<lambda>(earliestChanged, s).
     if earliestChanged then bindR (derefT timer s) (\<lambda>t. Inr (resetTimerfd E (t_expiration t) s))
     else Inr s))"

definition cancelInLoop :: "TimerId \<Rightarrow> TimerQ \<Rightarrow> TimerQ res" where
  "cancelInLoop timerId s =
     bindR (assertInLoopThread s) (\<lambda>_.
     bindR (assertR (length (timers s) = card (activeTimers s)) ()) (\<lambda>_.
     let timer = (id_timer timerId, id_sequence timerId)
     in bindR (if timer \<in> activeTimers s then
                 bindR (derefT (fst timer) s) (\<lambda>t.
                 let entry = (t_expiration t, fst timer)
                 in bindR (assertR (entry \<in> set (timers s)) (s\<lparr>timers := remove1 entry (timers s)\<rparr>)) (\<lambda>s.
                    bindR (deleteT (fst timer) s) (\<lambda>s.
                    Inr (s\<lparr>activeTimers := activeTimers s - {timer}\<rparr>))))
               else if callingExpiredTimers s then
                 Inr (s\<lparr>cancelingTimers := insert timer (cancelingTimers s)\<rparr>)
               else Inr s) (\<lambda>s.
        assertR (length (timers s) = card (activeTimers s)) s)))"

fun run_functor :: "TimerEnv \<Rightarrow> timer_functor \<Rightarrow> TimerQ \<Rightarrow> TimerQ res" where
  "run_functor E (AddTimerInLoop p) s = addTimerInLoop E p s"
| "run_functor E (CancelInLoop timerId) s = cancelInLoop timerId s"

text \<open>
  \<open>addTimer\<close> first creates the timer and passes it to the loop, then reads its sequence number
  for the \<open>TimerId\<close> it returns; the two halves are separate definitions, because a thread other
  than the loop's can be preempted between them.
\<close>

definition addTimer_post :: "TimerEnv \<Rightarrow> nat \<Rightarrow> Timestamp \<Rightarrow> double \<Rightarrow> TimerQ \<Rightarrow> (ptr \<times> TimerQ) res" where
  "addTimer_post E cb when interval s =
     (case te_alloc E (nat (s_numCreated s)) (timer_heap s) of
        None \<Rightarrow> Inl BadAlloc
      | Some timer \<Rightarrow>
          let s = s\<lparr>timer_heap := (timer_heap s)(timer \<mapsto> Timer_new cb when interval (s_numCreated s)),
                    s_numCreated := s_numCreated s + 1\<rparr>
          in bindR (runInLoop (run_functor E) (AddTimerInLoop timer) s) (\<lambda>s. Inr (timer, s)))"

definition addTimer_return :: "ptr \<Rightarrow> TimerQ \<Rightarrow> TimerId res" where
  "addTimer_return timer s =
     bindR (derefT timer s) (\<lambda>t. Inr \<lparr>id_timer = timer, id_sequence = t_sequence t\<rparr>)"

definition addTimer :: "TimerEnv \<Rightarrow> nat \<Rightarrow> Timestamp \<Rightarrow> double \<Rightarrow> TimerQ \<Rightarrow> (TimerId \<times> TimerQ) res" where
  "addTimer E cb when interval s =
     bindR (addTimer_post E cb when interval s) (\<lambda>(timer, s).
     bindR (addTimer_return timer s) (\<lambda>timerId. Inr (timerId, s)))"

definition TimerQueue_cancel :: "TimerEnv \<Rightarrow> TimerId \<Rightarrow> TimerQ \<Rightarrow> TimerQ res" where
  "TimerQueue_cancel E timerId s = runInLoop (run_functor E) (CancelInLoop timerId) s"

section \<open>The event loop's timer calls\<close>

definition runAt :: "TimerEnv \<Rightarrow> Timestamp \<Rightarrow> nat \<Rightarrow> TimerQ \<Rightarrow> (TimerId \<times> TimerQ) res" where
  "runAt E time cb s = addTimer E cb time 0 s"

definition runAfter :: "TimerEnv \<Rightarrow> double \<Rightarrow> nat \<Rightarrow> TimerQ \<Rightarrow> (TimerId \<times> TimerQ) res" where
  "runAfter E delay cb s =
     (let (now, s) = now_call E s; time = addTime (te_dmul E) now delay in runAt E time cb s)"

definition runEvery :: "TimerEnv \<Rightarrow> double \<Rightarrow> nat \<Rightarrow> TimerQ \<Rightarrow> (TimerId \<times> TimerQ) res" where
  "runEvery E interval cb s =
     (let (now, s) = now_call E s; time = addTime (te_dmul E) now interval in addTimer E cb time interval s)"

definition EventLoop_cancel :: "TimerEnv \<Rightarrow> TimerId \<Rightarrow> TimerQ \<Rightarrow> TimerQ res" where
  "EventLoop_cancel E timerId s = TimerQueue_cancel E timerId s"

primrec run_prog :: "TimerEnv \<Rightarrow> prog \<Rightarrow> TimerQ \<Rightarrow> TimerQ res" where
  "run_prog E Return s = Inr s"
| "run_prog E (RunAt time cb k) s = bindR (runAt E time cb s) (\<lambda>(timerId, s). run_prog E (k timerId) s)"
| "run_prog E (RunAfter delay cb k) s = bindR (runAfter E delay cb s) (\<lambda>(timerId, s). run_prog E (k timerId) s)"
| "run_prog E (RunEvery interval cb k) s =
     bindR (runEvery E interval cb s) (\<lambda>(timerId, s). run_prog E (k timerId) s)"
| "run_prog E (Cancel timerId k) s = bindR (EventLoop_cancel E timerId s) (run_prog E k)"

section \<open>Expiry\<close>

definition getExpired :: "Timestamp \<Rightarrow> TimerQ \<Rightarrow> (Entry list \<times> TimerQ) res" where
  "getExpired now s =
     bindR (assertR (length (timers s) = card (activeTimers s)) ()) (\<lambda>_.
     let sentry = (now, UINTPTR_MAX);
         expired = takeWhile (\<lambda>e. e < sentry) (timers s);
         rest = dropWhile (\<lambda>e. e < sentry) (timers s)
     in bindR (assertR (rest = [] \<or> now < fst (hd rest)) (s\<lparr>timers := rest\<rparr>)) (\<lambda>s.
        bindR (foldR (\<lambda>it s. bindR (derefT (snd it) s) (\<lambda>t.
            let timer = (snd it, t_sequence t)
            in assertR (timer \<in> activeTimers s) (s\<lparr>activeTimers := activeTimers s - {timer}\<rparr>)))
          expired s) (\<lambda>s.
        assertR (length (timers s) = card (activeTimers s)) (expired, s))))"

definition reset_timer :: "TimerEnv \<Rightarrow> Timestamp \<Rightarrow> Entry \<Rightarrow> TimerQ \<Rightarrow> TimerQ res" where
  "reset_timer E now it s =
     bindR (derefT (snd it) s) (\<lambda>t.
     let timer = (snd it, t_sequence t)
     in if t_repeat t \<and> timer \<notin> cancelingTimers s then
          bindR (insert_timer (snd it) (s\<lparr>timer_heap := (timer_heap s)(snd it \<mapsto> restart E now t)\<rparr>)) (\<lambda>(_, s). Inr s)
        else deleteT (snd it) s)"

definition TimerQueue_reset :: "TimerEnv \<Rightarrow> Entry list \<Rightarrow> Timestamp \<Rightarrow> TimerQ \<Rightarrow> TimerQ res" where
  "TimerQueue_reset E expired now s =
     bindR (foldR (reset_timer E now) expired s) (\<lambda>s.
     bindR (if timers s \<noteq> [] then bindR (derefT (snd (hd (timers s))) s) (\<lambda>t. Inr (t_expiration t))
            else Inr Timestamp_invalid) (\<lambda>nextExpire.
     Inr (if Timestamp_valid nextExpire then resetTimerfd E nextExpire s else s)))"

definition Timer_run :: "TimerEnv \<Rightarrow> ptr \<Rightarrow> TimerQ \<Rightarrow> TimerQ res" where
  "Timer_run E p s =
     bindR (derefT p s) (\<lambda>t.
     let s = s\<lparr>fired := fired s @ [t_sequence t]\<rparr> in run_prog E (te_callback E (t_callback t) s) s)"

definition TimerQueue_handleRead :: "TimerEnv \<Rightarrow> TimerQ \<Rightarrow> TimerQ res" where
  "TimerQueue_handleRead E s =
     bindR (assertInLoopThread s) (\<lambda>_.
     let (now, s) = now_call E s; s = readTimerfd E s
     in bindR (getExpired now s) (\<lambda>(expired, s).
        bindR (foldR (\<lambda>it. Timer_run E (snd it)) expired
          (s\<lparr>callingExpiredTimers := True, cancelingTimers := {}\<rparr>)) (\<lambda>s.
        TimerQueue_reset E expired now (s\<lparr>callingExpiredTimers := False\<rparr>))))"

section \<open>Runs\<close>

text \<open>
  What can happen to the queue, in any order: the timerfd is reported readable, the loop's
  thread makes timer calls, another thread makes timer calls, and the loop runs the pending
  functors.
\<close>

datatype tq_event = Readable | InLoop prog | OtherThread nat prog | Pending

fun tq_step :: "TimerEnv \<Rightarrow> tq_event \<Rightarrow> TimerQ \<Rightarrow> TimerQ res" where
  "tq_step E Readable s = TimerQueue_handleRead E s"
| "tq_step E (InLoop pr) s = run_prog E pr s"
| "tq_step E (OtherThread t pr) s =
     bindR (run_prog E pr (s\<lparr>tid := t\<rparr>)) (\<lambda>s. Inr (s\<lparr>tid := threadId s\<rparr>))"
| "tq_step E Pending s = doPendingFunctors (run_functor E) s"

section \<open>Invariant\<close>

text \<open>
  Every timer object has one owner: the two sets of the queue, a pending functor, or the
  function that is running, whose timers are the list \<open>H\<close> (the expired entries in
  \<open>handleRead\<close>, the functors taken from the queue in \<open>doPendingFunctors\<close>).
\<close>

fun queued :: "timer_functor list \<Rightarrow> ptr list" where
  "queued [] = []"
| "queued (AddTimerInLoop p # fs) = p # queued fs"
| "queued (CancelInLoop timerId # fs) = queued fs"

lemma queued_append [simp]: "queued (fs @ gs) = queued fs @ queued gs"
  by (induction fs rule: queued.induct) simp_all

definition owned :: "ptr list \<Rightarrow> TimerQ \<Rightarrow> ptr list" where
  "owned H s = queued (pendingFunctors s) @ H"

definition tq_inv :: "ptr list \<Rightarrow> TimerQ \<Rightarrow> bool" where
  "tq_inv H s \<longleftrightarrow>
     sorted_wrt (<) (timers s) \<and> distinct (owned H s) \<and> set (owned H s) \<subseteq> dom (timer_heap s) \<and>
     (\<forall>w p. (w, p) \<in> set (timers s) \<longleftrightarrow>
        p \<notin> set (owned H s) \<and> (\<exists>t. timer_heap s p = Some t \<and> t_expiration t = w)) \<and>
     (\<forall>p q. (p, q) \<in> activeTimers s \<longleftrightarrow>
        p \<notin> set (owned H s) \<and> (\<exists>t. timer_heap s p = Some t \<and> t_sequence t = q)) \<and>
     (\<forall>p t. timer_heap s p = Some t \<longrightarrow>
        p < UINTPTR_MAX \<and> t_sequence t \<le> s_numCreated s \<and> t_repeat t = (t_interval t > 0)) \<and>
     (\<forall>p p' t t'. timer_heap s p = Some t \<longrightarrow> timer_heap s p' = Some t' \<longrightarrow>
        t_sequence t = t_sequence t' \<longrightarrow> p = p')"

text \<open>
  The timerfd is set for the first timer, or for an earlier time. While the expired timers
  run (\<open>c\<close>) this need only hold of a first timer that is not after the epoch, because
  \<open>reset\<close> sets the timerfd at the end, but only to a valid timestamp.
\<close>

definition arm_ok :: "TimerEnv \<Rightarrow> bool \<Rightarrow> TimerQ \<Rightarrow> bool" where
  "arm_ok E c s \<longleftrightarrow> (timers s \<noteq> [] \<and> (c \<longrightarrow> fst (hd (timers s)) \<le> 0) \<longrightarrow>
     (\<exists>w n. armed s = Some (howMuchTimeFromNow w (Timestamp_now (te_time E n))) \<and> n < nowCalls s \<and>
        w \<le> fst (hd (timers s))))"

text \<open>
  What is documented of the environment: the allocator, when it does not fail, returns an
  address that is not in use; \<open>timerfd_settime\<close> accepts a positive time with a valid number of
  nanoseconds and sets the timer to it; the wall clock is after the epoch; the product of
  positive doubles is not negative.
\<close>

definition timer_env :: "TimerEnv \<Rightarrow> bool" where
  "timer_env E \<longleftrightarrow>
     (\<forall>n h p. te_alloc E n h = Some p \<longrightarrow> h p = None \<and> p < UINTPTR_MAX) \<and>
     (\<forall>sec nsec f. 0 \<le> sec \<longrightarrow> 0 \<le> nsec \<longrightarrow> nsec < 1000000000 \<longrightarrow> 0 < sec \<or> 0 < nsec \<longrightarrow>
        te_settime E (sec, nsec) f = (True, Some (sec, nsec))) \<and>
     (\<forall>n. 0 < Timestamp_now (te_time E n)) \<and>
     (\<forall>x y. 0 < x \<longrightarrow> 0 < y \<longrightarrow> 0 \<le> te_dmul E x y)"

definition tq_ok :: "TimerEnv \<Rightarrow> bool \<Rightarrow> ptr list \<Rightarrow> TimerQ \<Rightarrow> bool" where
  "tq_ok E c H s \<longleftrightarrow> tq_inv H s \<and> arm_ok E c s"

lemma derefT_simps [simp]:
  "timer_heap s p = Some t \<Longrightarrow> derefT p s = Inr t"
  by (simp add: derefT_def)

lemma tq_inv_frame [simp]:
  "tq_inv H (s\<lparr>armed := a\<rparr>) = tq_inv H s"
  "tq_inv H (s\<lparr>nowCalls := n\<rparr>) = tq_inv H s"
  "tq_inv H (s\<lparr>readCalls := n\<rparr>) = tq_inv H s"
  "tq_inv H (s\<lparr>fired := l\<rparr>) = tq_inv H s"
  "tq_inv H (s\<lparr>callingExpiredTimers := b\<rparr>) = tq_inv H s"
  "tq_inv H (s\<lparr>cancelingTimers := C\<rparr>) = tq_inv H s"
  "tq_inv H (s\<lparr>tid := t\<rparr>) = tq_inv H s"
  "tq_inv H (s\<lparr>wakeupCount := k\<rparr>) = tq_inv H s"
  "tq_inv H (s\<lparr>callingPendingFunctors := b\<rparr>) = tq_inv H s"
  by (simp_all add: tq_inv_def owned_def)

lemma tq_invD:
  assumes "tq_inv H s"
  shows "sorted_wrt (<) (timers s)" and "distinct (owned H s)" and "set (owned H s) \<subseteq> dom (timer_heap s)"
    and "(w, p) \<in> set (timers s) \<longleftrightarrow>
      p \<notin> set (owned H s) \<and> (\<exists>t. timer_heap s p = Some t \<and> t_expiration t = w)"
    and "(p, q) \<in> activeTimers s \<longleftrightarrow> p \<notin> set (owned H s) \<and> (\<exists>t. timer_heap s p = Some t \<and> t_sequence t = q)"
    and "timer_heap s p = Some t \<Longrightarrow> p < UINTPTR_MAX"
    and "timer_heap s p = Some t \<Longrightarrow> t_sequence t \<le> s_numCreated s"
    and "timer_heap s p = Some t \<Longrightarrow> t_repeat t = (t_interval t > 0)"
    and "timer_heap s p = Some t \<Longrightarrow> timer_heap s p' = Some t' \<Longrightarrow> t_sequence t = t_sequence t' \<Longrightarrow> p = p'"
  using assms unfolding tq_inv_def by blast+

text \<open>The two sets have the same size, as the code asserts.\<close>

lemma timers_card:
  assumes "tq_inv H s"
  shows "length (timers s) = card (activeTimers s)"
proof -
  let ?f = "\<lambda>(w :: int, p). (p, t_sequence (the (timer_heap s p)))"
  have "activeTimers s = ?f ` set (timers s)"
  proof (intro set_eqI iffI)
    fix x assume "x \<in> activeTimers s"
    then obtain p t where "x = (p, t_sequence t)" "timer_heap s p = Some t" "p \<notin> set (owned H s)"
      using tq_invD(5) [OF assms] by (cases x) auto
    then show "x \<in> ?f ` set (timers s)"
      using tq_invD(4) [OF assms, of "t_expiration t" p] by (auto intro!: image_eqI [where x = "(t_expiration t, p)"])
  next
    fix x assume "x \<in> ?f ` set (timers s)"
    then obtain w p where "(w, p) \<in> set (timers s)" "x = (p, t_sequence (the (timer_heap s p)))" by auto
    then show "x \<in> activeTimers s" using tq_invD(4,5) [OF assms] by auto
  qed
  moreover have "inj_on ?f (set (timers s))"
  proof (rule inj_onI)
    fix x y assume "x \<in> set (timers s)" "y \<in> set (timers s)" "?f x = ?f y"
    then obtain w v p where "x = (w, p)" "y = (v, p)" "(w, p) \<in> set (timers s)" "(v, p) \<in> set (timers s)"
      by (simp add: case_prod_beta) (metis prod.collapse)
    then show "x = y" using tq_invD(4) [OF assms, of w p] tq_invD(4) [OF assms, of v p] by auto
  qed
  moreover have "distinct (timers s)"
    using tq_invD(1) [OF assms] strict_sorted_iff by blast
  ultimately show ?thesis by (simp add: card_image distinct_card)
qed

lemma ssorted_insort: "sorted_wrt (<) xs \<Longrightarrow> x \<notin> set xs \<Longrightarrow> sorted_wrt (<) (insort x xs)"
  by (simp add: strict_sorted_iff sorted_insort distinct_insort)

lemma ssorted_remove1: "sorted_wrt (<) (xs :: 'a :: linorder list) \<Longrightarrow> sorted_wrt (<) (remove1 x xs)"
  by (simp add: strict_sorted_iff List.sorted_remove1)

lemma insert_timer_ok:
  assumes "tq_inv (p # H) s" and "threadId s = tid s" and "timer_heap s p = Some t"
  defines "s' \<equiv> s\<lparr>timers := insort (t_expiration t, p) (timers s),
    activeTimers := insert (p, t_sequence t) (activeTimers s)\<rparr>"
  shows "insert_timer p s = Inr (timers s = [] \<or> t_expiration t < fst (hd (timers s)), s')" and "tq_inv H s'"
proof -
  have o: "p \<in> set (owned (p # H) s)" "owned H s' = owned H s" "p \<notin> set (owned H s)"
    "set (owned (p # H) s) = insert p (set (owned H s))"
    using tq_invD(2) [OF assms(1)] by (auto simp: owned_def s'_def)
  have n: "(t_expiration t, p) \<notin> set (timers s)" "(p, t_sequence t) \<notin> activeTimers s"
    using tq_invD(4,5) [OF assms(1)] o(1) by auto
  have h: "timer_heap s' = timer_heap s" "s_numCreated s' = s_numCreated s" by (simp_all add: s'_def)
  show i: "tq_inv H s'"
    unfolding tq_inv_def h o(2)
  proof (intro conjI)
    show "sorted_wrt (<) (timers s')"
      using ssorted_insort [OF tq_invD(1) [OF assms(1)] n(1)] by (simp add: s'_def)
    show "distinct (owned H s)" "set (owned H s) \<subseteq> dom (timer_heap s)"
      using tq_invD(2,3) [OF assms(1)] by (auto simp: owned_def)
    show "\<forall>w q. ((w, q) \<in> set (timers s')) = (q \<notin> set (owned H s) \<and>
        (\<exists>t. timer_heap s q = Some t \<and> t_expiration t = w))"
      using tq_invD(4) [OF assms(1)] o(3,4) assms(3) by (auto simp: s'_def set_insort_key)
    show "\<forall>q r. ((q, r) \<in> activeTimers s') = (q \<notin> set (owned H s) \<and>
        (\<exists>t. timer_heap s q = Some t \<and> t_sequence t = r))"
      using tq_invD(5) [OF assms(1)] o(3,4) assms(3) by (auto simp: s'_def)
  qed (use tq_invD(6-9) [OF assms(1)] in blast)+
  show "insert_timer p s = Inr (timers s = [] \<or> t_expiration t < fst (hd (timers s)), s')"
    using timers_card [OF assms(1)] timers_card [OF i] n assms(2,3)
    by (simp add: insert_timer_def s'_def Let_def)
qed

section \<open>The timerfd is set\<close>

lemma howMuchTimeFromNow_valid:
  assumes "howMuchTimeFromNow w n = (sec, nsec)"
  shows "0 \<le> sec" and "0 \<le> nsec" and "nsec < 1000000000" and "0 < sec \<or> 0 < nsec"
proof -
  define m where "m = (if w - n < 100 then 100 else w - n)"
  have m: "100 \<le> m" by (simp add: m_def)
  then have "sec = m div 1000000" "nsec = m mod 1000000 * 1000"
    using assms by (simp_all add: howMuchTimeFromNow_def m_def [symmetric] kMicroSecondsPerSecond_def Let_def
      sdiv_nonneg smod_nonneg)
  moreover have "m = m div 1000000 * 1000000 + m mod 1000000" by simp
  moreover have "0 \<le> m mod 1000000" "m mod 1000000 < 1000000" "0 \<le> m div 1000000"
    using m by (simp_all add: pos_imp_zdiv_nonneg_iff)
  ultimately show "0 \<le> sec" "0 \<le> nsec" "nsec < 1000000000" "0 < sec \<or> 0 < nsec"
    using m by linarith+
qed

lemma resetTimerfd_ok:
  assumes "timer_env E"
  shows "resetTimerfd E w s = s\<lparr>nowCalls := nowCalls s + 1,
    armed := Some (howMuchTimeFromNow w (Timestamp_now (te_time E (nowCalls s))))\<rparr>"
proof -
  obtain sec nsec where h: "howMuchTimeFromNow w (Timestamp_now (te_time E (nowCalls s))) = (sec, nsec)"
    by (cases "howMuchTimeFromNow w (Timestamp_now (te_time E (nowCalls s)))")
  have "te_settime E (sec, nsec) (armed s) = (True, Some (sec, nsec))"
    using assms howMuchTimeFromNow_valid [OF h] unfolding timer_env_def by blast
  then show ?thesis by (simp add: resetTimerfd_def now_call_def h)
qed

lemma hd_first:
  fixes xs :: "Entry list"
  assumes "sorted_wrt (<) xs" and "y \<in> set xs"
  shows "fst (hd xs) \<le> fst y"
proof (cases xs)
  case (Cons x zs)
  then have "x \<le> y" using assms by auto
  then show ?thesis using Cons by (auto simp: less_eq_prod_def)
qed (use assms in simp)

lemma hd_insort:
  fixes xs :: "Entry list"
  assumes "xs \<noteq> []"
  shows "fst (hd (insort x xs)) = min (fst x) (fst (hd xs))"
  using assms by (cases xs) (auto simp: less_eq_prod_def)

lemma arm_ok_subset:
  assumes "arm_ok E c s" and "sorted_wrt (<) (timers s)" and "set (timers s') \<subseteq> set (timers s)"
    and "armed s' = armed s" and "nowCalls s \<le> nowCalls s'"
  shows "arm_ok E c s'"
proof (cases "timers s' = []")
  case False
  then have "hd (timers s') \<in> set (timers s)" using assms(3) by auto
  then have "timers s \<noteq> []" "fst (hd (timers s)) \<le> fst (hd (timers s'))"
    using hd_first [OF assms(2)] by auto
  then show ?thesis using assms(1,4,5) unfolding arm_ok_def by (metis (no_types, opaque_lifting) order_less_le_trans order_trans)
qed (simp add: arm_ok_def)

lemma arm_ok_set:
  assumes "timer_env E" and "timers s \<noteq> [] \<Longrightarrow> w \<le> fst (hd (timers s))"
  shows "arm_ok E c (resetTimerfd E w s)"
  using assms by (auto simp: arm_ok_def resetTimerfd_ok)

lemma arm_ok_insert:
  assumes "arm_ok E c s" and "timers s \<noteq> []" and "fst (hd (timers s)) \<le> w \<or> c \<and> 0 < w"
  shows "arm_ok E c (s\<lparr>timers := insort (w, p) (timers s), activeTimers := A\<rparr>)"
proof (cases "fst (hd (timers s)) \<le> w")
  case True
  then have "fst (hd (insort (w, p) (timers s))) = fst (hd (timers s))" using assms(2) by (simp add: hd_insort)
  then show ?thesis using assms(1,2) by (simp add: arm_ok_def)
next
  case False
  then have "c" "0 < fst (hd (insort (w, p) (timers s)))" using assms(2,3) by (simp_all add: hd_insort)
  then show ?thesis by (simp add: arm_ok_def)
qed

section \<open>Operations keep the invariant\<close>

text \<open>What timer calls leave alone: the loop, the log, and the timers that are in use.\<close>

definition tq_frame :: "ptr list \<Rightarrow> TimerQ \<Rightarrow> TimerQ \<Rightarrow> bool" where
  "tq_frame H s s' \<longleftrightarrow> EPoll.truncate s' = EPoll.truncate s \<and> timerfdChannel s' = timerfdChannel s \<and>
     callingExpiredTimers s' = callingExpiredTimers s \<and> fired s' = fired s \<and>
     s_numCreated s \<le> s_numCreated s' \<and> nowCalls s \<le> nowCalls s' \<and>
     (\<forall>p \<in> set H. timer_heap s' p = timer_heap s p) \<and>
     (\<forall>p t. timer_heap s' p = Some t \<longrightarrow> s_numCreated s < t_sequence t \<or> timer_heap s p = Some t)"

lemma tq_frame_refl [simp]: "tq_frame H s s"
  by (simp add: tq_frame_def)

lemma tq_frame_trans: "tq_frame H s1 s2 \<Longrightarrow> tq_frame H s2 s3 \<Longrightarrow> tq_frame H s1 s3"
  unfolding tq_frame_def by (metis order_trans order_le_less_trans)

lemma truncate_fields:
  assumes "EPoll.truncate (s' :: TimerQ) = EPoll.truncate (s :: TimerQ)"
  shows "threadId s' = threadId s" and "tid s' = tid s" and "self s' = self s" and "heap s' = heap s"
    and "channels s' = channels s" and "epoll s' = epoll s" and "eventHandling_loop s' = eventHandling_loop s"
    and "activeChannels s' = activeChannels s" and "currentActiveChannel s' = currentActiveChannel s"
  using assms by (simp_all add: EPoll.truncate_def)

lemma tq_frame_loop:
  assumes "tq_frame H s s'"
  shows "threadId s' = threadId s" and "tid s' = tid s"
  using assms truncate_fields unfolding tq_frame_def by blast+

lemma addTimerInLoop_ok:
  assumes E: "timer_env E" and "tq_ok E c (p # H) s" and "threadId s = tid s"
  shows "\<exists>s'. addTimerInLoop E p s = Inr s' \<and> tq_ok E c H s' \<and> tq_frame H s s' \<and>
    pendingFunctors s' = pendingFunctors s \<and> timer_heap s' = timer_heap s \<and> s_numCreated s' = s_numCreated s"
proof -
  have i: "tq_inv (p # H) s" and a: "arm_ok E c s" using assms(2) by (simp_all add: tq_ok_def)
  obtain t where t: "timer_heap s p = Some t" using tq_invD(3) [OF i] by (auto simp: owned_def)
  let ?s = "s\<lparr>timers := insort (t_expiration t, p) (timers s),
    activeTimers := insert (p, t_sequence t) (activeTimers s)\<rparr>"
  note ins = insert_timer_ok [OF i assms(3) t]
  show ?thesis
  proof (cases "timers s = [] \<or> t_expiration t < fst (hd (timers s))")
    case True
    have "arm_ok E c (resetTimerfd E (t_expiration t) ?s)"
    proof (rule arm_ok_set [OF E])
      show "t_expiration t \<le> fst (hd (timers ?s))"
        using True by (cases "timers s = []") (simp_all add: hd_insort)
    qed
    moreover have "addTimerInLoop E p s = Inr (resetTimerfd E (t_expiration t) ?s)"
      using True ins(1) assms(3) t by (simp add: addTimerInLoop_def)
    ultimately show ?thesis using ins(2)
      by (simp add: resetTimerfd_ok [OF E] tq_ok_def tq_frame_def EPoll.truncate_def)
  next
    case False
    then have "addTimerInLoop E p s = Inr ?s" using ins(1) assms(3) by (simp add: addTimerInLoop_def)
    moreover have "arm_ok E c ?s" using arm_ok_insert [OF a] False by simp
    ultimately show ?thesis using ins(2) by (simp add: tq_ok_def tq_frame_def EPoll.truncate_def)
  qed
qed

lemma cancel_inv:
  assumes "tq_inv H s" and "timer_heap s p = Some t" and "(p, t_sequence t) \<in> activeTimers s"
  shows "tq_inv H (s\<lparr>timers := remove1 (t_expiration t, p) (timers s), timer_heap := (timer_heap s)(p := None),
    activeTimers := activeTimers s - {(p, t_sequence t)}\<rparr>)" (is "tq_inv H ?s")
proof -
  have p: "p \<notin> set (owned H s)" using tq_invD(5) [OF assms(1), of p] assms(3) by auto
  have o: "owned H ?s = owned H s" by (simp add: owned_def)
  have d: "distinct (timers s)" using tq_invD(1) [OF assms(1)] strict_sorted_iff by blast
  show ?thesis
    unfolding tq_inv_def o
  proof (intro conjI)
    show "sorted_wrt (<) (timers ?s)" using ssorted_remove1 tq_invD(1) [OF assms(1)] by simp
    show "distinct (owned H s)" by (rule tq_invD(2) [OF assms(1)])
    show "set (owned H s) \<subseteq> dom (timer_heap ?s)" using tq_invD(3) [OF assms(1)] p by auto
    show "\<forall>w q. ((w, q) \<in> set (timers ?s)) = (q \<notin> set (owned H s) \<and>
        (\<exists>t. timer_heap ?s q = Some t \<and> t_expiration t = w))"
      using tq_invD(4) [OF assms(1)] d assms(2) by (auto simp: set_remove1_eq)
    show "\<forall>q r. ((q, r) \<in> activeTimers ?s) = (q \<notin> set (owned H s) \<and>
        (\<exists>t. timer_heap ?s q = Some t \<and> t_sequence t = r))"
      using tq_invD(5) [OF assms(1)] assms(2) by auto
  qed (use tq_invD(6-9) [OF assms(1)] in auto)
qed

lemma cancelInLoop_found:
  assumes "tq_inv H s" and "threadId s = tid s" and "timer_heap s p = Some t" and "(p, t_sequence t) \<in> activeTimers s"
  shows "cancelInLoop \<lparr>id_timer = p, id_sequence = t_sequence t\<rparr> s =
    Inr (s\<lparr>timers := remove1 (t_expiration t, p) (timers s), timer_heap := (timer_heap s)(p := None),
           activeTimers := activeTimers s - {(p, t_sequence t)}\<rparr>)"
proof -
  have "(t_expiration t, p) \<in> set (timers s)"
    using tq_invD(4,5) [OF assms(1)] assms(3,4) by auto
  then show ?thesis
    using assms(2-4) timers_card [OF assms(1)] timers_card [OF cancel_inv [OF assms(1,3,4)]]
    by (simp add: cancelInLoop_def Let_def deleteT_def)
qed

lemma cancelInLoop_ok:
  assumes "tq_ok E c H s" and "threadId s = tid s"
  shows "\<exists>s'. cancelInLoop timerId s = Inr s' \<and> tq_ok E c H s' \<and> tq_frame H s s' \<and>
    pendingFunctors s' = pendingFunctors s"
proof -
  obtain p q where timerId: "timerId = \<lparr>id_timer = p, id_sequence = q\<rparr>" by (cases timerId)
  have i: "tq_inv H s" and a: "arm_ok E c s" using assms(1) by (simp_all add: tq_ok_def)
  show ?thesis
  proof (cases "(p, q) \<in> activeTimers s")
    case True
    then obtain t where t: "timer_heap s p = Some t" "q = t_sequence t" "p \<notin> set (owned H s)"
      using tq_invD(5) [OF i] by auto
    let ?s = "s\<lparr>timers := remove1 (t_expiration t, p) (timers s), timer_heap := (timer_heap s)(p := None),
           activeTimers := activeTimers s - {(p, t_sequence t)}\<rparr>"
    have "arm_ok E c ?s"
      by (rule arm_ok_subset [OF a tq_invD(1) [OF i]]) (simp_all add: set_remove1_subset)
    moreover have "tq_frame H s ?s" using t by (auto simp: tq_frame_def EPoll.truncate_def owned_def)
    ultimately show ?thesis
      using cancelInLoop_found [OF i assms(2) t(1)] cancel_inv [OF i t(1)] True t(2) timerId
      by (simp add: tq_ok_def)
  next
    case False
    let ?s = "if callingExpiredTimers s then s\<lparr>cancelingTimers := insert (p, q) (cancelingTimers s)\<rparr> else s"
    have "cancelInLoop timerId s = Inr ?s"
      using False timers_card [OF i] assms(2) timerId by (simp add: cancelInLoop_def Let_def)
    moreover have "tq_ok E c H ?s" using i a by (simp add: tq_ok_def arm_ok_def)
    moreover have "tq_frame H s ?s" by (simp add: tq_frame_def EPoll.truncate_def)
    ultimately show ?thesis by simp
  qed
qed

lemma Timer_new_simps [simp]:
  "t_sequence (Timer_new cb w v n) = n + 1"
  "t_repeat (Timer_new cb w v n) = (v > 0)"
  "t_interval (Timer_new cb w v n) = v"
  "t_expiration (Timer_new cb w v n) = w"
  by (simp_all add: Timer_new_def)

lemma alloc_inv:
  assumes "tq_inv H s" and "timer_heap s p = None" and "p < UINTPTR_MAX"
  shows "tq_inv (p # H) (s\<lparr>timer_heap := (timer_heap s)(p \<mapsto> Timer_new cb w v (s_numCreated s)),
    s_numCreated := s_numCreated s + 1\<rparr>)" (is "tq_inv _ ?s")
proof -
  have n: "p \<notin> set (owned H s)" using tq_invD(3) [OF assms(1)] assms(2) by auto
  have o: "set (owned (p # H) ?s) = insert p (set (owned H s))" "distinct (owned (p # H) ?s) = distinct (p # owned H s)"
    by (auto simp: owned_def)
  have q: "t_sequence t < s_numCreated s + 1" if "timer_heap s q = Some t" for q t
    using tq_invD(7) [OF assms(1) that] by simp
  show ?thesis
    unfolding tq_inv_def o
  proof (intro conjI)
    show "sorted_wrt (<) (timers ?s)" using tq_invD(1) [OF assms(1)] by simp
    show "distinct (p # owned H s)" using tq_invD(2) [OF assms(1)] n by simp
    show "insert p (set (owned H s)) \<subseteq> dom (timer_heap ?s)" using tq_invD(3) [OF assms(1)] by auto
    show "\<forall>w q. ((w, q) \<in> set (timers ?s)) = (q \<notin> insert p (set (owned H s)) \<and>
        (\<exists>t. timer_heap ?s q = Some t \<and> t_expiration t = w))"
      using tq_invD(4) [OF assms(1)] assms(2) by auto
    show "\<forall>q r. ((q, r) \<in> activeTimers ?s) = (q \<notin> insert p (set (owned H s)) \<and>
        (\<exists>t. timer_heap ?s q = Some t \<and> t_sequence t = r))"
      using tq_invD(5) [OF assms(1)] assms(2) by auto
    show "\<forall>q t. timer_heap ?s q = Some t \<longrightarrow>
        q < UINTPTR_MAX \<and> t_sequence t \<le> s_numCreated ?s \<and> t_repeat t = (t_interval t > 0)"
    proof (intro allI impI)
      fix r t assume "timer_heap ?s r = Some t"
      then show "r < UINTPTR_MAX \<and> t_sequence t \<le> s_numCreated ?s \<and> t_repeat t = (t_interval t > 0)"
        using tq_invD(6-8) [OF assms(1), of r t] assms(3) by (cases "r = p") auto
    qed
    show "\<forall>q q' t t'. timer_heap ?s q = Some t \<longrightarrow> timer_heap ?s q' = Some t' \<longrightarrow>
        t_sequence t = t_sequence t' \<longrightarrow> q = q'"
    proof (intro allI impI)
      fix r r' t t' assume *: "timer_heap ?s r = Some t" "timer_heap ?s r' = Some t'" "t_sequence t = t_sequence t'"
      have new: "u = p \<longleftrightarrow> t_sequence v = s_numCreated s + 1" if "timer_heap ?s u = Some v" for u v
        using that q [of u v] by (cases "u = p") auto
      show "r = r'"
      proof (cases "r = p")
        case False
        then have "r' \<noteq> p" using new *(3) new [OF *(1)] new [OF *(2)] by simp
        then show ?thesis using False *(1,2) tq_invD(9) [OF assms(1) _ _ *(3), of r r'] by simp
      qed (use new [OF *(1)] new [OF *(2)] *(3) in simp)
    qed
  qed
qed

lemma tq_inv_permute:
  assumes "tq_inv H s" and "set (owned H' s') = set (owned H s)" and "distinct (owned H' s')"
    and "timers s' = timers s" and "activeTimers s' = activeTimers s" and "timer_heap s' = timer_heap s"
    and "s_numCreated s' = s_numCreated s"
  shows "tq_inv H' s'"
  using assms(1,3) unfolding tq_inv_def assms(2,4-7) by blast

lemma addTimer_ok:
  assumes E: "timer_env E" and "tq_ok E c H s"
  shows "ends {BadAlloc} (addTimer E cb w v s) (\<lambda>(timerId, s'). tq_ok E c H s' \<and> tq_frame H s s')"
proof (cases "te_alloc E (nat (s_numCreated s)) (timer_heap s)")
  case (Some p)
  then have p: "timer_heap s p = None" "p < UINTPTR_MAX" using E by (auto simp: timer_env_def)
  let ?s = "s\<lparr>timer_heap := (timer_heap s)(p \<mapsto> Timer_new cb w v (s_numCreated s)),
    s_numCreated := s_numCreated s + 1\<rparr>"
  have i: "tq_inv (p # H) ?s" using alloc_inv p assms(2) by (simp add: tq_ok_def)
  have o: "tq_ok E c (p # H) ?s" using i assms(2) by (simp add: tq_ok_def arm_ok_def)
  have "p \<notin> set H" using p(1) tq_invD(3) [of H s] assms(2) by (auto simp: tq_ok_def owned_def)
  then have f: "tq_frame H s ?s" by (auto simp: tq_frame_def EPoll.truncate_def Timer_new_def)
  show ?thesis
  proof (cases "threadId s = tid s")
    case True
    then obtain s' where s': "addTimerInLoop E p ?s = Inr s'" "tq_ok E c H s'" "tq_frame H ?s s'"
      "timer_heap s' = timer_heap ?s"
      using addTimerInLoop_ok [OF E o] by auto
    then have "addTimer E cb w v s = Inr (\<lparr>id_timer = p, id_sequence = s_numCreated s + 1\<rparr>, s')"
      using True Some by (simp add: addTimer_def addTimer_post_def addTimer_return_def runInLoop_def isInLoopThread_def
        derefT_def Timer_new_def)
    then show ?thesis using s' tq_frame_trans [OF f] by simp
  next
    case False
    let ?s' = "wakeup (?s\<lparr>pendingFunctors := pendingFunctors s @ [AddTimerInLoop p]\<rparr>)"
    have "tq_inv H ?s'"
      by (rule tq_inv_permute [OF i]) (use tq_invD(2) [OF i] in \<open>auto simp: owned_def wakeup_def\<close>)
    then have "tq_ok E c H ?s'" using o by (simp add: tq_ok_def arm_ok_def wakeup_def)
    moreover have "tq_frame H s ?s'" using f by (simp add: tq_frame_def wakeup_def EPoll.truncate_def)
    ultimately show ?thesis
      using False Some by (simp add: addTimer_def addTimer_post_def addTimer_return_def runInLoop_def queueInLoop_def
        isInLoopThread_def derefT_def wakeup_def Let_def)
  qed
qed (simp add: addTimer_def addTimer_post_def)

lemma cancel_ok:
  assumes "tq_ok E c H s"
  shows "ends {BadAlloc} (EventLoop_cancel E timerId s) (\<lambda>s'. tq_ok E c H s' \<and> tq_frame H s s')"
proof (cases "threadId s = tid s")
  case True
  then show ?thesis
    using cancelInLoop_ok [OF assms True, of timerId]
    by (auto simp: EventLoop_cancel_def TimerQueue_cancel_def runInLoop_def isInLoopThread_def)
next
  case False
  have "tq_inv H (wakeup (s\<lparr>pendingFunctors := pendingFunctors s @ [CancelInLoop timerId]\<rparr>))"
    by (rule tq_inv_permute [of H s]) (use assms tq_invD(2) [of H s] in \<open>auto simp: tq_ok_def owned_def wakeup_def\<close>)
  then show ?thesis
    using assms False by (simp add: EventLoop_cancel_def TimerQueue_cancel_def runInLoop_def isInLoopThread_def
      queueInLoop_def wakeup_def tq_ok_def arm_ok_def tq_frame_def EPoll.truncate_def)
qed

lemma now_call_ok:
  "tq_ok E c H s \<Longrightarrow> tq_ok E c H (snd (now_call E s)) \<and> tq_frame H s (snd (now_call E s))"
  by (auto simp: now_call_def tq_ok_def arm_ok_def tq_frame_def EPoll.truncate_def less_Suc_eq)

lemma calls_ok:
  assumes E: "timer_env E" and "tq_ok E c H s"
  shows "ends {BadAlloc} (runAt E w cb s) (\<lambda>(timerId, s'). tq_ok E c H s' \<and> tq_frame H s s')"
    and "ends {BadAlloc} (runAfter E v cb s) (\<lambda>(timerId, s'). tq_ok E c H s' \<and> tq_frame H s s')"
    and "ends {BadAlloc} (runEvery E v cb s) (\<lambda>(timerId, s'). tq_ok E c H s' \<and> tq_frame H s s')"
proof -
  let ?s = "snd (now_call E s)"
  have *: "ends {BadAlloc} (addTimer E cb w v ?s) (\<lambda>(timerId, s'). tq_ok E c H s' \<and> tq_frame H s s')" for w v
    using addTimer_ok [OF E, of c H ?s cb w v] now_call_ok [OF assms(2)]
    by (auto elim!: ends_mono intro: tq_frame_trans)
  show "ends {BadAlloc} (runAt E w cb s) (\<lambda>(timerId, s'). tq_ok E c H s' \<and> tq_frame H s s')"
    using addTimer_ok [OF assms] by (simp add: runAt_def)
  show "ends {BadAlloc} (runAfter E v cb s) (\<lambda>(timerId, s'). tq_ok E c H s' \<and> tq_frame H s s')"
    using * by (simp add: runAfter_def runAt_def case_prod_beta Let_def)
  show "ends {BadAlloc} (runEvery E v cb s) (\<lambda>(timerId, s'). tq_ok E c H s' \<and> tq_frame H s s')"
    using * by (simp add: runEvery_def case_prod_beta Let_def)
qed

lemma ends_frame:
  "ends X m (\<lambda>s'. P s' \<and> tq_frame H s1 s') \<Longrightarrow> tq_frame H s s1 \<Longrightarrow> ends X m (\<lambda>s'. P s' \<and> tq_frame H s s')"
  by (cases m) (auto intro: tq_frame_trans)

lemma run_prog_ok:
  assumes E: "timer_env E" and "tq_ok E c H s"
  shows "ends {BadAlloc} (run_prog E pr s) (\<lambda>s'. tq_ok E c H s' \<and> tq_frame H s s')"
  using assms(2)
proof (induction pr arbitrary: s)
  case (Cancel timerId k)
  show ?case
    unfolding run_prog.simps
    by (rule ends_bind [OF cancel_ok [OF Cancel.prems]], elim conjE, rule ends_frame [OF Cancel.IH])
next
  case (RunAt w cb k)
  show ?case
    unfolding run_prog.simps
    by (rule ends_bind [OF calls_ok(1) [OF E RunAt.prems]], clarify, rule ends_frame [OF RunAt.IH]) simp_all
next
  case (RunAfter v cb k)
  show ?case
    unfolding run_prog.simps
    by (rule ends_bind [OF calls_ok(2) [OF E RunAfter.prems]], clarify, rule ends_frame [OF RunAfter.IH]) simp_all
next
  case (RunEvery v cb k)
  show ?case
    unfolding run_prog.simps
    by (rule ends_bind [OF calls_ok(3) [OF E RunEvery.prems]], clarify, rule ends_frame [OF RunEvery.IH]) simp_all
qed simp

section \<open>Expiry\<close>

lemma before_sentry:
  assumes "tq_inv H s" and "e \<in> set (timers s)"
  shows "e < (now, UINTPTR_MAX) \<longleftrightarrow> fst e \<le> now"
  using assms tq_invD(4,6) [OF assms(1)] by (cases e) (auto simp: less_prod_def)

lemma erase_expired:
  assumes "\<forall>e \<in> set L. timer_heap s (snd e) \<noteq> None \<and> (snd e, t_sequence (the (timer_heap s (snd e)))) \<in> activeTimers s"
    and "distinct (map snd L)"
  shows "foldR (\<lambda>it s. bindR (derefT (snd it) s) (\<lambda>t.
      let timer = (snd it, t_sequence t)
      in assertR (timer \<in> activeTimers s) (s\<lparr>activeTimers := activeTimers s - {timer}\<rparr>))) L s =
    Inr (s\<lparr>activeTimers := activeTimers s - (\<lambda>e. (snd e, t_sequence (the (timer_heap s (snd e))))) ` set L\<rparr>)"
  using assms
proof (induction L arbitrary: s)
  case (Cons e L)
  obtain t where t: "timer_heap s (snd e) = Some t" "(snd e, t_sequence t) \<in> activeTimers s"
    using Cons.prems(1) by auto
  have ne: "\<forall>f \<in> set L. snd f \<noteq> snd e" using Cons.prems(2) by (metis distinct.simps(2) image_eqI list.map(2) list.set_map)
  let ?s = "s\<lparr>activeTimers := activeTimers s - {(snd e, t_sequence t)}\<rparr>"
  have "\<forall>e \<in> set L. timer_heap ?s (snd e) \<noteq> None \<and>
      (snd e, t_sequence (the (timer_heap ?s (snd e)))) \<in> activeTimers ?s"
    using Cons.prems(1) ne by simp
  from Cons.IH [OF this] Cons.prems(2) t show ?case
    by (simp add: Let_def Diff_insert2 [symmetric] insert_commute)
qed simp

definition expired_at :: "Timestamp \<Rightarrow> TimerQ \<Rightarrow> Entry list" where
  "expired_at now s = takeWhile (\<lambda>e. fst e \<le> now) (timers s)"

definition after_expiry :: "Timestamp \<Rightarrow> TimerQ \<Rightarrow> TimerQ" where
  "after_expiry now s = s\<lparr>timers := dropWhile (\<lambda>e. fst e \<le> now) (timers s),
     activeTimers := activeTimers s -
       (\<lambda>e. (snd e, t_sequence (the (timer_heap s (snd e))))) ` set (expired_at now s)\<rparr>"

lemma while_sorted:
  fixes xs :: "Entry list"
  assumes "sorted_wrt (<) xs"
  shows "set (takeWhile (\<lambda>e. fst e \<le> n) xs) = {e \<in> set xs. fst e \<le> n} \<and>
    set (dropWhile (\<lambda>e. fst e \<le> n) xs) = {e \<in> set xs. n < fst e}"
  using assms
proof (induction xs)
  case (Cons x xs)
  have "fst x \<le> fst y" if "y \<in> set xs" for y using hd_first [OF Cons.prems, of y] that by simp
  then have "\<not> fst x \<le> n \<Longrightarrow> \<forall>y \<in> set xs. n < fst y" by force
  with Cons show ?case by (cases "fst x \<le> n") auto
qed simp

lemma expired_set:
  assumes "tq_inv H s"
  shows "set (expired_at now s) = {e \<in> set (timers s). fst e \<le> now}"
    and "set (dropWhile (\<lambda>e. fst e \<le> now) (timers s)) = {e \<in> set (timers s). now < fst e}"
  using while_sorted [OF tq_invD(1) [OF assms], of now] by (simp_all add: expired_at_def)

lemma expired_distinct:
  assumes "tq_inv H s"
  shows "distinct (map snd (timers s))" and "distinct (map snd (expired_at now s))"
proof -
  have "distinct (timers s)" using tq_invD(1) [OF assms] strict_sorted_iff by blast
  moreover have "inj_on snd (set (timers s))"
    using tq_invD(4) [OF assms] by (intro inj_onI) (metis option.inject prod.collapse)
  ultimately show "distinct (map snd (timers s))" by (simp add: distinct_map)
  then show "distinct (map snd (expired_at now s))"
    unfolding expired_at_def by (metis distinct_append map_append takeWhile_dropWhile_id)
qed

lemma expired_alive:
  assumes "tq_inv H s" and "e \<in> set (expired_at now s)"
  shows "\<exists>t. timer_heap s (snd e) = Some t \<and> t_expiration t = fst e \<and> fst e \<le> now \<and>
    snd e \<notin> set (owned H s) \<and> (snd e, t_sequence t) \<in> activeTimers s"
  using assms(2) tq_invD(4) [OF assms(1), of "fst e" "snd e"] tq_invD(5) [OF assms(1), of "snd e"]
  by (auto simp: expired_set(1) [OF assms(1)])

lemma after_expiry_inv:
  assumes "tq_inv H s"
  shows "tq_inv (map snd (expired_at now s) @ H) (after_expiry now s)" (is "tq_inv ?H ?s")
proof -
  let ?X = "snd ` set (expired_at now s)"
  have o: "set (owned ?H ?s) = ?X \<union> set (owned H s)" by (auto simp: owned_def after_expiry_def)
  have x: "p \<in> ?X \<longleftrightarrow> p \<notin> set (owned H s) \<and> (\<exists>t. timer_heap s p = Some t \<and> t_expiration t \<le> now)" for p
  proof
    assume "p \<in> ?X"
    then obtain e where e: "e \<in> set (expired_at now s)" "p = snd e" by blast
    from expired_alive [OF assms e(1)] obtain t where
      "timer_heap s p = Some t" "t_expiration t \<le> now" "p \<notin> set (owned H s)" using e(2) by auto
    then show "p \<notin> set (owned H s) \<and> (\<exists>t. timer_heap s p = Some t \<and> t_expiration t \<le> now)" by simp
  next
    assume "p \<notin> set (owned H s) \<and> (\<exists>t. timer_heap s p = Some t \<and> t_expiration t \<le> now)"
    then obtain t where t: "p \<notin> set (owned H s)" "timer_heap s p = Some t" "t_expiration t \<le> now" by blast
    then have "(t_expiration t, p) \<in> set (timers s)" using tq_invD(4) [OF assms, of "t_expiration t" p] by simp
    then have "(t_expiration t, p) \<in> set (expired_at now s)" using t(3) by (simp add: expired_set(1) [OF assms])
    then show "p \<in> ?X" by (rule image_eqI [rotated]) simp
  qed
  have h: "timer_heap ?s = timer_heap s" "s_numCreated ?s = s_numCreated s" by (simp_all add: after_expiry_def)
  show ?thesis
    unfolding tq_inv_def o h
  proof (intro conjI)
    show "sorted_wrt (<) (timers ?s)"
      using tq_invD(1) [OF assms] by (simp add: after_expiry_def sorted_wrt_dropWhile strict_sorted_iff sorted_dropWhile distinct_dropWhile)
    show "distinct (owned ?H ?s)"
      using tq_invD(2) [OF assms] expired_distinct(2) [OF assms, of now] x
      by (simp add: owned_def after_expiry_def disjoint_iff)
    show "?X \<union> set (owned H s) \<subseteq> dom (timer_heap s)"
      using tq_invD(3) [OF assms] unfolding subset_iff Un_iff x by blast
    show "\<forall>w p. ((w, p) \<in> set (timers ?s)) = (p \<notin> ?X \<union> set (owned H s) \<and>
        (\<exists>t. timer_heap s p = Some t \<and> t_expiration t = w))"
    proof (intro allI)
      fix w p
      have "((w, p) \<in> set (timers ?s)) = ((w, p) \<in> set (timers s) \<and> now < w)"
        by (simp add: after_expiry_def expired_set(2) [OF assms])
      then show "((w, p) \<in> set (timers ?s)) = (p \<notin> ?X \<union> set (owned H s) \<and>
          (\<exists>t. timer_heap s p = Some t \<and> t_expiration t = w))"
        unfolding Un_iff x tq_invD(4) [OF assms, of w p] by (cases "timer_heap s p") auto
    qed
    show "\<forall>p q. ((p, q) \<in> activeTimers ?s) = (p \<notin> ?X \<union> set (owned H s) \<and>
        (\<exists>t. timer_heap s p = Some t \<and> t_sequence t = q))"
    proof (intro allI)
      fix p q
      have "((p, q) \<in> activeTimers ?s) = ((p, q) \<in> activeTimers s \<and>
          \<not> (p \<in> ?X \<and> q = t_sequence (the (timer_heap s p))))"
        by (auto simp: after_expiry_def image_iff)
      then show "((p, q) \<in> activeTimers ?s) = (p \<notin> ?X \<union> set (owned H s) \<and>
          (\<exists>t. timer_heap s p = Some t \<and> t_sequence t = q))"
        unfolding Un_iff x tq_invD(5) [OF assms, of p q] by (cases "timer_heap s p") auto
    qed
  qed (use tq_invD(6-9) [OF assms] in blast)+
qed

lemma getExpired_ok:
  assumes "tq_inv H s"
  shows "getExpired now s = Inr (expired_at now s, after_expiry now s)"
proof -
  have t: "takeWhile (\<lambda>e. e < (now, UINTPTR_MAX)) (timers s) = expired_at now s"
    unfolding expired_at_def by (rule takeWhile_cong) (simp_all add: before_sentry [OF assms])
  have d: "dropWhile (\<lambda>e. e < (now, UINTPTR_MAX)) (timers s) = dropWhile (\<lambda>e. fst e \<le> now) (timers s)"
    by (rule dropWhile_cong) (simp_all add: before_sentry [OF assms])
  let ?s = "s\<lparr>timers := dropWhile (\<lambda>e. fst e \<le> now) (timers s)\<rparr>"
  have r: "dropWhile (\<lambda>e. fst e \<le> now) (timers s) = [] \<or> now < fst (hd (dropWhile (\<lambda>e. fst e \<le> now) (timers s)))"
    using hd_dropWhile [of "\<lambda>e. fst e \<le> now" "timers s"] by fastforce
  have "\<forall>e \<in> set (expired_at now s). timer_heap ?s (snd e) \<noteq> None \<and>
      (snd e, t_sequence (the (timer_heap ?s (snd e)))) \<in> activeTimers ?s"
    using expired_alive [OF assms] by fastforce
  from erase_expired [OF this expired_distinct(2) [OF assms]]
  show ?thesis
    using timers_card [OF assms] timers_card [OF after_expiry_inv [OF assms, of now]] r
    unfolding getExpired_def Let_def t d by (simp add: after_expiry_def del: dropWhile_eq_Nil_conv)
qed

lemma Timer_run_ok:
  assumes E: "timer_env E" and "tq_ok E c H s" and "timer_heap s p = Some t"
  shows "ends {BadAlloc} (Timer_run E p s) (\<lambda>s'. tq_ok E c H s' \<and> tq_frame H (s\<lparr>fired := fired s'\<rparr>) s' \<and>
    fired s' = fired s @ [t_sequence t])"
proof -
  let ?s = "s\<lparr>fired := fired s @ [t_sequence t]\<rparr>"
  have "tq_ok E c H ?s" using assms(2) by (simp add: tq_ok_def arm_ok_def)
  from run_prog_ok [OF E this, of "te_callback E (t_callback t) ?s"] show ?thesis
    using assms(3) by (auto simp: Timer_run_def Let_def tq_frame_def elim!: ends_mono)
qed

lemma run_expired_ok:
  assumes E: "timer_env E" and "tq_ok E c H s" and "\<forall>e \<in> set L. snd e \<in> set H"
  shows "ends {BadAlloc} (foldR (\<lambda>it. Timer_run E (snd it)) L s) (\<lambda>s'. tq_ok E c H s' \<and>
    tq_frame H (s\<lparr>fired := fired s'\<rparr>) s' \<and>
    fired s' = fired s @ map (\<lambda>e. t_sequence (the (timer_heap s (snd e)))) L)"
  using assms(2,3)
proof (induction L arbitrary: s)
  case (Cons e L)
  have "snd e \<in> dom (timer_heap s)"
    using Cons.prems tq_invD(3) [of H s] by (auto simp: tq_ok_def owned_def)
  then obtain t where t: "timer_heap s (snd e) = Some t" by blast
  show ?case
    unfolding foldR.simps
  proof (rule ends_bind [OF Timer_run_ok [OF E Cons.prems(1) t]], elim conjE)
    fix s1 assume s1: "tq_ok E c H s1" "tq_frame H (s\<lparr>fired := fired s1\<rparr>) s1" "fired s1 = fired s @ [t_sequence t]"
    have h: "timer_heap s1 (snd f) = timer_heap s (snd f)" if "f \<in> set L" for f
      using s1(2) Cons.prems(2) that by (simp add: tq_frame_def)
    have *: "tq_frame H (s\<lparr>fired := fired s'\<rparr>) s'" if "tq_frame H (s1\<lparr>fired := fired s'\<rparr>) s'" for s'
    proof (rule tq_frame_trans [OF _ that])
      show "tq_frame H (s\<lparr>fired := fired s'\<rparr>) (s1\<lparr>fired := fired s'\<rparr>)"
        using s1(2) by (simp add: tq_frame_def EPoll.truncate_def)
    qed
    have "ends {BadAlloc} (foldR (\<lambda>it. Timer_run E (snd it)) L s1) (\<lambda>s'. tq_ok E c H s' \<and>
        tq_frame H (s1\<lparr>fired := fired s'\<rparr>) s' \<and>
        fired s' = fired s1 @ map (\<lambda>e. t_sequence (the (timer_heap s1 (snd e)))) L)"
      using Cons.IH [OF s1(1)] Cons.prems(2) by simp
    then show "ends {BadAlloc} (foldR (\<lambda>it. Timer_run E (snd it)) L s1) (\<lambda>s'. tq_ok E c H s' \<and>
        tq_frame H (s\<lparr>fired := fired s'\<rparr>) s' \<and>
        fired s' = fired s @ map (\<lambda>e. t_sequence (the (timer_heap s (snd e)))) (e # L))"
    proof (rule ends_mono, elim conjE, intro conjI)
      fix s' assume "tq_ok E c H s'" and f: "tq_frame H (s1\<lparr>fired := fired s'\<rparr>) s'"
        and l: "fired s' = fired s1 @ map (\<lambda>e. t_sequence (the (timer_heap s1 (snd e)))) L"
      then show "tq_ok E c H s'" by simp
      show "tq_frame H (s\<lparr>fired := fired s'\<rparr>) s'" by (rule * [OF f])
      have "map (\<lambda>e. t_sequence (the (timer_heap s1 (snd e)))) L =
          map (\<lambda>e. t_sequence (the (timer_heap s (snd e)))) L" using h by simp
      then show "fired s' = fired s @ map (\<lambda>e. t_sequence (the (timer_heap s (snd e)))) (e # L)"
        using l s1(3) t by simp
    qed
  qed
qed (simp add: tq_frame_def)

lemma heap_restart:
  assumes "tq_inv (p # H) s" and "timer_heap s p = Some t"
  shows "tq_inv (p # H) (s\<lparr>timer_heap := (timer_heap s)(p \<mapsto> restart E now t)\<rparr>)" (is "tq_inv _ ?s")
proof -
  have r: "t_sequence (restart E now t) = t_sequence t" "t_repeat (restart E now t) = t_repeat t"
    "t_interval (restart E now t) = t_interval t" by (simp_all add: restart_def)
  have o: "owned (p # H) ?s = owned (p # H) s" "p \<in> set (owned (p # H) s)" by (simp_all add: owned_def)
  show ?thesis
    unfolding tq_inv_def o(1)
  proof (intro conjI)
    show "set (owned (p # H) s) \<subseteq> dom (timer_heap ?s)" using tq_invD(3) [OF assms(1)] by auto
    show "\<forall>w q. ((w, q) \<in> set (timers ?s)) = (q \<notin> set (owned (p # H) s) \<and>
        (\<exists>t. timer_heap ?s q = Some t \<and> t_expiration t = w))"
      using tq_invD(4) [OF assms(1)] o(2) by auto
    show "\<forall>q r. ((q, r) \<in> activeTimers ?s) = (q \<notin> set (owned (p # H) s) \<and>
        (\<exists>t. timer_heap ?s q = Some t \<and> t_sequence t = r))"
      using tq_invD(5) [OF assms(1)] o(2) by auto
    show "\<forall>q u. timer_heap ?s q = Some u \<longrightarrow>
        q < UINTPTR_MAX \<and> t_sequence u \<le> s_numCreated ?s \<and> t_repeat u = (t_interval u > 0)"
      using tq_invD(6-8) [OF assms(1)] assms(2) r by auto
    show "\<forall>q q' u u'. timer_heap ?s q = Some u \<longrightarrow> timer_heap ?s q' = Some u' \<longrightarrow>
        t_sequence u = t_sequence u' \<longrightarrow> q = q'"
    proof (intro allI impI)
      fix q q' u u'
      assume *: "timer_heap ?s q = Some u" "timer_heap ?s q' = Some u'" "t_sequence u = t_sequence u'"
      have "\<exists>v. timer_heap s x = Some v \<and> t_sequence v = t_sequence y" if "timer_heap ?s x = Some y" for x y
        using that assms(2) r by (auto split: if_splits)
      with * show "q = q'" using tq_invD(9) [OF assms(1)] by metis
    qed
  qed (use tq_invD(1,2) [OF assms(1)] in simp_all)
qed

lemma heap_delete:
  assumes "tq_inv (p # H) s"
  shows "tq_inv H (s\<lparr>timer_heap := (timer_heap s)(p := None)\<rparr>)" (is "tq_inv _ ?s")
proof -
  have o: "owned H ?s = owned H s" "p \<notin> set (owned H s)" "set (owned (p # H) s) = insert p (set (owned H s))"
    using tq_invD(2) [OF assms] by (auto simp: owned_def)
  show ?thesis
    unfolding tq_inv_def o(1)
  proof (intro conjI)
    show "distinct (owned H s)" using tq_invD(2) [OF assms] by (simp add: owned_def)
    show "set (owned H s) \<subseteq> dom (timer_heap ?s)" using tq_invD(3) [OF assms] o(2,3) by auto
    show "\<forall>w q. ((w, q) \<in> set (timers ?s)) = (q \<notin> set (owned H s) \<and>
        (\<exists>t. timer_heap ?s q = Some t \<and> t_expiration t = w))"
      using tq_invD(4) [OF assms] o(3) by auto
    show "\<forall>q r. ((q, r) \<in> activeTimers ?s) = (q \<notin> set (owned H s) \<and>
        (\<exists>t. timer_heap ?s q = Some t \<and> t_sequence t = r))"
      using tq_invD(5) [OF assms] o(3) by auto
  qed (use tq_invD(1,6-9) [OF assms] in \<open>auto split: if_splits\<close>)
qed

text \<open>What \<open>reset\<close> makes of an expired timer.\<close>

definition rescheduled :: "TimerEnv \<Rightarrow> Timestamp \<Rightarrow> ActiveTimer set \<Rightarrow> ptr \<Rightarrow> Timer \<Rightarrow> Timer option" where
  "rescheduled E now C p t = (if t_repeat t \<and> (p, t_sequence t) \<notin> C then Some (restart E now t) else None)"

lemma restart_later:
  assumes "timer_env E" and "t_repeat t" and "t_interval t > 0"
  shows "now \<le> t_expiration (restart E now t)"
proof -
  have "0 \<le> te_dmul E (t_interval t) (of_int kMicroSecondsPerSecond)"
    using assms by (simp add: timer_env_def kMicroSecondsPerSecond_def)
  then show ?thesis using assms(2) addTime_later by (simp add: restart_def)
qed

lemma reset_timer_ok:
  assumes E: "timer_env E" and "tq_ok E True (snd e # H) s" and "threadId s = tid s" and "0 < now"
    and t: "timer_heap s (snd e) = Some t"
  shows "\<exists>T A. reset_timer E now e s = Inr (s\<lparr>timers := T, activeTimers := A,
      timer_heap := (timer_heap s)(snd e := rescheduled E now (cancelingTimers s) (snd e) t)\<rparr>) \<and>
    tq_ok E True H (s\<lparr>timers := T, activeTimers := A,
      timer_heap := (timer_heap s)(snd e := rescheduled E now (cancelingTimers s) (snd e) t)\<rparr>)"
proof (cases "t_repeat t \<and> (snd e, t_sequence t) \<notin> cancelingTimers s")
  case True
  have i: "tq_inv (snd e # H) s" and a: "arm_ok E True s" using assms(2) by (simp_all add: tq_ok_def)
  let ?s = "s\<lparr>timer_heap := (timer_heap s)(snd e \<mapsto> restart E now t)\<rparr>"
  have w: "0 < t_expiration (restart E now t)"
    using restart_later [OF E, of t now] True tq_invD(8) [OF i t] assms(4) by linarith
  have "timer_heap ?s (snd e) = Some (restart E now t)" "threadId ?s = tid ?s" using assms(3) by simp_all
  from insert_timer_ok [OF heap_restart [OF i t] this(2,1)]
  have *: "insert_timer (snd e) ?s = Inr (timers ?s = [] \<or> t_expiration (restart E now t) < fst (hd (timers ?s)),
      ?s\<lparr>timers := insort (t_expiration (restart E now t), snd e) (timers ?s),
         activeTimers := insert (snd e, t_sequence (restart E now t)) (activeTimers ?s)\<rparr>)"
    "tq_inv H (?s\<lparr>timers := insort (t_expiration (restart E now t), snd e) (timers ?s),
         activeTimers := insert (snd e, t_sequence (restart E now t)) (activeTimers ?s)\<rparr>)" .
  let ?s' = "s\<lparr>timers := insort (t_expiration (restart E now t), snd e) (timers s),
         activeTimers := insert (snd e, t_sequence (restart E now t)) (activeTimers s),
         timer_heap := (timer_heap s)(snd e \<mapsto> restart E now t)\<rparr>"
  have "arm_ok E True ?s'"
  proof (cases "timers s = []")
    case False
    then show ?thesis using arm_ok_insert [OF a False, of "t_expiration (restart E now t)"] w by (simp add: arm_ok_def)
  qed (use w in \<open>simp add: arm_ok_def\<close>)
  moreover have "reset_timer E now e s = Inr ?s'" using *(1) True t by (simp add: reset_timer_def Let_def)
  moreover have eq: "?s\<lparr>timers := insort (t_expiration (restart E now t), snd e) (timers ?s),
         activeTimers := insert (snd e, t_sequence (restart E now t)) (activeTimers ?s)\<rparr> = ?s'" by simp
  have "tq_inv H ?s'" using *(2) unfolding eq .
  ultimately show ?thesis using True by (auto simp: tq_ok_def rescheduled_def)
next
  case False
  have i: "tq_inv (snd e # H) s" and a: "arm_ok E True s" using assms(2) by (simp_all add: tq_ok_def)
  have "reset_timer E now e s = Inr (s\<lparr>timer_heap := (timer_heap s)(snd e := None)\<rparr>)"
    using False t by (auto simp: reset_timer_def deleteT_def)
  moreover have "tq_ok E True H (s\<lparr>timer_heap := (timer_heap s)(snd e := None)\<rparr>)"
    using heap_delete [OF i] a by (simp add: tq_ok_def arm_ok_def)
  moreover have "rescheduled E now (cancelingTimers s) (snd e) t = None" using False by (auto simp: rescheduled_def)
  ultimately show ?thesis by (intro exI [of _ "timers s"] exI [of _ "activeTimers s"]) simp
qed

definition reset_heap ::
  "TimerEnv \<Rightarrow> Timestamp \<Rightarrow> ActiveTimer set \<Rightarrow> ptr set \<Rightarrow> (ptr \<rightharpoonup> Timer) \<Rightarrow> (ptr \<rightharpoonup> Timer)" where
  "reset_heap E now C X h p = (if p \<in> X then rescheduled E now C p (the (h p)) else h p)"

lemma reset_all_ok:
  assumes E: "timer_env E" and "tq_ok E True (map snd L @ H) s" and "threadId s = tid s" and "0 < now"
  shows "\<exists>T A. foldR (reset_timer E now) L s = Inr (s\<lparr>timers := T, activeTimers := A,
      timer_heap := reset_heap E now (cancelingTimers s) (snd ` set L) (timer_heap s)\<rparr>) \<and>
    tq_ok E True H (s\<lparr>timers := T, activeTimers := A,
      timer_heap := reset_heap E now (cancelingTimers s) (snd ` set L) (timer_heap s)\<rparr>)"
  using assms(2,3)
proof (induction L arbitrary: s)
  case Nil
  have "reset_heap E now C {} h = h" for C h by (simp add: reset_heap_def fun_eq_iff)
  with Nil show ?case by (intro exI [of _ "timers s"] exI [of _ "activeTimers s"]) simp
next
  case (Cons e L)
  have i: "tq_inv (snd e # map snd L @ H) s" using Cons.prems(1) by (simp add: tq_ok_def)
  then obtain t where t: "timer_heap s (snd e) = Some t"
    using tq_invD(3) [OF i] by (auto simp: owned_def)
  have n: "snd e \<notin> snd ` set L" using tq_invD(2) [OF i] by (simp add: owned_def)
  obtain T A where s1: "reset_timer E now e s = Inr (s\<lparr>timers := T, activeTimers := A,
      timer_heap := (timer_heap s)(snd e := rescheduled E now (cancelingTimers s) (snd e) t)\<rparr>)"
    "tq_ok E True (map snd L @ H) (s\<lparr>timers := T, activeTimers := A,
      timer_heap := (timer_heap s)(snd e := rescheduled E now (cancelingTimers s) (snd e) t)\<rparr>)"
    using reset_timer_ok [OF E _ Cons.prems(2) assms(4) t, of "map snd L @ H"] Cons.prems(1) by auto
  have h: "reset_heap E now C (snd ` set L) ((timer_heap s)(snd e := rescheduled E now C (snd e) t)) =
      reset_heap E now C (snd ` set (e # L)) (timer_heap s)" for C
    using n t by (auto simp: reset_heap_def fun_eq_iff)
  show ?case using Cons.IH [OF s1(2)] Cons.prems(2) s1(1)
    by (simp add: h del: fun_upd_apply set_simps image_insert list.set)
qed

lemma reset_ok:
  assumes E: "timer_env E" and "tq_ok E True (map snd L @ H) s" and "threadId s = tid s" and "0 < now"
  shows "\<exists>T A a n. TimerQueue_reset E L now s = Inr (s\<lparr>timers := T, activeTimers := A,
      timer_heap := reset_heap E now (cancelingTimers s) (snd ` set L) (timer_heap s),
      nowCalls := nowCalls s + n, armed := a\<rparr>) \<and>
    tq_ok E False H (s\<lparr>timers := T, activeTimers := A,
      timer_heap := reset_heap E now (cancelingTimers s) (snd ` set L) (timer_heap s),
      nowCalls := nowCalls s + n, armed := a\<rparr>)"
proof -
  let ?h = "reset_heap E now (cancelingTimers s) (snd ` set L) (timer_heap s)"
  obtain T A where *: "foldR (reset_timer E now) L s = Inr (s\<lparr>timers := T, activeTimers := A, timer_heap := ?h\<rparr>)"
    "tq_ok E True H (s\<lparr>timers := T, activeTimers := A, timer_heap := ?h\<rparr>)"
    using reset_all_ok [OF assms] by blast
  let ?s = "s\<lparr>timers := T, activeTimers := A, timer_heap := ?h\<rparr>"
  have i: "tq_inv H ?s" and a: "arm_ok E True ?s" using *(2) by (simp_all add: tq_ok_def)
  have next_expire: "bindR (derefT (snd (hd T)) ?s) (\<lambda>t. Inr (t_expiration t)) = Inr (fst (hd T))" if "T \<noteq> []"
    using tq_invD(4) [OF i, of "fst (hd T)" "snd (hd T)"] that by (auto simp: derefT_def)
  show ?thesis
  proof (cases "T \<noteq> [] \<and> 0 < fst (hd T)")
    case True
    then have "TimerQueue_reset E L now s = Inr (resetTimerfd E (fst (hd T)) ?s)"
      using *(1) next_expire by (simp add: TimerQueue_reset_def Timestamp_valid_def)
    moreover have "arm_ok E False (resetTimerfd E (fst (hd T)) ?s)" by (rule arm_ok_set [OF E]) simp
    ultimately show ?thesis using i
      by (intro exI [of _ T] exI [of _ A] exI [of _ "armed (resetTimerfd E (fst (hd T)) ?s)"] exI [of _ 1])
        (simp add: resetTimerfd_ok [OF E] tq_ok_def)
  next
    case False
    have r: "TimerQueue_reset E L now s = Inr ?s"
    proof (cases "T = []")
      case True
      then show ?thesis using *(1) by (simp add: TimerQueue_reset_def Timestamp_valid_def Timestamp_invalid_def)
    qed (use False *(1) next_expire in \<open>simp add: TimerQueue_reset_def Timestamp_valid_def\<close>)
    have "tq_ok E False H ?s" using i a False by (auto simp: tq_ok_def arm_ok_def)
    then show ?thesis using r
      by (intro exI [of _ T] exI [of _ A] exI [of _ "armed s"] exI [of _ 0]) simp
  qed
qed

section \<open>Steps\<close>

text \<open>
  Between steps no timer is in use. Over a step, every timer still alive was alive before or is
  newer, and so is every timer that has run.
\<close>

definition tq_rest :: "TimerEnv \<Rightarrow> TimerQ \<Rightarrow> bool" where
  "tq_rest E s \<longleftrightarrow> tq_ok E False [] s \<and> \<not> callingExpiredTimers s \<and> threadId s = tid s"

definition known :: "TimerQ \<Rightarrow> int \<Rightarrow> bool" where
  "known s q \<longleftrightarrow> s_numCreated s < q \<or> (\<exists>p t. timer_heap s p = Some t \<and> t_sequence t = q)"

definition step_frame :: "TimerQ \<Rightarrow> TimerQ \<Rightarrow> bool" where
  "step_frame s s' \<longleftrightarrow> EPoll.truncate s' = EPoll.truncate s \<and> timerfdChannel s' = timerfdChannel s \<and>
     s_numCreated s \<le> s_numCreated s' \<and> (\<forall>p t. timer_heap s' p = Some t \<longrightarrow> known s (t_sequence t)) \<and>
     (\<exists>xs. fired s' = fired s @ xs \<and> (\<forall>q \<in> set xs. known s q))"

lemma known_heap: "timer_heap s p = Some t \<Longrightarrow> known s (t_sequence t)"
  by (auto simp: known_def)

lemma step_frame_refl [simp]: "step_frame s s"
  by (simp add: step_frame_def known_heap)

lemma known_step: "step_frame s s' \<Longrightarrow> known s' q \<Longrightarrow> known s q"
  unfolding step_frame_def by (metis known_def order_le_less_trans)

lemma step_frame_trans:
  assumes "step_frame s s1" and "step_frame s1 s2"
  shows "step_frame s s2"
proof -
  obtain xs ys where "fired s1 = fired s @ xs" "\<forall>q \<in> set xs. known s q" "fired s2 = fired s1 @ ys"
    "\<forall>q \<in> set ys. known s1 q"
    using assms unfolding step_frame_def by blast
  then have "\<exists>zs. fired s2 = fired s @ zs \<and> (\<forall>q \<in> set zs. known s q)"
    using known_step [OF assms(1)] by (intro exI [of _ "xs @ ys"]) auto
  then show ?thesis
    using assms known_step [OF assms(1)] unfolding step_frame_def by (metis order_trans)
qed

lemma tq_frame_step:
  assumes "tq_frame H s s'"
  shows "step_frame s s'"
proof -
  have "known s (t_sequence t)" if "timer_heap s' p = Some t" for p t
    using assms that unfolding tq_frame_def known_def by blast
  then show ?thesis using assms unfolding tq_frame_def step_frame_def by simp
qed

lemma tq_frame_weaken: "tq_frame H s s' \<Longrightarrow> tq_frame [] s s'"
  by (simp add: tq_frame_def)

text \<open>The state in which \<open>handleRead\<close> starts to run the expired timers.\<close>

definition handle_time :: "TimerEnv \<Rightarrow> TimerQ \<Rightarrow> Timestamp" where
  "handle_time E s = Timestamp_now (te_time E (nowCalls s))"

definition start_expiry :: "TimerEnv \<Rightarrow> TimerQ \<Rightarrow> TimerQ" where
  "start_expiry E s = (after_expiry (handle_time E s) (readTimerfd E (s\<lparr>nowCalls := nowCalls s + 1\<rparr>)))
     \<lparr>callingExpiredTimers := True, cancelingTimers := {}\<rparr>"

lemma start_expiry_fields:
  "timer_heap (start_expiry E s) = timer_heap s" "fired (start_expiry E s) = fired s"
  "s_numCreated (start_expiry E s) = s_numCreated s" "EPoll.truncate (start_expiry E s) = EPoll.truncate s"
  "timerfdChannel (start_expiry E s) = timerfdChannel s"
  "timers (start_expiry E s) = dropWhile (\<lambda>e. fst e \<le> handle_time E s) (timers s)"
  by (simp_all add: start_expiry_def after_expiry_def readTimerfd_def Let_def EPoll.truncate_def)

lemma handleRead_start:
  assumes "timer_env E" and "tq_rest E s"
  defines "L \<equiv> expired_at (handle_time E s) s"
  shows "TimerQueue_handleRead E s = bindR (foldR (\<lambda>it. Timer_run E (snd it)) L (start_expiry E s)) (\<lambda>s'.
      TimerQueue_reset E L (handle_time E s) (s'\<lparr>callingExpiredTimers := False\<rparr>))"
    and "tq_ok E True (map snd L) (start_expiry E s)"
proof -
  have r: "tq_inv [] s" "threadId s = tid s" using assms(2) by (simp_all add: tq_rest_def tq_ok_def)
  define s0 where "s0 = readTimerfd E (s\<lparr>nowCalls := nowCalls s + 1\<rparr>)"
  have i: "tq_inv [] s0" using r(1) by (simp add: s0_def readTimerfd_def Let_def)
  have L: "expired_at n s0 = expired_at n s" for n by (simp add: s0_def readTimerfd_def Let_def expired_at_def)
  have g: "getExpired (handle_time E s) s0 = Inr (L, after_expiry (handle_time E s) s0)"
    using getExpired_ok [OF i] by (simp add: L L_def)
  show "TimerQueue_handleRead E s = bindR (foldR (\<lambda>it. Timer_run E (snd it)) L (start_expiry E s)) (\<lambda>s'.
      TimerQueue_reset E L (handle_time E s) (s'\<lparr>callingExpiredTimers := False\<rparr>))"
    using g r(2) unfolding s0_def
    by (simp add: TimerQueue_handleRead_def now_call_def handle_time_def start_expiry_def)
  have "timers (start_expiry E s) \<noteq> [] \<Longrightarrow> handle_time E s < fst (hd (timers (start_expiry E s)))"
    unfolding start_expiry_fields(6) using hd_dropWhile [of "\<lambda>e. fst e \<le> handle_time E s" "timers s"] by fastforce
  moreover have "0 < handle_time E s" using assms(1) by (simp add: timer_env_def handle_time_def)
  ultimately have "arm_ok E True (start_expiry E s)" by (force simp: arm_ok_def)
  moreover have "tq_inv (map snd L) (start_expiry E s)"
    using after_expiry_inv [OF i, of "handle_time E s"] unfolding L by (simp add: start_expiry_def s0_def L_def)
  ultimately show "tq_ok E True (map snd L) (start_expiry E s)" by (simp add: tq_ok_def)
qed

lemma handleRead_ok:
  assumes E: "timer_env E" and "tq_rest E s"
  defines "now \<equiv> handle_time E s"
  shows "ends {BadAlloc} (TimerQueue_handleRead E s) (\<lambda>s'. tq_rest E s' \<and> step_frame s s' \<and>
    fired s' = fired s @ map (\<lambda>e. t_sequence (the (timer_heap s (snd e)))) (expired_at now s) \<and>
    (\<forall>e \<in> set (expired_at now s).
       timer_heap s' (snd e) = rescheduled E now (cancelingTimers s') (snd e) (the (timer_heap s (snd e))) \<and>
       snd e \<notin> set (queued (pendingFunctors s'))))"
proof -
  let ?L = "expired_at now s" and ?s1 = "start_expiry E s"
  have p: "0 < now" using E by (simp add: timer_env_def now_def handle_time_def)
  note st = handleRead_start [OF E assms(2), folded now_def]
  have "\<forall>e \<in> set ?L. snd e \<in> set (map snd ?L)" by simp
  from run_expired_ok [OF E st(2) this] show ?thesis
    unfolding st(1)
  proof (rule ends_bind, elim conjE)
    fix s2 assume s2: "tq_ok E True (map snd ?L) s2" "tq_frame (map snd ?L) (?s1\<lparr>fired := fired s2\<rparr>) s2"
      "fired s2 = fired ?s1 @ map (\<lambda>e. t_sequence (the (timer_heap ?s1 (snd e)))) ?L"
    define s2' where "s2' = s2\<lparr>callingExpiredTimers := False\<rparr>"
    have t: "EPoll.truncate s2' = EPoll.truncate s" "timerfdChannel s2' = timerfdChannel s"
      "s_numCreated s \<le> s_numCreated s2'"
      using s2(2) start_expiry_fields [of E s] unfolding tq_frame_def s2'_def by (simp_all add: EPoll.truncate_def)
    have th: "threadId s2' = tid s2'" using truncate_fields(1,2) [OF t(1)] assms(2) by (simp add: tq_rest_def)
    have h: "timer_heap s2' (snd e) = timer_heap s (snd e)" if "e \<in> set ?L" for e
      using s2(2) start_expiry_fields(1) that by (simp add: tq_frame_def s2'_def)
    have k: "known s (t_sequence u)" if "timer_heap s2' p = Some u" for p u
    proof -
      have "s_numCreated s < t_sequence u \<or> timer_heap s p = Some u"
        using s2(2) that unfolding tq_frame_def s2'_def by (simp add: start_expiry_fields(1,3))
      then show ?thesis unfolding known_def by blast
    qed
    have "tq_ok E True (map snd ?L @ []) s2'" using s2(1) by (simp add: tq_ok_def arm_ok_def s2'_def)
    from reset_ok [OF E this th p] obtain s3 where s3: "TimerQueue_reset E ?L now s2' = Inr s3" "tq_ok E False [] s3"
      "timer_heap s3 = reset_heap E now (cancelingTimers s3) (snd ` set ?L) (timer_heap s2')"
      "EPoll.truncate s3 = EPoll.truncate s2'" "timerfdChannel s3 = timerfdChannel s2'" "fired s3 = fired s2'"
      "s_numCreated s3 = s_numCreated s2'" "callingExpiredTimers s3 = callingExpiredTimers s2'"
      "pendingFunctors s3 = pendingFunctors s2'"
      by (force simp: EPoll.truncate_def)
    have k3: "known s (t_sequence u)" if "timer_heap s3 p = Some u" for p u
    proof (cases "p \<in> snd ` set ?L")
      case True
      then have "rescheduled E now (cancelingTimers s3) p (the (timer_heap s2' p)) = Some u"
        using that s3(3) by (simp add: reset_heap_def)
      then have "t_sequence u = t_sequence (the (timer_heap s2' p))"
        by (auto simp: rescheduled_def restart_def split: if_splits)
      moreover obtain v where "timer_heap s2' p = Some v"
        using True h expired_alive [of "[]" s] assms(2) by (fastforce simp: tq_rest_def tq_ok_def)
      ultimately show ?thesis using k by simp
    qed (use that s3(3) k in \<open>simp add: reset_heap_def\<close>)
    have "tq_rest E s3"
      using s3(2,8) truncate_fields(1,2) [OF s3(4)] th by (simp add: tq_rest_def s2'_def)
    moreover have fl: "fired s3 = fired s @ map (\<lambda>e. t_sequence (the (timer_heap s (snd e)))) ?L"
      using s3(6) s2(3) start_expiry_fields(1,2) by (simp add: s2'_def)
    moreover have "known s q" if "q \<in> set (map (\<lambda>e. t_sequence (the (timer_heap s (snd e)))) ?L)" for q
      using that expired_alive [of "[]" s] assms(2) known_heap by (fastforce simp: tq_rest_def tq_ok_def)
    then have "step_frame s s3"
      unfolding step_frame_def using t s3(4,5,7) k3 fl by auto
    moreover have "timer_heap s3 (snd e) = rescheduled E now (cancelingTimers s3) (snd e) (the (timer_heap s (snd e)))"
      "snd e \<notin> set (queued (pendingFunctors s3))" if "e \<in> set ?L" for e
      using that s3(3,9) h tq_invD(2) [of "map snd ?L" s2] s2(1)
      by (auto simp: reset_heap_def tq_ok_def owned_def s2'_def)
    ultimately show "ends {BadAlloc} (TimerQueue_reset E ?L now (s2\<lparr>callingExpiredTimers := False\<rparr>)) (\<lambda>s'.
      tq_rest E s' \<and> step_frame s s' \<and>
      fired s' = fired s @ map (\<lambda>e. t_sequence (the (timer_heap s (snd e)))) ?L \<and>
      (\<forall>e \<in> set ?L. timer_heap s' (snd e) = rescheduled E now (cancelingTimers s') (snd e) (the (timer_heap s (snd e))) \<and>
         snd e \<notin> set (queued (pendingFunctors s'))))"
      using s3(1) by (simp add: s2'_def)
  qed
qed

lemma run_functors_ok:
  assumes E: "timer_env E" and "tq_ok E False (queued fs) s" and "threadId s = tid s"
  shows "ends {BadAlloc} (foldR (run_functor E) fs s) (\<lambda>s'. tq_ok E False [] s' \<and> tq_frame [] s s')"
  using assms(2,3)
proof (induction fs arbitrary: s rule: queued.induct)
  case (2 p fs)
  have "tq_ok E False (p # queued fs) s" using "2.prems"(1) by simp
  from addTimerInLoop_ok [OF E this "2.prems"(2)] obtain s1 where
    s1: "addTimerInLoop E p s = Inr s1" "tq_ok E False (queued fs) s1" "tq_frame [] s s1"
    using tq_frame_weaken by blast
  then show ?case
    using ends_frame [OF "2.IH" [OF s1(2)] s1(3)] tq_frame_loop [OF s1(3)] "2.prems"(2) by simp
next
  case (3 timerId fs)
  have "tq_ok E False (queued fs) s" using "3.prems"(1) by simp
  from cancelInLoop_ok [OF this "3.prems"(2), of timerId] obtain s1 where
    s1: "cancelInLoop timerId s = Inr s1" "tq_ok E False (queued fs) s1" "tq_frame [] s s1"
    using tq_frame_weaken by blast
  then show ?case
    using ends_frame [OF "3.IH" [OF s1(2)] s1(3)] tq_frame_loop [OF s1(3)] "3.prems"(2) by simp
qed simp

lemma pending_ok:
  assumes E: "timer_env E" and "tq_rest E s"
  shows "ends {BadAlloc} (doPendingFunctors (run_functor E) s) (\<lambda>s'. tq_rest E s' \<and> step_frame s s')"
proof -
  let ?s = "s\<lparr>callingPendingFunctors := True, pendingFunctors := []\<rparr>"
  have r: "tq_inv [] s" "arm_ok E False s" "\<not> callingExpiredTimers s" "threadId s = tid s"
    using assms(2) by (simp_all add: tq_rest_def tq_ok_def)
  have "tq_inv (queued (pendingFunctors s)) ?s"
    by (rule tq_inv_permute [OF r(1)]) (use tq_invD(2) [OF r(1)] in \<open>simp_all add: owned_def\<close>)
  then have "tq_ok E False (queued (pendingFunctors s)) ?s" using r(2) by (simp add: tq_ok_def arm_ok_def)
  from run_functors_ok [OF E this] r(4)
  have "ends {BadAlloc} (foldR (run_functor E) (pendingFunctors s) ?s) (\<lambda>s'. tq_ok E False [] s' \<and> tq_frame [] ?s s')"
    by simp
  then show ?thesis
    unfolding doPendingFunctors_def Let_def
  proof (rule ends_bind, elim conjE)
    fix s1 assume s1: "tq_ok E False [] s1" "tq_frame [] ?s s1"
    then have "tq_frame [] s (s1\<lparr>callingPendingFunctors := False\<rparr>)" by (simp add: tq_frame_def EPoll.truncate_def)
    then show "ends {BadAlloc} (Inr (s1\<lparr>callingPendingFunctors := False\<rparr>)) (\<lambda>s'. tq_rest E s' \<and> step_frame s s')"
      using s1 r(3,4) tq_frame_loop [OF s1(2)] tq_frame_step
      by (simp add: tq_rest_def tq_ok_def arm_ok_def) (simp add: tq_frame_def)
  qed
qed

lemma step_ok:
  assumes E: "timer_env E" and r: "tq_rest E s"
  shows "ends {BadAlloc} (tq_step E ev s) (\<lambda>s'. tq_rest E s' \<and> step_frame s s')"
proof (cases ev)
  case Readable
  then show ?thesis using handleRead_ok [OF assms] by (auto elim: ends_mono)
next
  case (InLoop pr)
  have "tq_ok E False [] s" using r by (simp add: tq_rest_def)
  from run_prog_ok [OF E this, of pr] show ?thesis
    unfolding InLoop tq_step.simps
  proof (rule ends_mono, elim conjE)
    fix s' assume s': "tq_ok E False [] s'" "tq_frame [] s s'"
    then show "tq_rest E s' \<and> step_frame s s'"
      using r tq_frame_loop [OF s'(2)] tq_frame_step [OF s'(2)] by (simp add: tq_rest_def tq_frame_def)
  qed
next
  case (OtherThread t pr)
  let ?s = "s\<lparr>tid := t\<rparr>"
  have "tq_ok E False [] ?s" using r by (simp add: tq_rest_def tq_ok_def arm_ok_def)
  from run_prog_ok [OF E this, of pr] show ?thesis
    unfolding OtherThread tq_step.simps
  proof (rule ends_bind, elim conjE)
    fix s1 assume s1: "tq_ok E False [] s1" "tq_frame [] ?s s1"
    have t: "threadId s1 = tid s" using tq_frame_loop(1) [OF s1(2)] r by (simp add: tq_rest_def)
    then have f: "tq_frame [] s (s1\<lparr>tid := threadId s1\<rparr>)" using s1(2) by (simp add: tq_frame_def EPoll.truncate_def)
    then show "ends {BadAlloc} (Inr (s1\<lparr>tid := threadId s1\<rparr>)) (\<lambda>s'. tq_rest E s' \<and> step_frame s s')"
      using s1(1) r tq_frame_step [OF f] by (simp add: tq_rest_def tq_ok_def arm_ok_def) (simp add: tq_frame_def)
  qed
next
  case Pending
  then show ?thesis using pending_ok [OF assms] by simp
qed

lemma run_ok:
  assumes E: "timer_env E" and "tq_rest E s"
  shows "ends {BadAlloc} (foldR (tq_step E) evs s) (\<lambda>s'. tq_rest E s' \<and> step_frame s s')"
proof -
  have "ends {BadAlloc} (foldR (tq_step E) evs s) (\<lambda>s'. tq_rest E s' \<and> step_frame s s')"
  proof (rule ends_foldR [where I = "\<lambda>_ s'. tq_rest E s' \<and> step_frame s s'"])
    show "tq_rest E s \<and> step_frame s s" using assms(2) by simp
    fix ev evs s1 assume s1: "tq_rest E s1 \<and> step_frame s s1"
    show "ends {BadAlloc} (tq_step E ev s1) (\<lambda>s'. tq_rest E s' \<and> step_frame s s')"
      using step_ok [OF E, of s1 ev] s1 by (auto elim!: ends_mono intro: step_frame_trans)
  qed
  then show ?thesis .
qed

lemma delete_all:
  assumes "\<forall>e \<in> set L. timer_heap s (snd e) \<noteq> None" and "distinct (map snd L)"
  shows "foldR (\<lambda>timer. deleteT (snd timer)) L s =
    Inr (s\<lparr>timer_heap := (\<lambda>p. if p \<in> snd ` set L then None else timer_heap s p)\<rparr>)"
  using assms
proof (induction L arbitrary: s)
  case (Cons e L)
  then obtain t where t: "timer_heap s (snd e) = Some t" by auto
  let ?s = "s\<lparr>timer_heap := (timer_heap s)(snd e := None)\<rparr>"
  have "\<forall>f \<in> set L. timer_heap ?s (snd f) \<noteq> None" using Cons.prems by (auto simp: image_iff)
  moreover have d: "deleteT (snd e) s = Inr ?s" using t by (simp add: deleteT_def)
  ultimately have "foldR (\<lambda>timer. deleteT (snd timer)) (e # L) s =
      Inr (s\<lparr>timer_heap := (\<lambda>p. if p \<in> snd ` set L then None else timer_heap ?s p)\<rparr>)"
    using Cons.IH [of ?s] Cons.prems(2) by simp
  moreover have "(\<lambda>p. if p \<in> snd ` set L then None else timer_heap ?s p) =
      (\<lambda>p. if p \<in> snd ` set (e # L) then None else timer_heap s p)" by (auto simp: fun_eq_iff)
  ultimately show ?case by simp
qed simp

section \<open>Construction and destruction\<close>

lemma TimerQueue_new_ok:
  assumes "epoll_kernel (te_ctl E)" and "epoll_inv loop" and "threadId loop = tid loop" and "heap loop p = None"
    and "channels loop r = None" and "0 \<le> r" and "pendingFunctors loop = []"
  shows "\<exists>s. TimerQueue_new E r p created loop = Inr s \<and> tq_rest E s \<and> epoll_inv s \<and> timerfdChannel s = p \<and>
    channels s = (channels loop)(r \<mapsto> p) \<and> epoll_watched s = (epoll_watched loop)(r \<mapsto> kReadEvent) \<and>
    eventHandling_loop s = eventHandling_loop loop \<and> timer_heap s = Map.empty \<and>
    (\<exists>c. heap s p = Some c \<and> fd c = r)"
proof -
  let ?c = "Channel_new (self loop) r"
  let ?s = "EventLoop.extend (loop\<lparr>heap := (heap loop)(p \<mapsto> ?c)\<rparr>)
         (TimerQ.fields r p [] {} False {} Map.empty created None 0 0 [])"
  note unf = EventLoop.defs TimerQ.defs
  have np: "q \<noteq> p" if "channels loop k = Some q" for k q
    using epoll_invD [OF assms(2) that] assms(4) by auto
  have i: "epoll_inv ?s"
    using assms(2) np unfolding epoll_inv_def by (auto simp: unf)
  have f: "threadId ?s = tid ?s" "heap ?s p = Some ?c" "ownerLoop ?c = self ?s" "index ?c = kNew"
    "channels ?s (fd ?c) = None" "0 \<le> fd ?c" "valid_events kReadEvent"
    using assms(3,5,6) by (simp_all add: unf Channel_new_def kNew_def valid_events_def poll_flags)
  obtain s j where s: "set_events (EPollPoller_updateChannel (te_ctl E)) kReadEvent p ?s = Inr s" "epoll_inv s"
    "epoll_same ?s s" "channels s = (channels ?s)(fd ?c \<mapsto> p)" "epoll_watched s = (epoll_watched ?s)(fd ?c \<mapsto> kReadEvent)"
    "heap s = (heap ?s)(p \<mapsto> ?c\<lparr>events := kReadEvent, addedToLoop := True, index := j\<rparr>)"
    using poller.upd_new [OF epoll_kernel.epoll_poller [OF assms(1)] i f] by blast
  have "events ?c = 0" by (simp add: Channel_new_def)
  then have "TimerQueue_new E r p created loop = Inr s"
    using s(1) assms(6) by (simp add: TimerQueue_new_def createTimerfd_def interest_ops(1) [OF f(2)])
  moreover have "tq_rest E s"
    using s(3) assms(3,7) unfolding epoll_same_def
    by (auto simp: tq_rest_def tq_ok_def tq_inv_def arm_ok_def owned_def unf)
  moreover have "epoll_watched ?s = epoll_watched loop" by (simp add: epoll_watched_def fun_eq_iff unf)
  moreover have "timerfdChannel s = p" "eventHandling_loop s = eventHandling_loop loop" "timer_heap s = Map.empty"
    using s(3) unfolding epoll_same_def by (auto simp: unf)
  ultimately show ?thesis using s(2,4,5,6) by (simp add: Channel_new_def unf)
qed

lemma TimerQueue_dtor_ok:
  assumes "epoll_kernel (te_ctl E)" and "epoll_inv s" and "tq_inv [] s" and "threadId s = tid s"
    and "heap s (timerfdChannel s) = Some c" and "channels s (fd c) = Some (timerfdChannel s)"
    and "epoll_watched s (fd c) \<noteq> None" and "\<not> eventHandling_loop s"
  shows "\<exists>s'. TimerQueue_dtor E s = Inr s' \<and> epoll_inv s' \<and> channels s' = (channels s)(fd c := None) \<and>
    epoll_watched s' = (epoll_watched s)(fd c := None) \<and> dom (timer_heap s') = set (queued (pendingFunctors s))"
proof -
  note P = epoll_kernel.epoll_poller [OF assms(1)]
  let ?p = "timerfdChannel s"
  obtain t k where t: "set_events (EPollPoller_updateChannel (te_ctl E)) 0 ?p s = Inr t" "epoll_inv t"
    "epoll_same s t" "channels t = channels s" "epoll_watched t = (epoll_watched s)(fd c := None)"
    "heap t = (heap s)(?p \<mapsto> c\<lparr>events := 0, addedToLoop := True, index := k\<rparr>)"
    using poller.upd_mod [OF P assms(2,4,5,6), of 0] assms(7) by auto
  have w: "timerfdChannel t = ?p" "threadId t = tid t" "\<not> eventHandling_loop t"
    using t(3) assms(4,8) by (auto simp: epoll_same_def)
  obtain u where u: "Channel_remove (EPollPoller_removeChannel (te_ctl E)) ?p t = Inr u" "epoll_inv u" "epoll_same t u"
    "channels u = (channels t)(fd c := None)" "epoll_watched u = epoll_watched t"
    using poller.rem_law [OF P t(2) w(2), of ?p "c\<lparr>events := 0, addedToLoop := True, index := k\<rparr>"] t(4,5,6) w(3) assms(6)
    by auto
  have f: "timers u = timers s" "timer_heap u = timer_heap s"
    using t(3) u(3) by (auto simp: epoll_same_def)
  let ?u = "u\<lparr>timer_heap := (\<lambda>p. if p \<in> snd ` set (timers s) then None else timer_heap s p)\<rparr>"
  have "\<forall>e \<in> set (timers s). timer_heap u (snd e) \<noteq> None"
    using tq_invD(4) [OF assms(3)] f(2) by (metis option.distinct(1) prod.collapse)
  then have "foldR (\<lambda>timer. deleteT (snd timer)) (timers u) u = Inr ?u"
    using delete_all [of "timers s" u, unfolded f(2)] expired_distinct(1) [OF assms(3)] by (simp add: f)
  then have "TimerQueue_dtor E s = Inr ?u"
    using t(1) u(1) w(1) by (simp add: TimerQueue_dtor_def interest_ops(5) [OF assms(5)])
  moreover have "dom (timer_heap ?u) = set (queued (pendingFunctors s))"
  proof -
    have "p \<in> snd ` set (timers s) \<longleftrightarrow> p \<in> dom (timer_heap s) - set (queued (pendingFunctors s))" for p
    proof
      assume "p \<in> snd ` set (timers s)"
      then obtain v where "(v, p) \<in> set (timers s)" by force
      then show "p \<in> dom (timer_heap s) - set (queued (pendingFunctors s))"
        using tq_invD(4) [OF assms(3), of v p] by (auto simp: owned_def)
    next
      assume "p \<in> dom (timer_heap s) - set (queued (pendingFunctors s))"
      then obtain v where "timer_heap s p = Some v" "p \<notin> set (queued (pendingFunctors s))" by blast
      then have "(t_expiration v, p) \<in> set (timers s)"
        using tq_invD(4) [OF assms(3), of "t_expiration v" p] by (simp add: owned_def)
      then show "p \<in> snd ` set (timers s)" by force
    qed
    then show ?thesis using tq_invD(3) [OF assms(3)] by (auto simp: owned_def dom_def)
  qed
  moreover have "epoll_inv ?u" using u(2) by (simp add: epoll_inv_def)
  moreover have "epoll_watched ?u = epoll_watched u" by (simp add: epoll_watched_def fun_eq_iff)
  ultimately show ?thesis using u(4,5) t(4,5) by simp
qed

section \<open>Properties\<close>

text \<open>An environment and a loop for the examples: addresses are never reused, time advances a second per reading.\<close>

definition ex_timer_env :: TimerEnv where
  "ex_timer_env = \<lparr>te_ctl = linux_epoll_ctl, te_time = (\<lambda>n. (1000 + int n, 0)), te_read = (\<lambda>n. True),
     te_settime = (\<lambda>ts f. (True, Some ts)),
     te_alloc = (\<lambda>n h. if h (n + 1) = None \<and> n + 1 < UINTPTR_MAX then Some (n + 1) else None),
     te_dmul = (*),
     te_callback = (\<lambda>cb s. if cb = 1 then RunAfter 3 0 (\<lambda>timerId. Cancel timerId Return) else Return)\<rparr>"

definition ex_timer_loop :: "timer_functor EventLoop" where
  "ex_timer_loop = \<lparr>self = 0, threadId = 1, tid = 1, heap = Map.empty, channels = Map.empty,
     eventHandling_loop = False, activeChannels = [], currentActiveChannel = None, epoll = Map.empty,
     eventsSize = kInitEventListSize, looping = False, quit = False, callingPendingFunctors = False, iteration = 0,
     wakeupFd = 4, wakeupChannel = 7, wakeupCount = 0, pendingFunctors = []\<rparr>"

lemma ex_timer_env_ok: "timer_env ex_timer_env" "epoll_kernel (te_ctl ex_timer_env)"
  using linux.epoll_kernel_axioms
  by (auto simp: timer_env_def ex_timer_env_def Timestamp_now_def kMicroSecondsPerSecond_def split: if_splits)

lemma ex_timer_loop_ok: "epoll_inv ex_timer_loop" "threadId ex_timer_loop = tid ex_timer_loop"
  "pendingFunctors ex_timer_loop = []" "heap ex_timer_loop 9 = None" "channels ex_timer_loop 5 = None"
  "\<not> eventHandling_loop ex_timer_loop" "epoll_watched ex_timer_loop 5 = None"
  by (simp_all add: ex_timer_loop_def epoll_inv_def epoll_watched_def)




definition ex_timer_queue :: TimerQ where
  "ex_timer_queue = EventLoop.extend ex_timer_loop
     (TimerQ.fields 5 9 [(500, 1), (2000000000, 2)] {(1, 1), (2, 2)} False {}
       [1 \<mapsto> \<lparr>t_callback = 1, t_expiration = 500, t_interval = 2, t_repeat = True, t_sequence = 1\<rparr>,
        2 \<mapsto> \<lparr>t_callback = 0, t_expiration = 2000000000, t_interval = 0, t_repeat = False, t_sequence = 2\<rparr>]
       2 (Some (0, 100000)) 1 0 [])"

lemma ex_timer_queue_rest: "tq_rest ex_timer_env ex_timer_queue"
proof -
  note unf = ex_timer_queue_def EventLoop.defs TimerQ.defs ex_timer_loop_def
  have "tq_inv [] ex_timer_queue"
    by (auto simp: tq_inv_def owned_def unf UINTPTR_MAX_def less_prod_def split: if_splits)
  moreover have "arm_ok ex_timer_env False ex_timer_queue"
    unfolding arm_ok_def
    by (intro impI exI [of _ 500] exI [of _ 0])
      (simp add: unf ex_timer_env_def howMuchTimeFromNow_def Timestamp_now_def kMicroSecondsPerSecond_def)
  ultimately show ?thesis by (simp add: tq_rest_def tq_ok_def unf)
qed


text \<open>
  \<^bold>\<open>C11\<close>. A timer that the loop's thread cancels while it is scheduled never runs again, whatever
  happens afterwards, even when the address of its object is reused for another timer.
\<close>

theorem cancelled_never_runs:
  assumes "timer_env E" and "tq_rest E s" and "(p, q) \<in> activeTimers s"
  shows "\<exists>s1. EventLoop_cancel E \<lparr>id_timer = p, id_sequence = q\<rparr> s = Inr s1 \<and>
    ends {BadAlloc} (foldR (tq_step E) evs s1) (\<lambda>s'. \<exists>xs. fired s' = fired s @ xs \<and> q \<notin> set xs)"
proof -
  have i: "tq_inv [] s" "threadId s = tid s" using assms(2) by (simp_all add: tq_rest_def tq_ok_def)
  obtain t where t: "timer_heap s p = Some t" "t_sequence t = q" using tq_invD(5) [OF i(1), of p q] assms(3) by auto
  let ?s = "s\<lparr>timers := remove1 (t_expiration t, p) (timers s), timer_heap := (timer_heap s)(p := None),
    activeTimers := activeTimers s - {(p, t_sequence t)}\<rparr>"
  have c: "EventLoop_cancel E \<lparr>id_timer = p, id_sequence = q\<rparr> s = Inr ?s"
    using cancelInLoop_found [OF i t(1)] t(2) assms(3) i(2)
    by (simp add: EventLoop_cancel_def TimerQueue_cancel_def runInLoop_def isInLoopThread_def)
  obtain s1 where "cancelInLoop \<lparr>id_timer = p, id_sequence = q\<rparr> s = Inr s1" "tq_ok E False [] s1" "tq_frame [] s s1"
    using cancelInLoop_ok [of E False "[]" s] assms(2) i(2) unfolding tq_rest_def by blast
  then have "tq_ok E False [] ?s"
    using cancelInLoop_found [OF i t(1)] t(2) assms(3) by simp
  then have r: "tq_rest E ?s" using assms(2) by (simp add: tq_rest_def)
  have k: "\<not> known ?s q"
    using tq_invD(7) [OF i(1) t(1)] tq_invD(9) [OF i(1) t(1)] t(2) by (auto simp: known_def)
  show ?thesis
  proof (intro exI conjI, rule c, rule ends_mono [OF run_ok [OF assms(1) r, of evs]], elim conjE)
    fix s' assume "step_frame ?s s'"
    then obtain xs where "fired s' = fired s @ xs" "\<forall>q \<in> set xs. known ?s q"
      by (auto simp: step_frame_def)
    then show "\<exists>xs. fired s' = fired s @ xs \<and> q \<notin> set xs" using k by blast
  qed
qed

theorem cancelled_never_runs_witness:
  "\<exists>s1. EventLoop_cancel ex_timer_env \<lparr>id_timer = 1, id_sequence = 1\<rparr> ex_timer_queue = Inr s1 \<and>
    ends {BadAlloc} (foldR (tq_step ex_timer_env) [Readable, InLoop (RunEvery 1 1 (\<lambda>timerId. Return)), Readable] s1)
      (\<lambda>s'. \<exists>xs. fired s' = fired ex_timer_queue @ xs \<and> 1 \<notin> set xs)"
  by (rule cancelled_never_runs [OF ex_timer_env_ok(1) ex_timer_queue_rest])
    (simp add: ex_timer_queue_def EventLoop.defs TimerQ.defs)

text \<open>
  \<^bold>\<open>C35\<close>. \<open>addTimer\<close> reads the sequence number of the timer after it has passed the timer to the
  loop. On another thread this is a use after free: if the loop adds the timer and runs it before
  the read, a timer that does not repeat has been deleted.
\<close>

theorem addTimer_race:
  assumes "timer_env E" and "tq_rest E s" and "pendingFunctors s = []" and "thread \<noteq> threadId s"
    and "te_alloc E (nat (s_numCreated s)) (timer_heap s) = Some p" and "\<forall>n. w \<le> Timestamp_now (te_time E n)"
    and "\<not> 0 < v"
  shows "\<exists>s1. addTimer_post E cb w v (s\<lparr>tid := thread\<rparr>) = Inr (p, s1) \<and>
    ends {BadAlloc} (foldR (tq_step E) [Pending, Readable] (s1\<lparr>tid := threadId s1\<rparr>))
      (\<lambda>s2. addTimer_return p s2 = Inl UndefinedBehaviour)"
proof -
  let ?t = "Timer_new cb w v (s_numCreated s)"
  let ?s = "s\<lparr>timer_heap := (timer_heap s)(p \<mapsto> ?t), s_numCreated := s_numCreated s + 1\<rparr>"
  let ?s1 = "wakeup (?s\<lparr>tid := thread, pendingFunctors := [AddTimerInLoop p]\<rparr>)"
  have r: "tq_inv [] s" "arm_ok E False s" "threadId s = tid s" "\<not> callingExpiredTimers s"
    using assms(2) by (simp_all add: tq_rest_def tq_ok_def)
  have p: "timer_heap s p = None" "p < UINTPTR_MAX" using assms(1,5) by (simp_all add: timer_env_def)
  have post: "addTimer_post E cb w v (s\<lparr>tid := thread\<rparr>) = Inr (p, ?s1)"
    using assms(3-5) by (simp add: addTimer_post_def runInLoop_def queueInLoop_def isInLoopThread_def wakeup_def Let_def)
  have i: "tq_inv [p] ?s" using alloc_inv [OF r(1) p] by simp
  let ?s2 = "?s1\<lparr>tid := threadId ?s1\<rparr>"
  let ?s3 = "?s2\<lparr>callingPendingFunctors := True, pendingFunctors := []\<rparr>"
  have "tq_inv [p] ?s3" by (rule tq_inv_permute [OF i]) (use tq_invD(2) [OF i] assms(3) in \<open>simp_all add: owned_def wakeup_def\<close>)
  then have "tq_ok E False [p] ?s3" using r(2) by (simp add: tq_ok_def arm_ok_def wakeup_def)
  from addTimerInLoop_ok [OF assms(1) this] obtain s4 where s4: "addTimerInLoop E p ?s3 = Inr s4" "tq_ok E False [] s4"
    "tq_frame [] ?s3 s4" "timer_heap s4 = timer_heap ?s3" "pendingFunctors s4 = []"
    by (auto simp: wakeup_def)
  let ?s5 = "s4\<lparr>callingPendingFunctors := False\<rparr>"
  have pend: "tq_step E Pending ?s2 = Inr ?s5"
    using s4(1) by (simp add: doPendingFunctors_def wakeup_def)
  have rest: "tq_rest E ?s5"
    using s4(2,3) r(3,4) tq_frame_loop [OF s4(3)]
    by (simp add: tq_rest_def tq_ok_def arm_ok_def tq_frame_def wakeup_def)
  have t5: "timer_heap ?s5 p = Some ?t" using s4(4) by (simp add: wakeup_def)
  have "(w, p) \<in> set (timers ?s5)"
    using tq_invD(4) [of "[]" ?s5 w p] rest t5 s4(5) by (simp add: tq_rest_def tq_ok_def owned_def)
  then have e: "(w, p) \<in> set (expired_at (handle_time E ?s5) ?s5)"
    using expired_set(1) [of "[]" ?s5] rest assms(6) by (simp add: tq_rest_def tq_ok_def handle_time_def)
  have "ends {BadAlloc} (tq_step E Readable ?s5) (\<lambda>s2. addTimer_return p s2 = Inl UndefinedBehaviour)"
    unfolding tq_step.simps
  proof (rule ends_mono [OF handleRead_ok [OF assms(1) rest]], elim conjE)
    fix s6 :: TimerQ
    assume h: "\<forall>e \<in> set (expired_at (handle_time E ?s5) ?s5). timer_heap s6 (snd e) =
      rescheduled E (handle_time E ?s5) (cancelingTimers s6) (snd e) (the (timer_heap ?s5 (snd e))) \<and>
      snd e \<notin> set (queued (pendingFunctors s6))"
    from bspec [OF h e] have "timer_heap s6 p = None" using t5 assms(7) by (simp add: rescheduled_def)
    then show "addTimer_return p s6 = Inl UndefinedBehaviour" by (simp add: addTimer_return_def derefT_def)
  qed
  then show ?thesis using post pend by (cases "tq_step E Readable ?s5") (simp_all del: tq_step.simps)
qed

theorem addTimer_race_witness:
  "\<exists>s1. addTimer_post ex_timer_env 0 900000000 0 (ex_timer_queue\<lparr>tid := 8\<rparr>) = Inr (3, s1) \<and>
    ends {BadAlloc} (foldR (tq_step ex_timer_env) [Pending, Readable] (s1\<lparr>tid := threadId s1\<rparr>))
      (\<lambda>s2. addTimer_return 3 s2 = Inl UndefinedBehaviour)"
  by (rule addTimer_race [OF ex_timer_env_ok(1) ex_timer_queue_rest])
    (simp_all add: ex_timer_queue_def EventLoop.defs TimerQ.defs ex_timer_loop_def ex_timer_env_def UINTPTR_MAX_def
      Timestamp_now_def kMicroSecondsPerSecond_def)

end
