(* ===== verification/Net_Lines.thy ===== *)
theory Net_Lines
  imports Net_Buffer
begin

text \<open>
  Lines in a buffer, for the text protocols: \<open>crlf_split\<close> cuts a byte list at its first CR LF, and
  \<open>findCRLF\<close> with \<open>retrieveUntil\<close> do the same to the readable bytes of a buffer. Also the
  character class the parsers use, the sequence of appends that prints an answer, and a buffer for concrete examples.
\<close>

text \<open>\<open>isspace\<close> in the C locale.\<close>

definition isspace :: "char \<Rightarrow> bool" where
  "isspace c \<longleftrightarrow> c = CHR '' '' \<or> (9 \<le> (of_char c :: nat) \<and> (of_char c :: nat) \<le> 13)"

definition crlf_split :: "string \<Rightarrow> (string \<times> string) option" where
  "crlf_split xs =
     (let i = std_search kCRLF xs in if i = length xs then None else Some (take i xs, drop (i + 2) xs))"

lemma length_kCRLF [simp]: "length kCRLF = 2"
  by (simp add: kCRLF_def)

lemma crlf_split_Some:
  assumes "crlf_split xs = Some (line, rest)"
  shows "xs = line @ kCRLF @ rest" and "length rest < length xs"
proof -
  have s: "std_search kCRLF xs < length xs" "line = take (std_search kCRLF xs) xs"
    "rest = drop (std_search kCRLF xs + 2) xs"
    using assms std_search_le [of kCRLF xs] by (auto simp: crlf_split_def Let_def split: if_splits)
  then show "length rest < length xs" by simp
  have "take 2 (drop (std_search kCRLF xs) xs) = kCRLF"
    using std_search_found [OF s(1)] by (simp add: range_of_def)
  then show "xs = line @ kCRLF @ rest"
    unfolding s(2,3) by (metis append_take_drop_id drop_drop add.commute)
qed

lemma crlf_split_append:
  assumes "crlf_split xs = Some (line, rest)"
  shows "crlf_split (xs @ d) = Some (line, rest @ d)"
proof -
  have l: "std_search kCRLF xs < length xs"
    using assms std_search_le [of kCRLF xs] by (auto simp: crlf_split_def Let_def split: if_splits)
  then have "std_search kCRLF xs + 2 \<le> length xs" using std_search_bound [OF l] by simp
  with assms l std_search_append [OF l] show ?thesis by (auto simp: crlf_split_def Let_def)
qed

lemma crlf_split_line: "CHR 0x0D \<notin> set line \<Longrightarrow> crlf_split (line @ kCRLF @ rest) = Some (line, rest)"
proof -
  assume "CHR 0x0D \<notin> set line"
  then have "std_search kCRLF (line @ kCRLF @ rest) = length line"
    by (induction line) (auto simp: kCRLF_def)
  then show ?thesis by (simp add: crlf_split_def kCRLF_def)
qed

lemma findCRLF_split:
  assumes "buf_inv b"
  shows "case crlf_split (content b) of
      None \<Rightarrow> findCRLF b = None
    | Some (line, rest) \<Rightarrow> \<exists>crlf b'. findCRLF b = Some crlf \<and> range_of (buffer b) (peek b) crlf = line \<and>
        peek b \<le> crlf \<and> length line = crlf - peek b \<and> retrieveUntil (crlf + 2) b = Inr b' \<and> buf_inv b' \<and> content b' = rest"
proof -
  let ?i = "std_search kCRLF (content b)"
  have f: "findCRLF b = (if ?i = length (content b) then None else Some (peek b + ?i))"
    using assms by (auto simp: findCRLF_def Let_def content_def [symmetric] peek_def beginWrite_def buf_inv_def
      readableBytes_def)
  show ?thesis
  proof (cases "?i = length (content b)")
    case False
    then have lt: "?i < length (content b)" using std_search_le [of kCRLF "content b"] by simp
    have i2: "?i + 2 \<le> readableBytes b"
      using std_search_bound [OF lt] assms by simp
    then have le: "peek b + ?i + 2 \<le> writerIndex b" using assms by (simp add: peek_def readableBytes_def buf_inv_def)
    have "range_of (buffer b) (peek b) (peek b + ?i) = take ?i (content b)" using i2 by (simp add: content_peek)
    moreover obtain b' where "retrieveUntil (peek b + ?i + 2) b = Inr b'" "buf_inv b'"
      "content b' = drop (?i + 2) (content b)"
      using retrieveUntil_ok [OF assms, of "peek b + ?i + 2"] le by (auto simp: peek_def)
    moreover have "min (length (content b)) ?i = ?i" using lt by simp
    ultimately show ?thesis using False f by (simp add: crlf_split_def Let_def)
  qed (simp add: f crlf_split_def)
qed

lemma append_strings:
  assumes "\<forall>d \<in> set ds. length d < 2147483648"
  shows "foldR append_string ds b = foldR (\<lambda>d. append_data d (length d)) ds b"
  using assms by (induction ds arbitrary: b) (auto simp: append_string_eq bindR_def split: sum.splits)

text \<open>A buffer that holds \<open>xs\<close> and nothing else, for the examples.\<close>

definition ex_buf :: "string \<Rightarrow> Buffer" where
  "ex_buf xs = \<lparr>buffer = xs, readerIndex = 0, writerIndex = length xs\<rparr>"

lemma ex_buf_ok: "8 \<le> length xs \<Longrightarrow> length xs < 1000 \<Longrightarrow> buf_inv (ex_buf xs)" "content (ex_buf xs) = xs"
  by (simp_all add: ex_buf_def buf_inv_def content_def range_of_def kCheapPrepend_def max_size_def)

end
