(* ===== verification/Http.thy ===== *)
theory Http
  imports Net_TcpConnection Net_Lines Base_Timestamp "HOL-Library.Char_ord" "HOL-Library.List_Lexorder"
begin

text \<open>
  The HTTP server of \<open>src/http\<close>: \<open>HttpRequest.h\<close>, \<open>HttpResponse.h\<close>, \<open>HttpResponse.cc\<close>,
  \<open>HttpContext.h\<close>, \<open>HttpContext.cc\<close> and \<open>HttpServer.cc\<close>. The parser works on a \<open>Buffer\<close>; a pointer into
  it is an index, and a pair of pointers that is passed to another function is the list of the
  characters between them, into which that function's pointers are indices. \<open>parseRequest\<close> is a loop that need not end, so it is a partial function, and \<open>None\<close> is a
  call that does not return. What a handler does to its connection is the list of the calls it
  makes. The header map of a request is only searched; that of a response is
  also traversed, so it is a list sorted by key.

  The lemmas relate the parser to one on byte lists, and show when it returns, that it does not
  depend on how the bytes of a request are split into reads, that it inverts printing, and two ways in which a
  connection goes wrong after its first request.
\<close>

section \<open>Requests\<close>

datatype Method = kInvalid | kGet | kPost | kHead | kPut | kDelete

datatype Version = kUnknown | kHttp10 | kHttp11

record HttpRequest =
  req_body :: string
  req_method :: Method
  req_version :: Version
  req_path :: string
  req_query :: string
  req_receiveTime :: Timestamp
  req_headers :: "string \<rightharpoonup> string"

definition HttpRequest_new :: HttpRequest where
  "HttpRequest_new = \<lparr>req_body = [], req_method = kInvalid, req_version = kUnknown, req_path = [], req_query = [],
     req_receiveTime = Timestamp_invalid, req_headers = Map.empty\<rparr>"

definition setVersion :: "Version \<Rightarrow> HttpRequest \<Rightarrow> HttpRequest" where
  "setVersion v r = r\<lparr>req_version := v\<rparr>"

definition setMethod :: "string \<Rightarrow> HttpRequest \<Rightarrow> (bool \<times> HttpRequest) res" where
  "setMethod m r =
     bindR (assertR (req_method r = kInvalid) ()) (\<lambda>_.
     let r = r\<lparr>req_method :=
           (if m = ''GET'' then kGet
            else if m = ''POST'' then kPost
            else if m = ''HEAD'' then kHead
            else if m = ''PUT'' then kPut
            else if m = ''DELETE'' then kDelete
            else kInvalid)\<rparr>
     in Inr (req_method r \<noteq> kInvalid, r))"

definition methodString :: "HttpRequest \<Rightarrow> string" where
  "methodString r = (case req_method r of
      kGet \<Rightarrow> ''GET''
    | kPost \<Rightarrow> ''POST''
    | kHead \<Rightarrow> ''HEAD''
    | kPut \<Rightarrow> ''PUT''
    | kDelete \<Rightarrow> ''DELETE''
    | kInvalid \<Rightarrow> ''UNKNOWN'')"

definition setPath :: "string \<Rightarrow> HttpRequest \<Rightarrow> HttpRequest" where
  "setPath x r = r\<lparr>req_path := x\<rparr>"

definition setQuery :: "string \<Rightarrow> HttpRequest \<Rightarrow> HttpRequest" where
  "setQuery x r = r\<lparr>req_query := x\<rparr>"

definition setReceiveTime :: "Timestamp \<Rightarrow> HttpRequest \<Rightarrow> HttpRequest" where
  "setReceiveTime t r = r\<lparr>req_receiveTime := t\<rparr>"

definition HttpRequest_setBody :: "string \<Rightarrow> HttpRequest \<Rightarrow> HttpRequest" where
  "HttpRequest_setBody x r = r\<lparr>req_body := x\<rparr>"

fun skip_space :: "char list \<Rightarrow> nat \<Rightarrow> nat \<Rightarrow> nat" where
  "skip_space m colon 0 = colon"
| "skip_space m colon (Suc n) = (if isspace (m ! colon) then skip_space m (Suc colon) n else colon)"

fun trim_end :: "string \<Rightarrow> string" where
  "trim_end value = (if value \<noteq> [] \<and> isspace (last value) then trim_end (butlast value) else value)"

declare trim_end.simps [simp del]

definition HttpRequest_addHeader :: "string \<Rightarrow> nat \<Rightarrow> HttpRequest \<Rightarrow> HttpRequest" where
  "HttpRequest_addHeader line colon r =
     (let endp = length line;
          field = range_of line 0 colon;
          colon = colon + 1;
          colon = skip_space line colon (endp - colon);
          value = trim_end (range_of line colon endp)
      in r\<lparr>req_headers := (req_headers r)(field \<mapsto> value)\<rparr>)"

definition getHeader :: "string \<Rightarrow> HttpRequest \<Rightarrow> string" where
  "getHeader field r = (case req_headers r field of None \<Rightarrow> [] | Some value \<Rightarrow> value)"

definition HttpRequest_swap :: "HttpRequest \<Rightarrow> HttpRequest \<Rightarrow> HttpRequest \<times> HttpRequest" where
  "HttpRequest_swap this that =
     (this\<lparr>req_method := req_method that, req_version := req_version that, req_path := req_path that,
           req_query := req_query that, req_receiveTime := req_receiveTime that, req_headers := req_headers that\<rparr>,
      that\<lparr>req_method := req_method this, req_version := req_version this, req_path := req_path this,
           req_query := req_query this, req_receiveTime := req_receiveTime this, req_headers := req_headers this\<rparr>)"

section \<open>Parsing\<close>

datatype HttpRequestParseState = kExpectRequestLine | kExpectHeaders | kExpectBody | kGotAll

record HttpContext =
  ctx_state :: HttpRequestParseState
  ctx_request :: HttpRequest

definition HttpContext_new :: HttpContext where
  "HttpContext_new = \<lparr>ctx_state = kExpectRequestLine, ctx_request = HttpRequest_new\<rparr>"

definition gotAll :: "HttpContext \<Rightarrow> bool" where
  "gotAll c \<longleftrightarrow> ctx_state c = kGotAll"

definition HttpContext_reset :: "HttpContext \<Rightarrow> HttpContext" where
  "HttpContext_reset c =
     \<lparr>ctx_state = kExpectRequestLine, ctx_request = fst (HttpRequest_swap (ctx_request c) HttpRequest_new)\<rparr>"

definition find_in :: "char list \<Rightarrow> nat \<Rightarrow> nat \<Rightarrow> char \<Rightarrow> nat" where
  "find_in m start endp c = start + std_find c (range_of m start endp)"

definition processRequestLine :: "string \<Rightarrow> HttpRequest \<Rightarrow> (bool \<times> HttpRequest) res" where
  "processRequestLine m r =
     (let start = 0; endp = length m; space = find_in m start endp (CHR '' '')
      in if space = endp then Inr (False, r)
         else bindR (setMethod (range_of m start space) r) (\<lambda>(ok, r).
              if \<not> ok then Inr (False, r)
              else
                let start = space + 1; space = find_in m start endp (CHR '' '')
                in if space = endp then Inr (False, r)
                   else
                     let question = find_in m start space (CHR ''?'');
                         r = (if question \<noteq> space
                              then setQuery (range_of m question space) (setPath (range_of m start question) r)
                              else setPath (range_of m start space) r);
                         start = space + 1
                     in if endp - start = 8 \<and> range_of m start (endp - 1) = ''HTTP/1.'' then
                          if m ! (endp - 1) = CHR ''1'' then Inr (True, setVersion kHttp11 r)
                          else if m ! (endp - 1) = CHR ''0'' then Inr (True, setVersion kHttp10 r)
                          else Inr (False, r)
                        else Inr (False, r)))"

text \<open>The loop of \<open>parseRequest\<close>; its variable \<open>ok\<close> is true whenever the loop goes on.\<close>

partial_function (option) parse_loop ::
  "Timestamp \<Rightarrow> HttpContext \<Rightarrow> Buffer \<Rightarrow> (bool \<times> HttpContext \<times> Buffer) res option" where
  "parse_loop receiveTime c buf =
     (case ctx_state c of
        kExpectRequestLine \<Rightarrow>
          (case findCRLF buf of
             Some crlf \<Rightarrow>
               (case processRequestLine (range_of (buffer buf) (peek buf) crlf) (ctx_request c) of
                  Inl e \<Rightarrow> Some (Inl e)
                | Inr (ok, r) \<Rightarrow>
                    if ok then
                      (case retrieveUntil (crlf + 2) buf of
                         Inl e \<Rightarrow> Some (Inl e)
                       | Inr buf \<Rightarrow>
                           parse_loop receiveTime
                             (c\<lparr>ctx_request := setReceiveTime receiveTime r, ctx_state := kExpectHeaders\<rparr>) buf)
                    else Some (Inr (False, c\<lparr>ctx_request := r\<rparr>, buf)))
           | None \<Rightarrow> Some (Inr (True, c, buf)))
      | kExpectHeaders \<Rightarrow>
          (case findCRLF buf of
             Some crlf \<Rightarrow>
               (let colon = find_in (buffer buf) (peek buf) crlf (CHR '':'');
                    c = (if colon \<noteq> crlf
                         then c\<lparr>ctx_request := HttpRequest_addHeader (range_of (buffer buf) (peek buf) crlf)
                                                 (colon - peek buf) (ctx_request c)\<rparr>
                         else c\<lparr>ctx_state := kExpectBody\<rparr>)
                in case retrieveUntil (crlf + 2) buf of
                     Inl e \<Rightarrow> Some (Inl e)
                   | Inr buf \<Rightarrow> parse_loop receiveTime c buf)
           | None \<Rightarrow> Some (Inr (True, c, buf)))
      | kExpectBody \<Rightarrow>
          (let r = (if readableBytes buf > 0
                    then HttpRequest_setBody (range_of (buffer buf) (peek buf) (beginWrite buf)) (ctx_request c)
                    else ctx_request c)
           in Some (Inr (True, c\<lparr>ctx_request := r, ctx_state := kGotAll\<rparr>, buf)))
      | kGotAll \<Rightarrow> parse_loop receiveTime c buf)"

definition parseRequest ::
  "Timestamp \<Rightarrow> HttpContext \<Rightarrow> Buffer \<Rightarrow> (bool \<times> HttpContext \<times> Buffer) res option" where
  "parseRequest receiveTime c buf = parse_loop receiveTime c buf"

section \<open>Responses\<close>

text \<open>A status code is its number; \<open>kUnknown\<close> is 0.\<close>

record HttpResponse =
  resp_body :: string
  resp_headers :: "(string \<times> string) list"
  resp_statusCode :: int
  resp_statusMessage :: string
  resp_closeConnection :: bool

definition HttpResponse_new :: "bool \<Rightarrow> HttpResponse" where
  "HttpResponse_new close = \<lparr>resp_body = [], resp_headers = [], resp_statusCode = 0, resp_statusMessage = [],
     resp_closeConnection = close\<rparr>"

definition setStatusCode :: "int \<Rightarrow> HttpResponse \<Rightarrow> HttpResponse" where
  "setStatusCode code r = r\<lparr>resp_statusCode := code\<rparr>"

definition setStatusMessage :: "string \<Rightarrow> HttpResponse \<Rightarrow> HttpResponse" where
  "setStatusMessage message r = r\<lparr>resp_statusMessage := message\<rparr>"

definition setCloseConnection :: "bool \<Rightarrow> HttpResponse \<Rightarrow> HttpResponse" where
  "setCloseConnection on r = r\<lparr>resp_closeConnection := on\<rparr>"

fun map_insert :: "'k::linorder \<Rightarrow> 'v \<Rightarrow> ('k \<times> 'v) list \<Rightarrow> ('k \<times> 'v) list" where
  "map_insert k v [] = [(k, v)]"
| "map_insert k v ((k', v') # xs) =
     (if k = k' then (k, v) # xs else if k < k' then (k, v) # (k', v') # xs else (k', v') # map_insert k v xs)"

definition HttpResponse_addHeader :: "string \<Rightarrow> string \<Rightarrow> HttpResponse \<Rightarrow> HttpResponse" where
  "HttpResponse_addHeader key value r = r\<lparr>resp_headers := map_insert key value (resp_headers r)\<rparr>"

definition setContentType :: "string \<Rightarrow> HttpResponse \<Rightarrow> HttpResponse" where
  "setContentType contentType r = HttpResponse_addHeader ''Content-Type'' contentType r"

definition HttpResponse_setBody :: "string \<Rightarrow> HttpResponse \<Rightarrow> HttpResponse" where
  "HttpResponse_setBody x r = r\<lparr>resp_body := x\<rparr>"

definition appendToBuffer :: "HttpResponse \<Rightarrow> Buffer \<Rightarrow> Buffer res" where
  "appendToBuffer r output =
     bindR (append_string (take 31 (''HTTP/1.1 '' @ int_digits (resp_statusCode r) @ '' '')) output) (\<lambda>output.
     bindR (append_string (resp_statusMessage r) output) (\<lambda>output.
     bindR (append_string kCRLF output) (\<lambda>output.
     bindR (if resp_closeConnection r then append_string (''Connection: close'' @ kCRLF) output
            else
              bindR (append_string (take 31 (''Content-Length: '' @ nat_digits (length (resp_body r)) @ kCRLF)) output)
                (append_string (''Connection: Keep-Alive'' @ kCRLF))) (\<lambda>output.
     bindR (foldR (\<lambda>header output.
              bindR (append_string (fst header) output) (\<lambda>output.
              bindR (append_string '': '' output) (\<lambda>output.
              bindR (append_string (snd header) output) (append_string kCRLF)))) (resp_headers r) output) (\<lambda>output.
     bindR (append_string kCRLF output) (append_string (resp_body r)))))))"

section \<open>The server\<close>

definition defaultHttpCallback :: "HttpRequest \<Rightarrow> HttpResponse \<Rightarrow> HttpResponse" where
  "defaultHttpCallback req resp =
     setCloseConnection True (setStatusMessage ''Not Found'' (setStatusCode 404 resp))"

definition HttpServer_onConnection :: "bool \<Rightarrow> HttpContext option \<Rightarrow> HttpContext option" where
  "HttpServer_onConnection conn_connected context = (if conn_connected then Some HttpContext_new else context)"

definition HttpServer_onRequest ::
  "(HttpRequest \<Rightarrow> HttpResponse \<Rightarrow> HttpResponse) \<Rightarrow> HttpRequest \<Rightarrow> api list res" where
  "HttpServer_onRequest httpCallback req =
     (let connection = getHeader ''Connection'' req;
          close = (connection = ''close'' \<or> req_version req = kHttp10 \<and> connection \<noteq> ''Keep-Alive'');
          response = httpCallback req (HttpResponse_new close)
      in bindR (Buffer_new kInitialSize) (\<lambda>buf.
         bindR (appendToBuffer response buf) (\<lambda>buf.
         Inr (ApiSend (content buf) # (if resp_closeConnection response then [ApiShutdown] else [])))))"

definition HttpServer_onMessage ::
  "(HttpRequest \<Rightarrow> HttpResponse \<Rightarrow> HttpResponse) \<Rightarrow> Timestamp \<Rightarrow> HttpContext \<Rightarrow> Buffer \<Rightarrow>
   (api list \<times> HttpContext \<times> Buffer) res option" where
  "HttpServer_onMessage httpCallback receiveTime context buf =
     (case parseRequest receiveTime context buf of
        None \<Rightarrow> None
      | Some (Inl e) \<Rightarrow> Some (Inl e)
      | Some (Inr (ok, context, buf)) \<Rightarrow>
          let bad = (if \<not> ok then [ApiSend (''HTTP/1.1 400 Bad Request'' @ kCRLF @ kCRLF), ApiShutdown] else [])
          in Some (if gotAll context then
                     bindR (HttpServer_onRequest httpCallback (ctx_request context)) (\<lambda>calls.
                     Inr (bad @ calls, HttpContext_reset context, buf))
                   else Inr (bad, context, buf)))"

section \<open>The parser on byte lists\<close>

definition header_step :: "string \<Rightarrow> HttpContext \<Rightarrow> HttpContext" where
  "header_step line c =
     (let colon = std_find (CHR '':'') line
      in if colon \<noteq> length line then c\<lparr>ctx_request := HttpRequest_addHeader line colon (ctx_request c)\<rparr>
         else c\<lparr>ctx_state := kExpectBody\<rparr>)"

function parse_list :: "Timestamp \<Rightarrow> HttpContext \<Rightarrow> string \<Rightarrow> (bool \<times> HttpContext \<times> string) res" where
  "parse_list t c xs =
     (case ctx_state c of
        kExpectRequestLine \<Rightarrow>
          (case crlf_split xs of
             None \<Rightarrow> Inr (True, c, xs)
           | Some (line, rest) \<Rightarrow>
               (case processRequestLine line (ctx_request c) of
                  Inl e \<Rightarrow> Inl e
                | Inr (ok, r) \<Rightarrow>
                    if ok then parse_list t (c\<lparr>ctx_request := setReceiveTime t r, ctx_state := kExpectHeaders\<rparr>) rest
                    else Inr (False, c\<lparr>ctx_request := r\<rparr>, xs)))
      | kExpectHeaders \<Rightarrow>
          (case crlf_split xs of
             None \<Rightarrow> Inr (True, c, xs)
           | Some (line, rest) \<Rightarrow> parse_list t (header_step line c) rest)
      | kExpectBody \<Rightarrow>
          Inr (True, c\<lparr>ctx_request := (if xs \<noteq> [] then HttpRequest_setBody xs (ctx_request c) else ctx_request c),
                      ctx_state := kGotAll\<rparr>, xs)
      | kGotAll \<Rightarrow> Inr (True, c, xs))"
  by pat_completeness auto
termination
  by (relation "measure (\<lambda>(t, c, xs). length xs)") (auto dest: crlf_split_Some(2))

declare parse_list.simps [simp del]

text \<open>The parser on a buffer is the one on its readable bytes.\<close>

lemma header_step_state: "ctx_state c = kExpectHeaders \<Longrightarrow> ctx_state (header_step line c) \<noteq> kGotAll"
  by (simp add: header_step_def Let_def)

lemma parse_loop_list:
  assumes "buf_inv b" and "ctx_state c \<noteq> kGotAll"
  shows "case parse_list t c (content b) of
      Inl e \<Rightarrow> parse_loop t c b = Some (Inl e)
    | Inr (ok, c', ys) \<Rightarrow> \<exists>b'. parse_loop t c b = Some (Inr (ok, c', b')) \<and> buf_inv b' \<and> content b' = ys"
  using assms
proof (induction t c "content b" arbitrary: b rule: parse_list.induct)
  case (1 t c)
  note split = findCRLF_split [OF "1.prems"(1)] and IH1 = "1.hyps"(1) and IH2 = "1.hyps"(2)
  consider "ctx_state c = kExpectRequestLine" | "ctx_state c = kExpectHeaders" | "ctx_state c = kExpectBody"
    using "1.prems"(2) by (cases "ctx_state c") auto
  then show ?case
  proof cases
    case 1
    show ?thesis
    proof (cases "crlf_split (content b)")
      case None
      then show ?thesis using 1 split "1.prems" by (simp add: parse_list.simps [of t c] parse_loop.simps [of t c])
    next
      case (Some lr)
      obtain line rest where lr: "crlf_split (content b) = Some (line, rest)" using Some by (cases lr) simp
      obtain crlf b' where b': "findCRLF b = Some crlf" "range_of (buffer b) (peek b) crlf = line"
        "retrieveUntil (crlf + 2) b = Inr b'" "buf_inv b'" "content b' = rest"
        using split lr by auto
      show ?thesis
      proof (cases "processRequestLine line (ctx_request c)")
        case (Inl e)
        then show ?thesis using 1 lr b' by (simp add: parse_list.simps [of t c] parse_loop.simps [of t c])
      next
        case (Inr okr)
        obtain ok r where okr: "processRequestLine line (ctx_request c) = Inr (ok, r)" using Inr by (cases okr) simp
        show ?thesis
        proof (cases ok)
          case True
          have e: "okr = (ok, r)" "lr = (line, rest)" using okr Inr lr Some by simp_all
          let ?c = "c\<lparr>ctx_request := setReceiveTime t r, ctx_state := kExpectHeaders\<rparr>"
          have "case parse_list t ?c (content b') of
              Inl e \<Rightarrow> parse_loop t ?c b' = Some (Inl e)
            | Inr (ok, c', ys) \<Rightarrow> \<exists>b''. parse_loop t ?c b' = Some (Inr (ok, c', b'')) \<and> buf_inv b'' \<and> content b'' = ys"
            by (rule IH1 [OF 1 Some _ _ _ True b'(4)]) (use e b'(5) okr in simp_all)
          moreover have pl: "parse_loop t c b = parse_loop t ?c b'"
            using b' 1 okr True by (simp add: parse_loop.simps [of t c b])
          moreover have pp: "parse_list t c (content b) = parse_list t ?c (content b')"
            using b' 1 lr okr True by (simp add: parse_list.simps [of t c])
          ultimately show ?thesis unfolding pl pp by simp
        next
          case False
          then show ?thesis using 1 lr b' okr "1.prems" by (simp add: parse_list.simps [of t c] parse_loop.simps [of t c])
        qed
      qed
    qed
  next
    case 2
    show ?thesis
    proof (cases "crlf_split (content b)")
      case None
      then show ?thesis using 2 split "1.prems" by (simp add: parse_list.simps [of t c] parse_loop.simps [of t c])
    next
      case (Some lr)
      obtain line rest where lr: "crlf_split (content b) = Some (line, rest)" using Some by (cases lr) simp
      obtain crlf b' where b': "findCRLF b = Some crlf" "range_of (buffer b) (peek b) crlf = line" "peek b \<le> crlf"
        "retrieveUntil (crlf + 2) b = Inr b'" "buf_inv b'" "content b' = rest" "length line = crlf - peek b"
        using split lr by auto
      have e: "lr = (line, rest)" using lr Some by simp
      have h: "(if find_in (buffer b) (peek b) crlf (CHR '':'') \<noteq> crlf
            then c\<lparr>ctx_request := HttpRequest_addHeader line (find_in (buffer b) (peek b) crlf (CHR '':'') - peek b) (ctx_request c)\<rparr>
            else c\<lparr>ctx_state := kExpectBody\<rparr>) = header_step line c"
        using b'(2,3,7) by (auto simp: header_step_def find_in_def Let_def)
      have "case parse_list t (header_step line c) (content b') of
          Inl e \<Rightarrow> parse_loop t (header_step line c) b' = Some (Inl e)
        | Inr (ok, c', ys) \<Rightarrow> \<exists>b''. parse_loop t (header_step line c) b' = Some (Inr (ok, c', b'')) \<and>
            buf_inv b'' \<and> content b'' = ys"
        by (rule IH2 [OF 2 Some _ b'(5) header_step_state [OF 2]]) (use e b'(6) in simp)
      moreover have pl: "parse_loop t c b = parse_loop t (header_step line c) b'"
        using b' 2 by (simp add: parse_loop.simps [of t c b] Let_def h [folded b'(2)] split del: if_split)
      moreover have pp: "parse_list t c (content b) = parse_list t (header_step line c) (content b')"
        using b' 2 lr by (simp add: parse_list.simps [of t c])
      ultimately show ?thesis unfolding pl pp by simp
    qed
  next
    case 3
    have "content b \<noteq> [] \<longleftrightarrow> readableBytes b > 0" using length_content [OF "1.prems"(1)] by (metis length_greater_0_conv)
    then show ?thesis using 3 "1.prems"
      by (simp add: parse_list.simps [of t c] parse_loop.simps [of t c] content_def peek_def beginWrite_def)
  qed
qed

section \<open>Returning\<close>

lemma parse_loop_gotAll:
  assumes "ctx_state c = kGotAll"
  shows "parse_loop t c b = None"
proof (rule ccontr)
  assume "parse_loop t c b \<noteq> None"
  then obtain y where y: "parse_loop t c b = Some y" by blast
  have "ctx_state c \<noteq> kGotAll"
    by (rule parse_loop.raw_induct [where P = "\<lambda>t c b y. ctx_state c \<noteq> kGotAll", OF _ y])
      (auto split: HttpRequestParseState.splits)
  with assms show False by simp
qed

text \<open>A context that expects a request line has not seen the method yet.\<close>

definition ctx_ok :: "HttpContext \<Rightarrow> bool" where
  "ctx_ok c \<longleftrightarrow> (ctx_state c = kExpectRequestLine \<longrightarrow> req_method (ctx_request c) = kInvalid)"

lemma processRequestLine_ok:
  "req_method r = kInvalid \<Longrightarrow> \<exists>ok r'. processRequestLine line r = Inr (ok, r')"
  by (auto simp: processRequestLine_def setMethod_def Let_def)

lemma parse_list_ok:
  "ctx_ok c \<Longrightarrow> \<exists>ok c' ys zs. parse_list t c xs = Inr (ok, c', ys) \<and> xs = zs @ ys"
proof (induction t c xs rule: parse_list.induct)
  case (1 t c xs)
  note IH = "1.IH"
  consider "ctx_state c = kExpectRequestLine" | "ctx_state c = kExpectHeaders"
    | "ctx_state c = kExpectBody" | "ctx_state c = kGotAll"
    by (cases "ctx_state c") auto
  then show ?case
  proof cases
    case 1
    obtain ok r where r: "processRequestLine line (ctx_request c) = Inr (ok line, r line)" for line
      using processRequestLine_ok [of "ctx_request c"] "1.prems" 1 unfolding ctx_ok_def by metis
    show ?thesis
    proof (cases "crlf_split xs")
      case (Some lr)
      obtain line rest where lr: "lr = (line, rest)" by (cases lr)
      note x = crlf_split_Some(1) [OF Some [unfolded lr]]
      have "ok line \<Longrightarrow> \<exists>o' c' ys zs. parse_list t (c\<lparr>ctx_request := setReceiveTime t (r line),
          ctx_state := kExpectHeaders\<rparr>) rest = Inr (o', c', ys) \<and> rest = zs @ ys"
        using IH(1) [OF 1 Some lr [symmetric] r refl] by (simp add: ctx_ok_def)
      with 1 Some lr r x show ?thesis
        by (cases "ok line") (auto simp: parse_list.simps [of t c] intro!: exI [of _ "line @ kCRLF @ zs" for zs])
    qed (use 1 in \<open>auto simp: parse_list.simps [of t c]\<close>)
  next
    case 2
    show ?thesis
    proof (cases "crlf_split xs")
      case (Some lr)
      obtain line rest where lr: "lr = (line, rest)" by (cases lr)
      note x = crlf_split_Some(1) [OF Some [unfolded lr]]
      have "ctx_ok (header_step line c)" using 2 by (simp add: ctx_ok_def header_step_def Let_def)
      from IH(2) [OF 2 Some lr [symmetric] this] 2 Some lr x show ?thesis
        by (auto simp: parse_list.simps [of t c] intro!: exI [of _ "line @ kCRLF @ zs" for zs])
    qed (use 2 in \<open>auto simp: parse_list.simps [of t c]\<close>)
  qed (auto simp: parse_list.simps [of t c])
qed

section \<open>Reads\<close>

lemma parse_list_append:
  "parse_list t c xs = Inr (True, c1, ys) \<Longrightarrow> ctx_state c1 \<noteq> kGotAll \<Longrightarrow>
   parse_list t c1 (ys @ d) = parse_list t c (xs @ d)"
proof (induction t c xs rule: parse_list.induct)
  case (1 t c xs)
  note IH = "1.IH" and prems = "1.prems"
  consider "ctx_state c = kExpectRequestLine" | "ctx_state c = kExpectHeaders"
    | "ctx_state c = kExpectBody" | "ctx_state c = kGotAll"
    by (cases "ctx_state c") auto
  then show ?case
  proof cases
    case 1
    show ?thesis
    proof (cases "crlf_split xs")
      case (Some lr)
      obtain line rest where lr: "lr = (line, rest)" by (cases lr)
      note a = crlf_split_append [OF Some [unfolded lr], of d]
      obtain r where r: "processRequestLine line (ctx_request c) = Inr (True, r)"
        using prems(1) 1 Some lr by (auto simp: parse_list.simps [of t c] split: sum.splits if_splits)
      let ?c = "c\<lparr>ctx_request := setReceiveTime t r, ctx_state := kExpectHeaders\<rparr>"
      have "parse_list t ?c rest = Inr (True, c1, ys)" using prems(1) 1 Some lr r by (simp add: parse_list.simps [of t c])
      from IH(1) [OF 1 Some lr [symmetric] r refl TrueI this prems(2)] show ?thesis
        using 1 a r by (simp add: parse_list.simps [of t c])
    qed (use 1 prems in \<open>simp add: parse_list.simps [of t c xs]\<close>)
  next
    case 2
    show ?thesis
    proof (cases "crlf_split xs")
      case (Some lr)
      obtain line rest where lr: "lr = (line, rest)" by (cases lr)
      note a = crlf_split_append [OF Some [unfolded lr], of d]
      have "parse_list t (header_step line c) rest = Inr (True, c1, ys)"
        using prems(1) 2 Some lr by (simp add: parse_list.simps [of t c])
      from IH(2) [OF 2 Some lr [symmetric] this prems(2)] show ?thesis
        using 2 a by (simp add: parse_list.simps [of t c])
    qed (use 2 prems in \<open>simp add: parse_list.simps [of t c xs]\<close>)
  qed (use prems in \<open>auto simp: parse_list.simps [of t c xs]\<close>)
qed

section \<open>Printing\<close>

definition version_text :: "Version \<Rightarrow> string" where
  "version_text v = (case v of kHttp10 \<Rightarrow> ''HTTP/1.0'' | kHttp11 \<Rightarrow> ''HTTP/1.1'' | kUnknown \<Rightarrow> [])"

definition request_line :: "HttpRequest \<Rightarrow> string" where
  "request_line r = methodString r @ '' '' @ req_path r @ req_query r @ '' '' @ version_text (req_version r)"

definition header_line :: "string \<times> string \<Rightarrow> string" where
  "header_line kv = fst kv @ '': '' @ snd kv"

definition request_text :: "HttpRequest \<Rightarrow> (string \<times> string) list \<Rightarrow> string" where
  "request_text r hs =
     request_line r @ kCRLF @ concat (map (\<lambda>kv. header_line kv @ kCRLF) hs) @ kCRLF @ req_body r"

text \<open>
  What can be printed: a method and a version are set, the path has no space and no question
  mark, the query is empty or starts with a question mark and has no space, field names have no
  colon, values neither start nor end with white space, and no line contains a carriage return.
\<close>

definition header_ok :: "string \<times> string \<Rightarrow> bool" where
  "header_ok kv \<longleftrightarrow> CHR '':'' \<notin> set (fst kv) \<and> CHR 0x0D \<notin> set (fst kv) \<and> CHR 0x0D \<notin> set (snd kv) \<and>
     (snd kv \<noteq> [] \<longrightarrow> \<not> isspace (hd (snd kv)) \<and> \<not> isspace (last (snd kv)))"

definition request_ok :: "HttpRequest \<Rightarrow> (string \<times> string) list \<Rightarrow> bool" where
  "request_ok r hs \<longleftrightarrow> req_method r \<noteq> kInvalid \<and> req_version r \<noteq> kUnknown \<and>
     CHR '' '' \<notin> set (req_path r) \<and> CHR ''?'' \<notin> set (req_path r) \<and> CHR 0x0D \<notin> set (req_path r) \<and>
     (req_query r \<noteq> [] \<longrightarrow> hd (req_query r) = CHR ''?'') \<and> CHR '' '' \<notin> set (req_query r) \<and>
     CHR 0x0D \<notin> set (req_query r) \<and> list_all header_ok hs \<and> req_headers r = map_of (rev hs)"

lemma range_of_mid [simp]:
  "range_of (xs @ ys) 0 (length xs) = xs"
  "n = length xs + length ys \<Longrightarrow> range_of (xs @ ys @ zs) (length xs) n = ys"
  by (simp_all add: range_of_def)

lemma processRequestLine_text:
  assumes "request_ok r hs" and "req_method r0 = kInvalid"
  shows "processRequestLine (request_line r) r0 =
    Inr (True, r0\<lparr>req_method := req_method r, req_path := req_path r,
      req_query := (if req_query r \<noteq> [] then req_query r else req_query r0), req_version := req_version r\<rparr>)"
proof -
  define M where "M = methodString r"
  define V where "V = version_text (req_version r)"
  define P where "P = req_path r"
  define Q where "Q = req_query r"
  define L where "L = M @ '' '' @ P @ Q @ '' '' @ V"
  have line: "request_line r = L" by (simp add: request_line_def L_def M_def P_def Q_def V_def)
  have m: "setMethod M r0 = Inr (True, r0\<lparr>req_method := req_method r\<rparr>)" "CHR '' '' \<notin> set M"
    using assms by (cases "req_method r"; simp add: M_def methodString_def setMethod_def Let_def request_ok_def)+
  have v: "length V = 8" "take 7 V = ''HTTP/1.''"
    "if V ! 7 = CHR ''1'' then req_version r = kHttp11 else V ! 7 = CHR ''0'' \<and> req_version r = kHttp10"
    using assms(1) by (cases "req_version r"; simp add: V_def version_text_def request_ok_def)+
  let ?a = "length M" and ?b = "length M + 1 + length (P @ Q)"
  have n: "length L = ?b + 9" by (simp add: L_def v(1))
  have s1: "find_in L 0 (length L) (CHR '' '') = ?a"
    using std_find_append [OF m(2), of "P @ Q @ '' '' @ V"] by (simp add: find_in_def L_def range_of_def)
  have r1: "range_of L 0 ?a = M" by (simp add: L_def)
  have pq: "CHR '' '' \<notin> set (P @ Q)" using assms(1) by (simp add: request_ok_def P_def Q_def)
  have r2: "range_of L (?a + 1) (length L) = (P @ Q) @ CHR '' '' # V" by (simp add: range_of_def L_def)
  have s2: "find_in L (?a + 1) (length L) (CHR '' '') = ?b"
    unfolding find_in_def r2 std_find_append [OF pq] by simp
  have r3: "range_of L (?a + 1) ?b = P @ Q" by (simp add: range_of_def L_def)
  have qm: "CHR ''?'' \<notin> set P" "Q = [] \<or> (\<exists>q. Q = CHR ''?'' # q)"
    using assms(1) by (simp_all add: request_ok_def P_def Q_def) (cases "req_query r"; simp)
  have s3: "find_in L (?a + 1) ?b (CHR ''?'') = ?a + 1 + length P"
    unfolding find_in_def r3 using qm std_find_append [OF qm(1)] std_find_eq_length [of "CHR ''?''" P] by auto
  have r4: "range_of L (?a + 1) (?a + 1 + length P) = P" "range_of L (?a + 1 + length P) ?b = Q"
    by (simp_all add: range_of_def L_def)
  have r5: "length L - (?b + 1) = 8" "range_of L (?b + 1) (length L - 1) = ''HTTP/1.''" "L ! (length L - 1) = V ! 7"
    using v(1,2) by (simp_all add: n range_of_def L_def nth_append)
  show ?thesis
    unfolding line processRequestLine_def Let_def s1 r1 m(1) bindR_simps prod.case s2 s3 r4 r5 r3
    using v(3) n by (auto simp: setQuery_def setPath_def setVersion_def P_def Q_def split: if_splits)
qed

lemma addHeader_text:
  assumes "header_ok kv"
  shows "header_step (header_line kv) c = c\<lparr>ctx_request := (ctx_request c)
    \<lparr>req_headers := (req_headers (ctx_request c))(fst kv \<mapsto> snd kv)\<rparr>\<rparr>"
proof -
  obtain k v where kv: "kv = (k, v)" by (cases kv)
  have f: "std_find (CHR '':'') (k @ '': '' @ v) = length k"
    using std_find_append [of "CHR '':''" k] assms kv by (simp add: header_ok_def)
  have "skip_space (k @ '': '' @ v) (Suc (length k)) (Suc (length v)) = Suc (Suc (length k))"
    using assms kv by (cases v) (simp_all add: nth_append isspace_def [of "CHR '' ''"] header_ok_def)
  moreover have "range_of (k @ '': '' @ v) (Suc (Suc (length k))) (length (k @ '': '' @ v)) = v"
    by (simp add: range_of_def)
  moreover have "trim_end v = v" using assms kv by (subst trim_end.simps) (auto simp: header_ok_def)
  moreover have "range_of (k @ '': '' @ v) 0 (length k) = k" by (simp add: range_of_def)
  ultimately show ?thesis
    using f by (simp add: kv header_step_def header_line_def HttpRequest_addHeader_def Let_def)
qed

lemma parse_headers:
  assumes "list_all header_ok hs" and "ctx_state c = kExpectHeaders"
  shows "parse_list t c (concat (map (\<lambda>kv. header_line kv @ kCRLF) hs) @ kCRLF @ bod) =
    Inr (True, \<lparr>ctx_state = kGotAll, ctx_request = (ctx_request c)
      \<lparr>req_headers := req_headers (ctx_request c) ++ map_of (rev hs),
       req_body := (if bod \<noteq> [] then bod else req_body (ctx_request c))\<rparr>\<rparr>, bod)"
  using assms
proof (induction hs arbitrary: c)
  case Nil
  have "crlf_split (kCRLF @ bod) = Some ([], bod)" using crlf_split_line [of "[]" bod] by simp
  with Nil show ?case
    by (simp add: parse_list.simps [of t c] header_step_def parse_list.simps [of t "c\<lparr>ctx_state := kExpectBody\<rparr>"]
      HttpRequest_setBody_def)
next
  case (Cons kv hs)
  let ?rest = "concat (map (\<lambda>kv. header_line kv @ kCRLF) hs) @ kCRLF @ bod"
  have h: "header_ok kv" "list_all header_ok hs" using Cons.prems(1) by simp_all
  then have "CHR 0x0D \<notin> set (header_line kv)" by (simp add: header_ok_def header_line_def)
  then have "crlf_split (header_line kv @ kCRLF @ ?rest) = Some (header_line kv, ?rest)" by (rule crlf_split_line)
  then have "parse_list t c (concat (map (\<lambda>kv. header_line kv @ kCRLF) (kv # hs)) @ kCRLF @ bod) =
      parse_list t (header_step (header_line kv) c) ?rest"
    using Cons.prems(2) by (simp add: parse_list.simps [of t c])
  moreover have "ctx_state (header_step (header_line kv) c) = kExpectHeaders"
    using Cons.prems(2) by (simp add: addHeader_text [OF h(1)])
  ultimately show ?case
    using Cons.IH [OF h(2), of "header_step (header_line kv) c"]
    by (simp add: addHeader_text [OF h(1)] del: fun_upd_apply)
qed

lemma parse_text:
  assumes "request_ok r hs" and "ctx_state c = kExpectRequestLine" and "req_method (ctx_request c) = kInvalid"
    and "req_headers (ctx_request c) = Map.empty" and "req_query (ctx_request c) = []"
  shows "parse_list t c (request_text r hs) =
    Inr (True, \<lparr>ctx_state = kGotAll, ctx_request = r\<lparr>req_receiveTime := t,
      req_body := (if req_body r \<noteq> [] then req_body r else req_body (ctx_request c))\<rparr>\<rparr>, req_body r)"
proof -
  let ?rest = "concat (map (\<lambda>kv. header_line kv @ kCRLF) hs) @ kCRLF @ req_body r"
  have "CHR 0x0D \<notin> set (request_line r)"
    using assms(1) by (auto simp: request_ok_def request_line_def methodString_def version_text_def
      split: Method.splits Version.splits)
  then have "crlf_split (request_text r hs) = Some (request_line r, ?rest)"
    unfolding request_text_def by (rule crlf_split_line)
  moreover have "list_all header_ok hs" "req_headers r = map_of (rev hs)" using assms(1) by (simp_all add: request_ok_def)
  ultimately show ?thesis
    using assms(2-5) processRequestLine_text [OF assms(1,3)]
    by (simp add: parse_list.simps [of t c] parse_headers setReceiveTime_def)
qed

definition response_chunks :: "HttpResponse \<Rightarrow> string list" where
  "response_chunks r =
     [take 31 (''HTTP/1.1 '' @ int_digits (resp_statusCode r) @ '' ''), resp_statusMessage r, kCRLF] @
     (if resp_closeConnection r then [''Connection: close'' @ kCRLF]
      else [take 31 (''Content-Length: '' @ nat_digits (length (resp_body r)) @ kCRLF), ''Connection: Keep-Alive'' @ kCRLF]) @
     concat (map (\<lambda>(k, v). [k, '': '', v, kCRLF]) (resp_headers r)) @ [kCRLF, resp_body r]"

definition response_text :: "HttpResponse \<Rightarrow> string" where
  "response_text r = concat (response_chunks r)"

lemma append_headers:
  "foldR (\<lambda>header output.
      bindR (append_string (fst header) output) (\<lambda>output.
      bindR (append_string '': '' output) (\<lambda>output.
      bindR (append_string (snd header) output) (append_string kCRLF)))) hs =
   foldR append_string (concat (map (\<lambda>(k, v). [k, '': '', v, kCRLF]) hs))"
  by (induction hs) (auto simp: foldR_fun bindR_assoc case_prod_beta' simp del: foldR.simps)

lemma appendToBuffer_chunks: "appendToBuffer r b = foldR append_string (response_chunks r) b"
  unfolding appendToBuffer_def response_chunks_def append_headers
  by (simp add: foldR_fun bindR_assoc del: foldR.simps)

lemma appendToBuffer_ok:
  assumes "length (response_text r) < 2147483648"
  shows "\<exists>b. appendToBuffer r emptyBuffer = Inr b \<and> content b = response_text r"
proof -
  have "length d \<le> length (response_text r)" if "d \<in> set (response_chunks r)" for d
    using that unfolding response_text_def by (simp add: length_concat member_le_sum_list)
  with assms have "\<forall>d \<in> set (response_chunks r). length d < 2147483648" by fastforce
  moreover have "length (concat (response_chunks r)) \<le> room emptyBuffer"
    using assms unfolding response_text_def by simp
  ultimately show ?thesis
    using buf.app_chunks [of emptyBuffer "response_chunks r"]
    by (auto simp: appendToBuffer_chunks append_strings response_text_def)
qed

section \<open>Properties\<close>

lemma processRequestLine_again:
  assumes "processRequestLine line r0 = Inr (ok, r)" and "req_method r0 = kInvalid" and "req_method r \<noteq> kInvalid"
    and "req_method r' \<noteq> kInvalid"
  shows "processRequestLine line r' = Inl AssertFailed"
proof -
  have "find_in line 0 (length line) (CHR '' '') \<noteq> length line"
    using assms(1-3) by (auto simp: processRequestLine_def)
  then show ?thesis using assms(4) by (simp add: processRequestLine_def setMethod_def Let_def)
qed

lemma parse_list_True:
  "parse_list t c xs = Inr (ok, c', ys) \<Longrightarrow> ctx_state c \<noteq> kExpectRequestLine \<Longrightarrow> ok"
proof (induction t c xs rule: parse_list.induct)
  case (1 t c xs)
  have h: "ctx_state c = kExpectHeaders \<Longrightarrow> ctx_state (header_step line c) \<noteq> kExpectRequestLine" for line
    by (simp add: header_step_def Let_def)
  show ?case
    using "1.prems" "1.IH"(2) h
    by (cases "ctx_state c") (auto simp: parse_list.simps [of t c xs] split: option.splits prod.splits)
qed

lemma parse_list_False:
  assumes "parse_list t c xs = Inr (False, c', ys)" and "ctx_ok c"
  obtains line rest r where "crlf_split xs = Some (line, rest)" and "processRequestLine line (ctx_request c) = Inr (False, r)"
    and "c' = c\<lparr>ctx_request := r\<rparr>" and "ys = xs"
proof -
  have st: "ctx_state c = kExpectRequestLine" using parse_list_True [OF assms(1)] by blast
  obtain line rest where s: "crlf_split xs = Some (line, rest)"
    using assms(1) st by (auto simp: parse_list.simps [of t c xs] split: option.splits)
  obtain ok r where r: "processRequestLine line (ctx_request c) = Inr (ok, r)"
    using processRequestLine_ok assms(2) st unfolding ctx_ok_def by blast
  have "\<not> ok" using parse_list_True assms(1) st s r by (fastforce simp: parse_list.simps [of t c xs])
  with that [OF s, of r] assms(1) st s r show thesis by (simp add: parse_list.simps [of t c xs])
qed

lemma parseRequest_list:
  assumes "buf_inv b" and "ctx_state c \<noteq> kGotAll" and "parse_list t c (content b) = Inr (ok, c', ys)"
  shows "\<exists>b'. parseRequest t c b = Some (Inr (ok, c', b')) \<and> buf_inv b' \<and> content b' = ys"
  using parse_loop_list [OF assms(1,2), of t] assms(3) by (simp add: parseRequest_def)

lemma new_context: "ctx_state HttpContext_new = kExpectRequestLine" "req_method (ctx_request HttpContext_new) = kInvalid"
  "req_headers (ctx_request HttpContext_new) = Map.empty" "req_query (ctx_request HttpContext_new) = []"
  "req_body (ctx_request HttpContext_new) = []" "ctx_ok HttpContext_new"
  by (simp_all add: HttpContext_new_def HttpRequest_new_def ctx_ok_def)

lemma parse_text_new:
  assumes "buf_inv b" and "content b = request_text r hs" and "request_ok r hs"
  shows "\<exists>b'. parseRequest t HttpContext_new b =
      Some (Inr (True, \<lparr>ctx_state = kGotAll, ctx_request = r\<lparr>req_receiveTime := t\<rparr>\<rparr>, b')) \<and>
    buf_inv b' \<and> content b' = req_body r"
proof (rule parseRequest_list [OF assms(1)])
  have "r\<lparr>req_receiveTime := t, req_body := (if req_body r \<noteq> [] then req_body r
      else req_body (ctx_request HttpContext_new))\<rparr> = r\<lparr>req_receiveTime := t\<rparr>"
    by (cases r) (simp add: new_context)
  with parse_text [OF assms(3) new_context(1-4), of t] assms(2)
  show "parse_list t HttpContext_new (content b) =
      Inr (True, \<lparr>ctx_state = kGotAll, ctx_request = r\<lparr>req_receiveTime := t\<rparr>\<rparr>, req_body r)" by simp
qed (simp add: new_context)



text \<open>
  \<^bold>\<open>C9\<close>. Parsing inverts printing: from the text of a well-formed request, a new context gets
  the method, path, query, version, headers and body of that request; when a field occurs
  several times its last value counts.
\<close>

theorem request_roundtrip:
  assumes "buf_inv b" and "content b = request_text r hs" and "request_ok r hs"
  shows "\<exists>b'. parseRequest t HttpContext_new b =
      Some (Inr (True, \<lparr>ctx_state = kGotAll, ctx_request = r\<lparr>req_receiveTime := t\<rparr>\<rparr>, b')) \<and>
    buf_inv b' \<and> content b' = req_body r"
  by (rule parse_text_new [OF assms])

definition ex_request :: HttpRequest where
  "ex_request = \<lparr>req_body = [], req_method = kGet, req_version = kHttp11, req_path = ''/a'', req_query = ''?x=1'',
     req_receiveTime = 0, req_headers = [''Host'' \<mapsto> ''h'', ''Connection'' \<mapsto> ''close'']\<rparr>"

definition ex_headers :: "(string \<times> string) list" where
  "ex_headers = [(''Host'', ''g''), (''Connection'', ''close''), (''Host'', ''h'')]"

lemma ex_request_ok: "request_ok ex_request ex_headers"
  by (auto simp: request_ok_def ex_request_def ex_headers_def header_ok_def isspace_def fun_eq_iff)

lemma ex_request_buf: "buf_inv (ex_buf (request_text ex_request ex_headers))"
  by (rule ex_buf_ok(1)) (simp_all add: request_text_def ex_request_def ex_headers_def request_line_def methodString_def
    version_text_def header_line_def kCRLF_def)

theorem request_roundtrip_witness:
  "\<exists>b'. parseRequest 7 HttpContext_new (ex_buf (request_text ex_request ex_headers)) =
      Some (Inr (True, \<lparr>ctx_state = kGotAll, ctx_request = ex_request\<lparr>req_receiveTime := 7\<rparr>\<rparr>, b')) \<and>
    buf_inv b' \<and> content b' = req_body ex_request"
  by (rule request_roundtrip [OF ex_request_buf ex_buf_ok(2) ex_request_ok])



lemma onMessage_text:
  fixes t :: Timestamp and cb :: "HttpRequest \<Rightarrow> HttpResponse \<Rightarrow> HttpResponse"
  assumes "buf_inv b" and "content b = request_text r hs" and "request_ok r hs"
  defines "r' \<equiv> r\<lparr>req_receiveTime := t\<rparr>"
  defines "resp \<equiv> cb r' (HttpResponse_new (getHeader ''Connection'' r = ''close'' \<or>
    req_version r = kHttp10 \<and> getHeader ''Connection'' r \<noteq> ''Keep-Alive''))"
  assumes "length (response_text resp) < 2147483648"
  shows "\<exists>b'. HttpServer_onMessage cb t HttpContext_new b =
      Some (Inr (ApiSend (response_text resp) # (if resp_closeConnection resp then [ApiShutdown] else []),
        HttpContext_new\<lparr>ctx_request := HttpRequest_new\<lparr>req_body := req_body r\<rparr>\<rparr>, b')) \<and>
    buf_inv b' \<and> content b' = req_body r"
proof -
  obtain b' where b': "parseRequest t HttpContext_new b =
      Some (Inr (True, \<lparr>ctx_state = kGotAll, ctx_request = r'\<rparr>, b'))" "buf_inv b'" "content b' = req_body r"
    using parse_text_new [OF assms(1-3), of t] unfolding r'_def by blast
  obtain out where "appendToBuffer resp emptyBuffer = Inr out" "content out = response_text resp"
    using appendToBuffer_ok [OF assms(6)] by blast
  then have "HttpServer_onRequest cb r' = Inr (ApiSend (response_text resp) #
      (if resp_closeConnection resp then [ApiShutdown] else []))"
    by (simp add: HttpServer_onRequest_def Let_def emptyBuffer_new resp_def r'_def getHeader_def)
  moreover have "HttpContext_reset \<lparr>ctx_state = kGotAll, ctx_request = r'\<rparr> =
      HttpContext_new\<lparr>ctx_request := HttpRequest_new\<lparr>req_body := req_body r\<rparr>\<rparr>"
    by (simp add: HttpContext_reset_def HttpContext_new_def HttpRequest_swap_def HttpRequest_new_def r'_def)
  ultimately show ?thesis using b' by (simp add: HttpServer_onMessage_def gotAll_def Let_def)
qed

text \<open>
  \<^bold>\<open>C29\<close>. A connection serves a request without body: the callback gets the request, its response is
  sent as one text, the connection is shut down exactly if the response says so, and the
  context and the input buffer are as before the request, ready for the next one.
\<close>

theorem request_served:
  assumes "buf_inv b" and "content b = request_text r hs" and "request_ok r hs" and "req_body r = []"
    and "length (response_text (cb (r\<lparr>req_receiveTime := t\<rparr>) (HttpResponse_new (getHeader ''Connection'' r = ''close'' \<or>
      req_version r = kHttp10 \<and> getHeader ''Connection'' r \<noteq> ''Keep-Alive'')))) < 2147483648"
  shows "let resp = cb (r\<lparr>req_receiveTime := t\<rparr>) (HttpResponse_new (getHeader ''Connection'' r = ''close'' \<or>
      req_version r = kHttp10 \<and> getHeader ''Connection'' r \<noteq> ''Keep-Alive''))
    in \<exists>b'. HttpServer_onMessage cb t HttpContext_new b =
        Some (Inr (ApiSend (response_text resp) # (if resp_closeConnection resp then [ApiShutdown] else []),
          HttpContext_new, b')) \<and> buf_inv b' \<and> content b' = []"
proof -
  have "HttpContext_new\<lparr>ctx_request := HttpRequest_new\<lparr>req_body := []\<rparr>\<rparr> = HttpContext_new"
    by (simp add: HttpContext_new_def HttpRequest_new_def)
  then show ?thesis using onMessage_text [where cb = cb and t = t, OF assms(1-3,5)] assms(4) by (simp add: Let_def)
qed

theorem request_served_witness:
  "\<exists>b'. HttpServer_onMessage defaultHttpCallback 7 HttpContext_new (ex_buf (request_text ex_request ex_headers)) =
      Some (Inr ([ApiSend (''HTTP/1.1 404 Not Found'' @ kCRLF @ ''Connection: close'' @ kCRLF @ kCRLF), ApiShutdown],
        HttpContext_new, b')) \<and> buf_inv b' \<and> content b' = []"
proof -
  have d: "int_digits 404 = ''404''" by code_simp
  have "response_text (defaultHttpCallback r (HttpResponse_new c)) =
      ''HTTP/1.1 404 Not Found'' @ kCRLF @ ''Connection: close'' @ kCRLF @ kCRLF" for r c
    by (simp add: response_text_def response_chunks_def defaultHttpCallback_def HttpResponse_new_def setStatusCode_def
      setStatusMessage_def setCloseConnection_def d)
  then show ?thesis
    using request_served [OF ex_request_buf ex_buf_ok(2) ex_request_ok, of defaultHttpCallback 7]
    by (simp add: ex_request_def defaultHttpCallback_def setCloseConnection_def kCRLF_def)
qed


definition ex_post :: HttpRequest where
  "ex_post = \<lparr>req_body = ''name=x'', req_method = kPost, req_version = kHttp11, req_path = ''/login'', req_query = [],
     req_receiveTime = 0, req_headers = Map.empty\<rparr>"


text \<open>
  \<^bold>\<open>C36\<close>. A request line with a known method that is rejected for its rest leaves the method set and the
  line in the buffer. The connection answers 400 and shuts down its own side only; whatever the peer
  sends next, parsing the line again fails the assertion in \<open>setMethod\<close>.
\<close>

theorem bad_request_asserts:
  assumes "buf_inv b" and "parseRequest t HttpContext_new b = Some (Inr (False, c1, b1))"
    and "req_method (ctx_request c1) \<noteq> kInvalid"
  shows "HttpServer_onMessage cb t HttpContext_new b =
      Some (Inr ([ApiSend (''HTTP/1.1 400 Bad Request'' @ kCRLF @ kCRLF), ApiShutdown], c1, b1)) \<and>
    (\<forall>b2 more. buf_inv b2 \<and> content b2 = content b1 @ more \<longrightarrow>
      HttpServer_onMessage cb t c1 b2 = Some (Inl AssertFailed))"
proof -
  obtain ok c' ys zs where l: "parse_list t HttpContext_new (content b) = Inr (ok, c', ys)" "content b = zs @ ys"
    using parse_list_ok [OF new_context(6)] by blast
  from parseRequest_list [OF assms(1) _ l(1)] assms(2) new_context(1)
  have l': "parse_list t HttpContext_new (content b) = Inr (False, c1, content b1)" using l(1) by auto
  then obtain line rest r where s: "crlf_split (content b) = Some (line, rest)"
    and r: "processRequestLine line (ctx_request HttpContext_new) = Inr (False, r)"
      "c1 = HttpContext_new\<lparr>ctx_request := r\<rparr>" "content b1 = content b"
    by (rule parse_list_False) (simp_all add: new_context)
  have "HttpServer_onMessage cb t c1 b2 = Some (Inl AssertFailed)" if b2: "buf_inv b2" "content b2 = content b1 @ more" for b2 more
  proof -
    have "crlf_split (content b2) = Some (line, rest @ more)" using crlf_split_append [OF s] b2(2) r(3) by simp
    moreover have "processRequestLine line r = Inl AssertFailed"
      using processRequestLine_again [OF r(1)] new_context(2) assms(3) r(2) by simp
    ultimately have "parse_list t c1 (content b2) = Inl AssertFailed"
      using r(2) by (simp add: parse_list.simps new_context)
    then show ?thesis
      using parse_loop_list [OF b2(1), of c1 t] r(2) by (simp add: HttpServer_onMessage_def parseRequest_def new_context)
  qed
  moreover have "\<not> gotAll c1" using r(2) by (simp add: gotAll_def new_context)
  ultimately show ?thesis using assms(2) by (simp add: HttpServer_onMessage_def Let_def)
qed

theorem bad_request_asserts_witness:
  "\<exists>c1 b1. HttpServer_onMessage defaultHttpCallback 7 HttpContext_new (ex_buf (''GET / HTTP/2.0'' @ kCRLF)) =
      Some (Inr ([ApiSend (''HTTP/1.1 400 Bad Request'' @ kCRLF @ kCRLF), ApiShutdown], c1, b1)) \<and>
    HttpServer_onMessage defaultHttpCallback 7 c1 (ex_buf (content b1 @ ''x'')) = Some (Inl AssertFailed)"
proof -
  let ?b = "ex_buf (''GET / HTTP/2.0'' @ kCRLF)"
  let ?r = "HttpRequest_new\<lparr>req_method := kGet, req_path := ''/''\<rparr>"
  have i: "buf_inv ?b" "buf_inv (ex_buf ((''GET / HTTP/2.0'' @ kCRLF) @ ''x''))"
    by (rule ex_buf_ok(1); simp add: kCRLF_def)+
  have "processRequestLine ''GET / HTTP/2.0'' HttpRequest_new = Inr (False, ?r)"
    by (simp add: processRequestLine_def find_in_def range_of_def setMethod_def HttpRequest_new_def setPath_def Let_def)
  then have "parse_list 7 HttpContext_new (content ?b) =
      Inr (False, \<lparr>ctx_state = kExpectRequestLine, ctx_request = ?r\<rparr>, content ?b)"
    using crlf_split_line [of "''GET / HTTP/2.0''" "[]"]
    by (simp add: parse_list.simps HttpContext_new_def ex_buf_ok(2))
  from parseRequest_list [OF i(1) _ this] new_context(1) obtain b1 where
    b1: "parseRequest 7 HttpContext_new ?b = Some (Inr (False, \<lparr>ctx_state = kExpectRequestLine, ctx_request = ?r\<rparr>, b1))"
      "content b1 = ''GET / HTTP/2.0'' @ kCRLF"
    by (auto simp: ex_buf_ok(2))
  from bad_request_asserts [OF i(1) b1(1), of defaultHttpCallback] i(2) b1(2) show ?thesis
    by (auto simp: ex_buf_ok(2))
qed

end
