(* ===== verification/Base_LogStream.thy ===== *)
theory Base_LogStream
  imports Muduo_Prelude Complex_Main
begin

text \<open>
  The logging stream of \<open>src/muduo/base/LogStream.h\<close> and \<open>LogStream.cc\<close>: the fixed buffer that
  receives the characters, the integer and pointer conversions that write into it in place, one
  definition for each \<open>operator<<\<close>, \<open>Fmt\<close>, and the two functions that print a quantity with a
  unit. A \<open>FixedBuffer<SIZE>\<close> is the array \<open>data_\<close>, whose length is \<open>SIZE\<close>, and the offset of
  \<open>cur_\<close> in it; its initial contents are whatever the memory held. What \<open>snprintf\<close> prints for a
  \<open>double\<close> with the format \<open>%.12g\<close> is a parameter of the stream. The unit functions
  use only division, comparison and \<open>%.Nf\<close> on doubles that are far from the ends of the
  exponent range, so a \<open>double\<close> there is the rational number it stands for, rounded by \<open>dbl\<close>.

  The lemmas show that the conversions print the decimal and hexadecimal form of every value of
  every integer type, that a stream never writes outside its buffer and keeps its shape, and how long a quantity
  with a unit can be.
\<close>

section \<open>The fixed buffer\<close>

definition kSmallBuffer :: nat where
  "kSmallBuffer = 4000"

definition kLargeBuffer :: nat where
  "kLargeBuffer = 4000 * 1000"

record FixedBuffer =
  fb_data :: string
  fb_cur :: nat

definition FixedBuffer_new :: "string \<Rightarrow> FixedBuffer" where
  "FixedBuffer_new mem = \<lparr>fb_data = mem, fb_cur = 0\<rparr>"

definition fb_length :: "FixedBuffer \<Rightarrow> int" where
  "fb_length b = to_int (int (fb_cur b))"

definition fb_avail :: "FixedBuffer \<Rightarrow> int" where
  "fb_avail b = to_int (int (length (fb_data b)) - int (fb_cur b))"

text \<open>Writing through \<open>cur_\<close>: the bytes must lie inside the array.\<close>

definition fb_write :: "string \<Rightarrow> FixedBuffer \<Rightarrow> FixedBuffer res" where
  "fb_write s b =
     (if fb_cur b + length s \<le> length (fb_data b)
      then Inr (b\<lparr>fb_data := overwrite (fb_data b) (fb_cur b) s\<rparr>) else Inl UndefinedBehaviour)"

definition fb_add :: "nat \<Rightarrow> FixedBuffer \<Rightarrow> FixedBuffer" where
  "fb_add len b = b\<lparr>fb_cur := fb_cur b + len\<rparr>"

definition fb_append :: "string \<Rightarrow> FixedBuffer \<Rightarrow> FixedBuffer res" where
  "fb_append buf b =
     (if to_size (fb_avail b) > length buf
      then bindR (fb_write buf b) (\<lambda>b. Inr (fb_add (length buf) b))
      else Inr b)"

definition fb_reset :: "FixedBuffer \<Rightarrow> FixedBuffer" where
  "fb_reset b = b\<lparr>fb_cur := 0\<rparr>"

definition fb_bzero :: "FixedBuffer \<Rightarrow> FixedBuffer" where
  "fb_bzero b = b\<lparr>fb_data := replicate (length (fb_data b)) (char_of (0 :: nat))\<rparr>"

definition fb_toString :: "FixedBuffer \<Rightarrow> string" where
  "fb_toString b = take (nat (fb_length b)) (fb_data b)"

definition debugString :: "FixedBuffer \<Rightarrow> (string \<times> FixedBuffer) res" where
  "debugString b = bindR (fb_write [char_of (0 :: nat)] b) (\<lambda>b. Inr (fb_data b, b))"

section \<open>Integers\<close>

text \<open>
  \<open>convert\<close> writes the digits from the least significant one on, the sign and the terminating zero, and
  reverses what stands before the zero. \<open>lsd\<close> has the sign of \<open>i\<close>, so the digit table is indexed from its middle. Both functions return the
  characters before the zero.
\<close>

definition digits :: string where
  "digits = ''9876543210123456789''"

definition digitsHex :: string where
  "digitsHex = ''0123456789ABCDEF''"

function convert_loop :: "int \<Rightarrow> string" where
  "convert_loop i =
     (let lsd = i smod 10; i' = i sdiv 10; c = digits ! nat (9 + lsd)
      in if i' \<noteq> 0 then c # convert_loop i' else [c])"
  by pat_completeness auto

termination convert_loop
  by (relation "measure (\<lambda>i. nat \<bar>i\<bar>)") (auto simp: signed_divide_int_def abs_mult sgn_if)

declare convert_loop.simps [simp del]

definition convert :: "int \<Rightarrow> string" where
  "convert value =
     (let p = convert_loop value; p = (if value < 0 then p @ ''-'' else p) in rev p)"

fun convertHex_loop :: "nat \<Rightarrow> string" where
  "convertHex_loop i =
     (let lsd = i mod 16; i' = i div 16; c = digitsHex ! lsd
      in if i' \<noteq> 0 then c # convertHex_loop i' else [c])"

declare convertHex_loop.simps [simp del]

definition convertHex :: "nat \<Rightarrow> string" where
  "convertHex value = rev (convertHex_loop value)"

section \<open>The stream\<close>

definition kMaxNumericSize :: int where
  "kMaxNumericSize = 32"

definition formatInteger :: "int \<Rightarrow> FixedBuffer \<Rightarrow> FixedBuffer res" where
  "formatInteger v b =
     (if fb_avail b \<ge> kMaxNumericSize
      then bindR (fb_write (convert v @ [char_of (0 :: nat)]) b) (\<lambda>b. Inr (fb_add (length (convert v)) b))
      else Inr b)"

definition shl_bool :: "bool \<Rightarrow> FixedBuffer \<Rightarrow> FixedBuffer res" where
  "shl_bool v b = fb_append (if v then ''1'' else ''0'') b"

definition shl_int :: "32 word \<Rightarrow> FixedBuffer \<Rightarrow> FixedBuffer res" where
  "shl_int v b = formatInteger (sint v) b"

definition shl_uint :: "32 word \<Rightarrow> FixedBuffer \<Rightarrow> FixedBuffer res" where
  "shl_uint v b = formatInteger (uint v) b"

definition shl_short :: "16 word \<Rightarrow> FixedBuffer \<Rightarrow> FixedBuffer res" where
  "shl_short v b = shl_int (scast v) b"

definition shl_ushort :: "16 word \<Rightarrow> FixedBuffer \<Rightarrow> FixedBuffer res" where
  "shl_ushort v b = shl_uint (ucast v) b"

definition shl_long :: "64 word \<Rightarrow> FixedBuffer \<Rightarrow> FixedBuffer res" where
  "shl_long v b = formatInteger (sint v) b"

definition shl_ulong :: "64 word \<Rightarrow> FixedBuffer \<Rightarrow> FixedBuffer res" where
  "shl_ulong v b = formatInteger (uint v) b"

definition shl_llong :: "64 word \<Rightarrow> FixedBuffer \<Rightarrow> FixedBuffer res" where
  "shl_llong v b = formatInteger (sint v) b"

definition shl_ullong :: "64 word \<Rightarrow> FixedBuffer \<Rightarrow> FixedBuffer res" where
  "shl_ullong v b = formatInteger (uint v) b"

definition shl_ptr :: "64 word \<Rightarrow> FixedBuffer \<Rightarrow> FixedBuffer res" where
  "shl_ptr p b =
     (let v = unat p; hex = convertHex v
      in if fb_avail b \<ge> kMaxNumericSize
         then bindR (fb_write (''0x'' @ hex @ [char_of (0 :: nat)]) b) (\<lambda>b. Inr (fb_add (length hex + 2) b))
         else Inr b)"

text \<open>\<open>snprintf(buf, n, ...)\<close> writes at most \<open>n\<close> bytes, the last of them zero, and returns the length of the whole text.\<close>

definition snprintf_bytes :: "nat \<Rightarrow> string \<Rightarrow> string" where
  "snprintf_bytes n t = take (n - 1) t @ [char_of (0 :: nat)]"

definition shl_double :: "('d \<Rightarrow> string) \<Rightarrow> 'd \<Rightarrow> FixedBuffer \<Rightarrow> FixedBuffer res" where
  "shl_double fmt_g v b =
     (if fb_avail b \<ge> kMaxNumericSize
      then bindR (fb_write (snprintf_bytes (nat kMaxNumericSize) (fmt_g v)) b)
             (\<lambda>b. Inr (fb_add (length (fmt_g v)) b))
      else Inr b)"

definition shl_char :: "char \<Rightarrow> FixedBuffer \<Rightarrow> FixedBuffer res" where
  "shl_char v b = fb_append [v] b"

definition shl_cstr :: "string option \<Rightarrow> FixedBuffer \<Rightarrow> FixedBuffer res" where
  "shl_cstr str b = (case str of
      Some s \<Rightarrow> fb_append s b
    | None \<Rightarrow> fb_append ''(null)'' b)"

definition shl_string :: "string \<Rightarrow> FixedBuffer \<Rightarrow> FixedBuffer res" where
  "shl_string v b = fb_append v b"

definition shl_StringPiece :: "string \<Rightarrow> FixedBuffer \<Rightarrow> FixedBuffer res" where
  "shl_StringPiece v b = fb_append v b"

definition shl_Buffer :: "FixedBuffer \<Rightarrow> FixedBuffer \<Rightarrow> FixedBuffer res" where
  "shl_Buffer v b = shl_StringPiece (fb_toString v) b"

definition resetBuffer :: "FixedBuffer \<Rightarrow> FixedBuffer" where
  "resetBuffer b = fb_reset b"

text \<open>The text of a \<open>Fmt\<close> is what \<open>snprintf\<close> makes of its format and its value.\<close>

datatype Fmt = Fmt (fmt_text: string)

definition Fmt_new :: "string \<Rightarrow> Fmt res" where
  "Fmt_new t = assertR (length t < 32) (Fmt t)"

definition shl_Fmt :: "Fmt \<Rightarrow> FixedBuffer \<Rightarrow> FixedBuffer res" where
  "shl_Fmt f b = fb_append (fmt_text f) b"

text \<open>A log statement is a sequence of insertions.\<close>

datatype 'd log_item =
    L_bool bool | L_short "16 word" | L_ushort "16 word" | L_int "32 word" | L_uint "32 word"
  | L_long "64 word" | L_ulong "64 word" | L_llong "64 word" | L_ullong "64 word" | L_ptr "64 word"
  | L_double 'd | L_char char | L_cstr "string option" | L_string string | L_StringPiece string
  | L_Buffer FixedBuffer | L_Fmt Fmt

fun shl :: "('d \<Rightarrow> string) \<Rightarrow> 'd log_item \<Rightarrow> FixedBuffer \<Rightarrow> FixedBuffer res" where
  "shl fmt_g (L_bool v) = shl_bool v"
| "shl fmt_g (L_short v) = shl_short v"
| "shl fmt_g (L_ushort v) = shl_ushort v"
| "shl fmt_g (L_int v) = shl_int v"
| "shl fmt_g (L_uint v) = shl_uint v"
| "shl fmt_g (L_long v) = shl_long v"
| "shl fmt_g (L_ulong v) = shl_ulong v"
| "shl fmt_g (L_llong v) = shl_llong v"
| "shl fmt_g (L_ullong v) = shl_ullong v"
| "shl fmt_g (L_ptr v) = shl_ptr v"
| "shl fmt_g (L_double v) = shl_double fmt_g v"
| "shl fmt_g (L_char v) = shl_char v"
| "shl fmt_g (L_cstr v) = shl_cstr v"
| "shl fmt_g (L_string v) = shl_string v"
| "shl fmt_g (L_StringPiece v) = shl_StringPiece v"
| "shl fmt_g (L_Buffer v) = shl_Buffer v"
| "shl fmt_g (L_Fmt v) = shl_Fmt v"

section \<open>Quantities with a unit\<close>

text \<open>
  \<open>dbl q\<close> is the double nearest to \<open>q\<close>, ties going to the even significand: \<open>e\<close> is the exponent with
  \<open>2 ^ e \<le> q < 2 ^ (e + 1)\<close>. \<open>fmt_f d x\<close> is what \<open>snprintf\<close> prints for \<open>x \<ge> 0\<close> with \<open>%.df\<close>, the exact value of
  \<open>x\<close> rounded to \<open>d\<close> decimals.
\<close>

definition round_even :: "rat \<Rightarrow> int" where
  "round_even q =
     (let f = \<lfloor>q\<rfloor>; r = q - of_int f
      in if r < 1 / 2 then f else if r > 1 / 2 then f + 1 else if even f then f else f + 1)"

definition pow2 :: "int \<Rightarrow> rat" where
  "pow2 e = (if e \<ge> 0 then 2 ^ nat e else 1 / 2 ^ nat (- e))"

fun num_bits :: "int \<Rightarrow> int" where
  "num_bits n = (if n \<le> 0 then 0 else 1 + num_bits (n div 2))"

declare num_bits.simps [simp del]

definition exponent_of :: "rat \<Rightarrow> int" where
  "exponent_of q =
     (let (n, d) = quotient_of q; e = num_bits n - num_bits d
      in if q < pow2 e then e - 1 else e)"

definition dbl :: "rat \<Rightarrow> rat" where
  "dbl q =
     (if q = 0 then 0
      else let e = exponent_of \<bar>q\<bar> in sgn q * of_int (round_even (\<bar>q\<bar> * pow2 (52 - e))) * pow2 (e - 52))"

definition fmt_f :: "nat \<Rightarrow> rat \<Rightarrow> string" where
  "fmt_f d x =
     (let m = nat (round_even (x * 10 ^ d)); frac = nat_digits (m mod 10 ^ d)
      in nat_digits (m div 10 ^ d) @
         (if d = 0 then [] else ''.'' @ replicate (d - length frac) (CHR ''0'') @ frac))"

definition formatSI :: "int \<Rightarrow> string" where
  "formatSI s =
     (let n = dbl (of_int s)
      in if s < 1000 then int_digits s
      else if s < 9995 then fmt_f 2 (dbl (n / 10 ^ 3)) @ ''k''
      else if s < 99950 then fmt_f 1 (dbl (n / 10 ^ 3)) @ ''k''
      else if s < 999500 then fmt_f 0 (dbl (n / 10 ^ 3)) @ ''k''
      else if s < 9995000 then fmt_f 2 (dbl (n / 10 ^ 6)) @ ''M''
      else if s < 99950000 then fmt_f 1 (dbl (n / 10 ^ 6)) @ ''M''
      else if s < 999500000 then fmt_f 0 (dbl (n / 10 ^ 6)) @ ''M''
      else if s < 9995000000 then fmt_f 2 (dbl (n / 10 ^ 9)) @ ''G''
      else if s < 99950000000 then fmt_f 1 (dbl (n / 10 ^ 9)) @ ''G''
      else if s < 999500000000 then fmt_f 0 (dbl (n / 10 ^ 9)) @ ''G''
      else if s < 9995000000000 then fmt_f 2 (dbl (n / 10 ^ 12)) @ ''T''
      else if s < 99950000000000 then fmt_f 1 (dbl (n / 10 ^ 12)) @ ''T''
      else if s < 999500000000000 then fmt_f 0 (dbl (n / 10 ^ 12)) @ ''T''
      else if s < 9995000000000000 then fmt_f 2 (dbl (n / 10 ^ 15)) @ ''P''
      else if s < 99950000000000000 then fmt_f 1 (dbl (n / 10 ^ 15)) @ ''P''
      else if s < 999500000000000000 then fmt_f 0 (dbl (n / 10 ^ 15)) @ ''P''
      else fmt_f 2 (dbl (n / 10 ^ 18)) @ ''E'')"

text \<open>The constants \<open>9.995\<close>, \<open>99.95\<close> and \<open>1023.5\<close> of \<open>formatIEC\<close> are doubles too.\<close>

definition Ki :: rat where "Ki = 1024"
definition Mi :: rat where "Mi = dbl (Ki * 1024)"
definition Gi :: rat where "Gi = dbl (Mi * 1024)"
definition Ti :: rat where "Ti = dbl (Gi * 1024)"
definition Pi :: rat where "Pi = dbl (Ti * 1024)"
definition Ei :: rat where "Ei = dbl (Pi * 1024)"

definition formatIEC :: "int \<Rightarrow> string" where
  "formatIEC s =
     (let n = dbl (of_int s); c1 = dbl (9995 / 1000); c2 = dbl (9995 / 100); c3 = dbl (10235 / 10)
      in if n < Ki then int_digits s
      else if n < dbl (Ki * c1) then fmt_f 2 (dbl (n / Ki)) @ ''Ki''
      else if n < dbl (Ki * c2) then fmt_f 1 (dbl (n / Ki)) @ ''Ki''
      else if n < dbl (Ki * c3) then fmt_f 0 (dbl (n / Ki)) @ ''Ki''
      else if n < dbl (Mi * c1) then fmt_f 2 (dbl (n / Mi)) @ ''Mi''
      else if n < dbl (Mi * c2) then fmt_f 1 (dbl (n / Mi)) @ ''Mi''
      else if n < dbl (Mi * c3) then fmt_f 0 (dbl (n / Mi)) @ ''Mi''
      else if n < dbl (Gi * c1) then fmt_f 2 (dbl (n / Gi)) @ ''Gi''
      else if n < dbl (Gi * c2) then fmt_f 1 (dbl (n / Gi)) @ ''Gi''
      else if n < dbl (Gi * c3) then fmt_f 0 (dbl (n / Gi)) @ ''Gi''
      else if n < dbl (Ti * c1) then fmt_f 2 (dbl (n / Ti)) @ ''Ti''
      else if n < dbl (Ti * c2) then fmt_f 1 (dbl (n / Ti)) @ ''Ti''
      else if n < dbl (Ti * c3) then fmt_f 0 (dbl (n / Ti)) @ ''Ti''
      else if n < dbl (Pi * c1) then fmt_f 2 (dbl (n / Pi)) @ ''Pi''
      else if n < dbl (Pi * c2) then fmt_f 1 (dbl (n / Pi)) @ ''Pi''
      else if n < dbl (Pi * c3) then fmt_f 0 (dbl (n / Pi)) @ ''Pi''
      else if n < dbl (Ei * c1) then fmt_f 2 (dbl (n / Ei)) @ ''Ei''
      else fmt_f 1 (dbl (n / Ei)) @ ''Ei'')"

section \<open>What the conversions print\<close>

lemma digits_nth: "d < 10 \<Longrightarrow> digits ! (9 + d) = char_of (48 + d) \<and> digits ! (9 - d) = char_of (48 + d)"
proof -
  have "\<forall>d \<in> set [0..<10]. digits ! (9 + d) = char_of (48 + d) \<and> digits ! (9 - d) = char_of (48 + d)"
    by code_simp
  then show "d < 10 \<Longrightarrow> ?thesis" by simp
qed

lemma digits_smod: "digits ! nat (9 + i smod 10) = char_of (48 + nat \<bar>i\<bar> mod 10)"
proof (cases "i < 0")
  case True
  then have "i smod 10 = - int (nat \<bar>i\<bar> mod 10)"
    by (simp add: signed_modulo_int_def signed_divide_int_def zmod_int minus_div_mult_eq_mod [symmetric])
  moreover have "nat (9 - int m) = 9 - m" if "m < 10" for m
    using that by linarith
  ultimately have "nat (9 + i smod 10) = 9 - nat \<bar>i\<bar> mod 10" by simp
  then show ?thesis using digits_nth [of "nat \<bar>i\<bar> mod 10"] by simp
next
  case False
  then have "i smod 10 = int (nat \<bar>i\<bar> mod 10)" by (simp add: smod_nonneg zmod_int)
  then have "nat (9 + i smod 10) = 9 + nat \<bar>i\<bar> mod 10" by (simp add: nat_add_distrib)
  then show ?thesis using digits_nth [of "nat \<bar>i\<bar> mod 10"] by simp
qed

lemma abs_sdiv: "nat \<bar>i sdiv 10\<bar> = nat \<bar>i\<bar> div 10"
  by (simp add: signed_divide_int_def abs_mult sgn_if nat_div_distrib)

lemma sdiv_eq_0: "i sdiv 10 = 0 \<longleftrightarrow> nat \<bar>i\<bar> < 10"
proof -
  have "i sdiv 10 = 0 \<longleftrightarrow> nat \<bar>i sdiv 10\<bar> = 0" by simp
  also have "\<dots> \<longleftrightarrow> nat \<bar>i\<bar> < 10" unfolding abs_sdiv by (simp only: div_eq_0_iff) simp
  finally show ?thesis .
qed

lemma convert_loop_eq: "rev (convert_loop i) = nat_digits (nat \<bar>i\<bar>)"
proof (induction i rule: convert_loop.induct)
  case (1 i)
  show ?case
  proof (cases "i sdiv 10 = 0")
    case True
    then show ?thesis
      by (simp add: convert_loop.simps [of i] nat_digits.simps [of "nat \<bar>i\<bar>"] sdiv_eq_0 digits_smod Let_def)
  next
    case False
    then show ?thesis using "1.IH" [OF refl refl refl False]
      by (simp add: convert_loop.simps [of i] nat_digits.simps [of "nat \<bar>i\<bar>"] sdiv_eq_0 digits_smod abs_sdiv Let_def)
  qed
qed

lemma convert_eq: "convert i = int_digits i"
  using convert_loop_eq [of i] by (simp add: convert_def int_digits_def Let_def)

text \<open>The hexadecimal form, most significant digit first.\<close>

fun hex_digits :: "nat \<Rightarrow> string" where
  "hex_digits n =
     (if n < 16 then [''0123456789ABCDEF'' ! n] else hex_digits (n div 16) @ [''0123456789ABCDEF'' ! (n mod 16)])"

declare hex_digits.simps [simp del]

lemma convertHex_eq: "convertHex n = hex_digits n"
  unfolding convertHex_def
proof (induction n rule: convertHex_loop.induct)
  case (1 i)
  then show ?case
    by (simp add: convertHex_loop.simps [of i] hex_digits.simps [of i] digitsHex_def Let_def div_eq_0_iff)
qed

lemma length_nat_digits: "0 < k \<Longrightarrow> n < 10 ^ k \<Longrightarrow> length (nat_digits n) \<le> k"
proof (induction n arbitrary: k rule: nat_digits.induct)
  case (1 n)
  show ?case
  proof (cases "n < 10")
    case False
    then obtain j where k: "k = Suc j" "0 < j" using "1.prems" by (cases k; cases "k = 1") auto
    then have "n div 10 < 10 ^ j" using "1.prems" by (simp add: less_mult_imp_div_less mult.commute)
    with k False "1.IH" [OF False, of j] show ?thesis by (simp add: nat_digits.simps [of n])
  qed (use "1.prems" in \<open>simp add: nat_digits.simps [of n]\<close>)
qed

lemma length_hex_digits: "0 < k \<Longrightarrow> n < 16 ^ k \<Longrightarrow> length (hex_digits n) \<le> k"
proof (induction n arbitrary: k rule: hex_digits.induct)
  case (1 n)
  show ?case
  proof (cases "n < 16")
    case False
    then obtain j where k: "k = Suc j" "0 < j" using "1.prems" by (cases k; cases "k = 1") auto
    then have "n div 16 < 16 ^ j" using "1.prems" by (simp add: less_mult_imp_div_less mult.commute)
    with k False "1.IH" [OF False, of j] show ?thesis by (simp add: hex_digits.simps [of n])
  qed (use "1.prems" in \<open>simp add: hex_digits.simps [of n]\<close>)
qed

lemma length_int_digits:
  assumes "\<bar>i\<bar> < 2 ^ 64"
  shows "length (int_digits i) \<le> 21"
proof -
  have "nat \<bar>i\<bar> < 10 ^ 20" using assms by simp
  then show ?thesis using length_nat_digits [of 20 "nat \<bar>i\<bar>"] by (auto simp: int_digits_def)
qed

section \<open>The buffer stays well formed\<close>

text \<open>
  A well formed buffer has room for one more byte, which is what \<open>debugString\<close> needs.
  \<open>holds n xs b\<close> says that \<open>b\<close> is a well formed buffer of \<open>n\<close> bytes with the contents \<open>xs\<close>.
\<close>

definition fb_ok :: "FixedBuffer \<Rightarrow> bool" where
  "fb_ok b \<longleftrightarrow> fb_cur b < length (fb_data b) \<and> length (fb_data b) < 2147483648"

definition holds :: "nat \<Rightarrow> string \<Rightarrow> FixedBuffer \<Rightarrow> bool" where
  "holds n xs b \<longleftrightarrow> fb_ok b \<and> length (fb_data b) = n \<and> fb_toString b = xs"

lemma fb_ok_simps:
  assumes "fb_ok b"
  shows "fb_avail b = int (length (fb_data b)) - int (fb_cur b)"
    and "to_size (int (length (fb_data b)) - int (fb_cur b)) = length (fb_data b) - fb_cur b"
    and "fb_toString b = take (fb_cur b) (fb_data b)"
  using assms by (auto simp: fb_ok_def fb_avail_def fb_toString_def fb_length_def to_size_def two64_def nat_diff_distrib)

lemma holds_length: "holds n xs b \<Longrightarrow> length xs = fb_cur b \<and> length xs < n"
  by (auto simp: holds_def fb_ok_simps) (simp_all add: fb_ok_def)

lemma holds_write:
  assumes "holds n xs b" and "w = t \<or> w = t @ [c]" and "length xs + length t < n"
  shows "ends {} (bindR (fb_write w b) (\<lambda>b. Inr (fb_add (length t) b))) (holds n (xs @ t))"
proof -
  have ok: "fb_ok b" "length (fb_data b) = n" "xs = take (fb_cur b) (fb_data b)" "length xs = fb_cur b"
    using assms(1) holds_length [OF assms(1)] by (auto simp: holds_def fb_ok_simps)
  have fits: "fb_cur b + length w \<le> n" using assms(2,3) ok by auto
  define b' where "b' = fb_add (length t) (b\<lparr>fb_data := overwrite (fb_data b) (fb_cur b) w\<rparr>)"
  have "fb_ok b'" using assms(3) ok fits by (simp add: b'_def fb_ok_def fb_add_def)
  moreover have "length (fb_data b') = n" using ok fits by (simp add: b'_def fb_add_def)
  moreover have "take (fb_cur b') (fb_data b') = xs @ t"
    using assms(2) ok fits by (auto simp: b'_def fb_add_def overwrite_def)
  ultimately have "holds n (xs @ t) b'" by (simp add: holds_def fb_ok_simps)
  then show ?thesis using fits ok by (simp add: fb_write_def b'_def)
qed

text \<open>The two rules by which a stream accepts a text: by its length, or by the size of the longest number.\<close>

definition put_text :: "nat \<Rightarrow> string \<Rightarrow> string \<Rightarrow> string" where
  "put_text n t xs = (if length xs + length t < n then xs @ t else xs)"

definition put_number :: "nat \<Rightarrow> string \<Rightarrow> string \<Rightarrow> string" where
  "put_number n t xs = (if length xs + 32 \<le> n then xs @ t else xs)"

lemma fb_append_holds: "holds n xs b \<Longrightarrow> ends {} (fb_append t b) (holds n (put_text n t xs))"
  using holds_write [of n xs b t t] holds_length [of n xs b]
  by (auto simp: fb_append_def put_text_def fb_ok_simps holds_def less_diff_conv)

lemma formatInteger_holds:
  assumes "holds n xs b" and "\<bar>v\<bar> < 2 ^ 64"
  shows "ends {} (formatInteger v b) (holds n (put_number n (int_digits v) xs))"
  using holds_write [OF assms(1), of "int_digits v @ [char_of (0 :: nat)]" "int_digits v" "char_of (0 :: nat)"]
    holds_length [OF assms(1)] length_int_digits [OF assms(2)] assms(1)
  by (auto simp: formatInteger_def put_number_def convert_eq kMaxNumericSize_def holds_def fb_ok_simps)

lemma shl_ptr_holds:
  assumes "holds n xs b"
  shows "ends {} (shl_ptr p b) (holds n (put_number n (''0x'' @ hex_digits (unat p)) xs))"
proof -
  have "length (hex_digits (unat p)) \<le> 16"
    using length_hex_digits [of 16 "unat p"] unsigned_less [where 'a = nat and w = p] by simp
  then show ?thesis
    using holds_write [OF assms, of "(''0x'' @ hex_digits (unat p)) @ [char_of (0 :: nat)]" "''0x'' @ hex_digits (unat p)" "char_of (0 :: nat)"]
      holds_length [OF assms] assms
    by (auto simp: shl_ptr_def put_number_def convertHex_eq kMaxNumericSize_def holds_def fb_ok_simps Let_def)
qed

lemma shl_double_holds:
  assumes "holds n xs b" and "length (fmt_g v) < 32"
  shows "ends {} (shl_double fmt_g v b) (holds n (put_number n (fmt_g v) xs))"
  using holds_write [OF assms(1), of "fmt_g v @ [char_of (0 :: nat)]" "fmt_g v" "char_of (0 :: nat)"]
    holds_length [OF assms(1)] assms
  by (auto simp: shl_double_def snprintf_bytes_def put_number_def kMaxNumericSize_def holds_def fb_ok_simps)

text \<open>The text of an item and what inserting it makes of the contents of a stream.\<close>

fun item_put :: "('d \<Rightarrow> string) \<Rightarrow> nat \<Rightarrow> 'd log_item \<Rightarrow> string \<Rightarrow> string" where
  "item_put fmt_g n (L_bool v) = put_text n (if v then ''1'' else ''0'')"
| "item_put fmt_g n (L_short v) = put_number n (int_digits (sint v))"
| "item_put fmt_g n (L_ushort v) = put_number n (int_digits (uint v))"
| "item_put fmt_g n (L_int v) = put_number n (int_digits (sint v))"
| "item_put fmt_g n (L_uint v) = put_number n (int_digits (uint v))"
| "item_put fmt_g n (L_long v) = put_number n (int_digits (sint v))"
| "item_put fmt_g n (L_ulong v) = put_number n (int_digits (uint v))"
| "item_put fmt_g n (L_llong v) = put_number n (int_digits (sint v))"
| "item_put fmt_g n (L_ullong v) = put_number n (int_digits (uint v))"
| "item_put fmt_g n (L_ptr v) = put_number n (''0x'' @ hex_digits (unat v))"
| "item_put fmt_g n (L_double v) = put_number n (fmt_g v)"
| "item_put fmt_g n (L_char v) = put_text n [v]"
| "item_put fmt_g n (L_cstr v) = put_text n (case v of Some s \<Rightarrow> s | None \<Rightarrow> ''(null)'')"
| "item_put fmt_g n (L_string v) = put_text n v"
| "item_put fmt_g n (L_StringPiece v) = put_text n v"
| "item_put fmt_g n (L_Buffer v) = put_text n (fb_toString v)"
| "item_put fmt_g n (L_Fmt v) = put_text n (fmt_text v)"

lemma word_range:
  fixes v :: "'a::len word"
  assumes "LENGTH('a) \<le> 64"
  shows "\<bar>sint v\<bar> < 2 ^ 64" and "\<bar>uint v\<bar> < 2 ^ 64"
proof -
  have "(2 :: int) ^ (LENGTH('a) - 1) < 2 ^ 64"
    using assms by (intro power_strict_increasing) simp_all
  moreover have "(2 :: int) ^ LENGTH('a) \<le> 2 ^ 64"
    using assms by (intro power_increasing) simp_all
  ultimately show "\<bar>sint v\<bar> < 2 ^ 64" "\<bar>uint v\<bar> < 2 ^ 64"
    using sint_lt [of v] sint_ge [of v] unsigned_less [where 'a = int and w = v]
      unsigned_greater_eq [where 'a = int and w = v]
    by (simp_all only: abs_less_iff) linarith+
qed

lemma short_casts:
  "sint (scast (v :: 16 word) :: 32 word) = sint v" "uint (ucast (v :: 16 word) :: 32 word) = uint v"
  by (simp_all add: sint_up_scast uint_up_ucast is_up)

lemmas stream_defs = shl_bool_def shl_short_def shl_ushort_def shl_int_def shl_uint_def shl_long_def
  shl_ulong_def shl_llong_def shl_ullong_def shl_char_def shl_cstr_def shl_string_def
  shl_StringPiece_def shl_Buffer_def shl_Fmt_def

lemma shl_holds:
  assumes "holds n xs b" and "\<And>v. length (fmt_g v) < 32"
  shows "ends {} (shl fmt_g i b) (holds n (item_put fmt_g n i xs))"
  using fb_append_holds [OF assms(1)] formatInteger_holds [OF assms(1)] shl_ptr_holds [OF assms(1)]
    shl_double_holds [where fmt_g = fmt_g, OF assms(1) assms(2)]
  by (cases i) (simp_all add: stream_defs short_casts word_range [simplified] split: option.split)

lemma stream_holds:
  assumes "\<And>v. length (fmt_g v) < 32" and "holds n xs b"
  shows "ends {} (foldR (shl fmt_g) items b) (holds n (fold (item_put fmt_g n) items xs))"
  using assms(2)
proof (induction items arbitrary: b xs)
  case (Cons i items)
  have "ends {} (bindR (shl fmt_g i b) (foldR (shl fmt_g) items))
      (holds n (fold (item_put fmt_g n) items (item_put fmt_g n i xs)))"
    by (rule ends_bind [OF shl_holds [where fmt_g = fmt_g, OF Cons.prems assms(1)]]) (rule Cons.IH)
  then show ?case by simp
qed simp

lemma new_holds: "0 < length mem \<Longrightarrow> length mem < 2147483648 \<Longrightarrow> holds (length mem) [] (FixedBuffer_new mem)"
  by (simp add: holds_def fb_ok_def fb_toString_def fb_length_def FixedBuffer_new_def)

text \<open>
  \<^bold>\<open>C10\<close>: a stream buffer is typed by its size. From a fresh buffer of \<open>n > 0\<close> bytes (below 2 GiB), every sequence of
  insertions, of values of all the types \<open>operator<<\<close> takes, succeeds without writing outside the array.
  It keeps the array's size and leaves a byte free, so that \<open>debugString\<close> stays inside the array too. The contents are
  those of the specification: each text (decimal for the integers of every width, the most negative one
  included; hexadecimal for pointers) is appended whole or not at all, numbers needing 32 free bytes and
  other texts one byte more than their length. The text of a double with \<open>%.12g\<close> is
  assumed shorter than 32 characters, as that format's definition gives.
\<close>

theorem stream_well_typed:
  assumes "0 < n" and "n < 2147483648" and "length mem = n" and "\<And>v. length (fmt_g v) < 32"
  shows "\<exists>b. foldR (shl fmt_g) items (FixedBuffer_new mem) = Inr b
     \<and> length (fb_data b) = n \<and> fb_cur b < n
     \<and> fb_toString b = fold (item_put fmt_g n) items []
     \<and> (\<exists>r. debugString b = Inr r)"
proof -
  have "holds n [] (FixedBuffer_new mem)" using assms(1-3) new_holds by blast
  from stream_holds [where fmt_g = fmt_g, OF assms(4) this] obtain b where b: "foldR (shl fmt_g) items (FixedBuffer_new mem) = Inr b"
    "holds n (fold (item_put fmt_g n) items []) b"
    by (auto simp: ends_empty)
  then have "fb_cur b < n" "length (fb_data b) = n" "fb_toString b = fold (item_put fmt_g n) items []"
    by (auto simp: holds_def fb_ok_def)
  then show ?thesis using b(1) by (simp add: debugString_def fb_write_def)
qed

lemma stream_well_typed_witness:
  "\<exists>b. foldR (shl (\<lambda>_ :: unit. ''1.5'')) [L_string ''x='', L_int (- 2147483648), L_ptr 255, L_string ''tail'']
       (FixedBuffer_new (replicate 44 CHR ''?'')) = Inr b
     \<and> fb_toString b = ''x=-2147483648tail''"
proof -
  let ?items = "[L_string ''x='', L_int (- 2147483648), L_ptr 255, L_string ''tail'']"
  have "int_digits (- 2147483648) = ''-2147483648''"
    by (simp add: int_digits_def nat_digits.simps char_of_def bit_Suc_0_iff)
  moreover have "sint (- 2147483648 :: 32 word) = - 2147483648" by simp
  ultimately have "fold (item_put (\<lambda>_ :: unit. ''1.5'') 44) ?items [] = ''x=-2147483648tail''"
    by (simp add: put_text_def put_number_def)
  moreover have "\<exists>b. foldR (shl (\<lambda>_ :: unit. ''1.5'')) ?items (FixedBuffer_new (replicate 44 CHR ''?'')) = Inr b
     \<and> length (fb_data b) = 44 \<and> fb_cur b < 44
     \<and> fb_toString b = fold (item_put (\<lambda>_ :: unit. ''1.5'') 44) ?items []
     \<and> (\<exists>r. debugString b = Inr r)"
    by (rule stream_well_typed) simp_all
  ultimately show ?thesis by metis
qed

section \<open>How long a quantity with a unit is\<close>

lemma round_even_le:
  assumes "q < of_int m + 1 / 2"
  shows "round_even q \<le> m"
proof (cases "\<lfloor>q\<rfloor> < m")
  case False
  then have "\<lfloor>q\<rfloor> = m" using assms by linarith
  then show ?thesis using assms by (simp add: round_even_def Let_def)
qed (simp add: round_even_def Let_def)

lemma round_even_near: "\<bar>of_int (round_even q) - q\<bar> \<le> 1 / 2"
proof -
  define f :: rat where "f = of_int \<lfloor>q\<rfloor>"
  have "f \<le> q" "q < f + 1" unfolding f_def by linarith+
  moreover have "of_int (round_even q) = f \<and> q - f \<le> 1 / 2 \<or> of_int (round_even q) = f + 1 \<and> 1 / 2 \<le> q - f"
    unfolding round_even_def Let_def f_def by auto
  ultimately show ?thesis by linarith
qed

lemma round_even_mono_nonneg: "0 \<le> q \<Longrightarrow> 0 \<le> round_even q"
  by (auto simp: round_even_def Let_def)

lemma pow2_pos [simp]: "0 < pow2 e"
  by (simp add: pow2_def)

lemma pow2_add: "pow2 (a + b) = pow2 a * pow2 b"
proof -
  have "(2 :: rat) powi (a + b) = 2 powi a * 2 powi b" by (simp add: power_int_add)
  moreover have "pow2 e = 2 powi e" for e by (simp add: pow2_def power_int_def inverse_eq_divide power_one_over)
  ultimately show ?thesis by simp
qed

lemma num_bits_bounds: "0 < n \<Longrightarrow> pow2 (num_bits n - 1) \<le> of_int n \<and> of_int n + 1 \<le> pow2 (num_bits n)"
proof (induction n rule: num_bits.induct)
  case (1 n)
  show ?case
  proof (cases "n = 1")
    case True
    then show ?thesis by (simp add: num_bits.simps pow2_def)
  next
    case False
    define k m where "k = num_bits (n div 2)" and "m = n div 2"
    have n: "2 * m \<le> n" "n \<le> 2 * m + 1" "0 < m" using False "1.prems" by (simp_all add: m_def)
    have bits: "num_bits n = 1 + k" using "1.prems" by (simp add: num_bits.simps [of n] k_def)
    have "pow2 (k - 1) \<le> of_int m" "of_int m + 1 \<le> pow2 k"
      using "1.IH" "1.prems" n by (simp_all add: k_def m_def)
    moreover have "pow2 k = 2 * pow2 (k - 1)" "pow2 (1 + k) = 2 * pow2 k"
      using pow2_add [of 1 "k - 1"] pow2_add [of 1 k] by (simp_all add: pow2_def)
    ultimately show ?thesis using n bits by simp
  qed
qed

lemma exponent_of_le:
  assumes "0 < q"
  shows "pow2 (exponent_of q) \<le> q"
proof -
  obtain n d where nd: "quotient_of q = (n, d)" by (cases "quotient_of q")
  have d: "0 < d" and q: "q = of_int n / of_int d"
    using quotient_of_denom_pos [OF nd] quotient_of_div [OF nd] by simp_all
  have n: "0 < n" using assms d by (simp add: q zero_less_divide_iff)
  define a b where "a = num_bits n" and "b = num_bits d"
  have bn: "pow2 (a - 1) \<le> of_int n" and bd: "of_int d < pow2 b"
    using num_bits_bounds [OF n] num_bits_bounds [OF d] by (simp_all add: a_def b_def)
  have "pow2 (a - b - 1) * of_int d \<le> pow2 (a - b - 1) * pow2 b" using bd by (simp add: less_imp_le)
  also have "\<dots> = pow2 (a - 1)" by (simp flip: pow2_add add: algebra_simps)
  also have "\<dots> \<le> of_int n" by (rule bn)
  finally have "pow2 (a - b - 1) \<le> q" using d by (simp add: q pos_le_divide_eq)
  then show ?thesis by (simp add: exponent_of_def nd a_def b_def Let_def not_less)
qed

text \<open>A double is within one part in \<open>2 ^ 53\<close> of the number it stands for.\<close>

lemma dbl_le:
  assumes "0 < q"
  shows "dbl q \<le> q * (1 + 1 / 2 ^ 53)"
proof -
  define e where "e = exponent_of q"
  define x where "x = q * pow2 (52 - e)"
  have inv: "pow2 (52 - e) * pow2 (e - 52) = 1" by (simp flip: pow2_add) (simp add: pow2_def)
  have "pow2 e * pow2 (52 - e) \<le> x" using exponent_of_le [OF assms] by (simp add: x_def e_def)
  then have "2 ^ 52 \<le> x" by (simp flip: pow2_add) (simp add: pow2_def)
  then have "of_int (round_even x) \<le> x * (1 + 1 / 2 ^ 53)"
    using round_even_near [of x] by (simp add: abs_if split: if_splits)
  then have "of_int (round_even x) * pow2 (e - 52) \<le> x * (1 + 1 / 2 ^ 53) * pow2 (e - 52)" by simp
  also have "\<dots> = q * (1 + 1 / 2 ^ 53)" using inv by (simp add: x_def mult.assoc mult.left_commute mult.commute)
  finally show ?thesis using assms by (simp add: dbl_def Let_def x_def e_def)
qed

lemma dbl_nonneg: "0 \<le> q \<Longrightarrow> 0 \<le> dbl q"
  by (auto simp: dbl_def Let_def intro!: mult_nonneg_nonneg round_even_mono_nonneg simp: less_imp_le)

lemma length_fmt_f:
  assumes "0 \<le> x" and "x * 10 ^ d < of_int m + 1 / 2" and "0 \<le> m" and "0 < k"
    and "nat m < 10 ^ (d + k)"
  shows "length (fmt_f d x) \<le> (if d = 0 then k else k + d + 1)"
proof -
  define r where "r = nat (round_even (x * 10 ^ d))"
  have "r < 10 ^ (d + k)" using round_even_le [OF assms(2)] assms(3,5) by (simp add: r_def)
  then have "r div 10 ^ d < 10 ^ k" by (simp add: power_add less_mult_imp_div_less mult.commute)
  then have whole: "length (nat_digits (r div 10 ^ d)) \<le> k" using length_nat_digits assms(4) by blast
  have frac: "length (nat_digits (r mod 10 ^ d)) \<le> d" if "d \<noteq> 0"
    using that by (intro length_nat_digits) simp_all
  show ?thesis unfolding fmt_f_def Let_def r_def [symmetric] using whole frac by (cases "d = 0") simp_all
qed

text \<open>
  \<open>n / u\<close> is at most two roundings away from \<open>s / u\<close>, so it stays below a threshold that \<open>s\<close> is
  below by more than that.
\<close>

definition slack :: rat where
  "slack = 1 + 1 / 2 ^ 53"

lemma slack_pos [simp]: "0 < slack" and dbl_slack: "0 < q \<Longrightarrow> dbl q \<le> q * slack"
  using dbl_le by (simp_all add: slack_def)

lemma dbl_quot_less:
  assumes "0 < s" and "0 < u" and "s * slack * slack < t * u"
  shows "0 \<le> dbl (dbl s / u) \<and> dbl (dbl s / u) < t"
proof (cases "dbl s = 0")
  case True
  have "0 < s * slack * slack" using assms(1) by simp
  then have "0 < t * u" using assms(3) by linarith
  then show ?thesis using True assms(2) by (simp add: dbl_def zero_less_mult_iff)
next
  case False
  then have pos: "0 < dbl s" using dbl_nonneg [of s] assms(1) by simp
  have "dbl (dbl s / u) \<le> dbl s / u * slack" using pos assms(2) by (intro dbl_slack) simp
  also have "\<dots> \<le> s * slack / u * slack"
    using dbl_slack [OF assms(1)] assms(2) by (intro mult_right_mono divide_right_mono) (simp_all add: less_imp_le)
  also have "\<dots> < t" using assms(2,3) by (simp add: pos_divide_less_eq mult.commute mult.left_commute)
  finally show ?thesis using dbl_nonneg [of "dbl s / u"] pos assms(2) by simp
qed

lemma length_three_digits:
  assumes "0 < s" and "0 < u" and "d \<le> 2" and "s * slack * slack < 1999 / 2 / 10 ^ d * u"
  shows "length (fmt_f d (dbl (dbl s / u))) \<le> 4"
proof -
  have x: "0 \<le> dbl (dbl s / u)" "dbl (dbl s / u) * 10 ^ d < of_int 999 + 1 / 2"
    using dbl_quot_less [OF assms(1,2,4)] by (simp_all add: pos_less_divide_eq)
  have "length (fmt_f d (dbl (dbl s / u))) \<le> (if d = 0 then 3 - d else 3 - d + d + 1)"
    by (rule length_fmt_f [OF x]) (use assms(3) in simp_all)
  then show ?thesis using assms(3) by (simp split: if_splits)
qed

lemma length_four_digits:
  assumes "0 < s" and "0 < u" and "s * slack * slack < 2047 / 2 * u"
  shows "length (fmt_f 0 (dbl (dbl s / u))) \<le> 4"
proof -
  have x: "0 \<le> dbl (dbl s / u)" "dbl (dbl s / u) * 10 ^ 0 < of_int 1023 + 1 / 2"
    using dbl_quot_less [OF assms] by simp_all
  show ?thesis using length_fmt_f [OF x, of 4] by simp
qed

text \<open>The distance \<open>\<delta>\<close> to the threshold is larger than two roundings.\<close>

lemma slack_less:
  assumes "0 < s" and "of_int s + \<delta> \<le> (t :: rat)" and "t \<le> \<delta> * (10 ^ 15 * 9 / 2)" and "0 < \<delta>"
  shows "of_int s * slack * slack < t"
proof -
  have "slack * slack < 1 + 1 / (10 ^ 15 * 9 / 2)" by (simp add: slack_def)
  then have "of_int s * (slack * slack) < of_int s * (1 + 1 / (10 ^ 15 * 9 / 2))" using assms(1) by simp
  also have "\<dots> = of_int s + of_int s / (10 ^ 15 * 9 / 2)" by (simp add: distrib_left)
  also have "\<dots> \<le> of_int s + \<delta>" using assms by simp
  finally show ?thesis using assms(2) by (simp add: mult.assoc)
qed

lemma length_small: "0 \<le> s \<Longrightarrow> s < 1000 \<Longrightarrow> length (int_digits s) \<le> 3" "0 \<le> s \<Longrightarrow> s < 10000 \<Longrightarrow> length (int_digits s) \<le> 4"
  using length_nat_digits [of 3 "nat s"] length_nat_digits [of 4 "nat s"] by (simp_all add: int_digits_def)

lemma length_if_le:
  "(c \<Longrightarrow> length a \<le> n) \<Longrightarrow> (\<not> c \<Longrightarrow> length b \<le> n) \<Longrightarrow> length (if c then a else b) \<le> n"
  by simp

lemma formatSI_three:
  assumes "s < b" and "\<not> s < 1000" and "d \<le> 2" and "of_int b = (1999 / 2 / 10 ^ d * 10 ^ k :: rat)" and "b \<le> 10 ^ 15"
  shows "length (fmt_f d (dbl (dbl (of_int s) / 10 ^ k)) @ [c]) \<le> 5"
proof -
  have "of_int s + 1 \<le> (of_int b :: rat)" using assms(1) by linarith
  moreover have "of_int b \<le> (of_int (10 ^ 15) :: rat)" using assms(5) by (simp only: of_int_le_iff)
  ultimately have "of_int s * slack * slack < 1999 / 2 / 10 ^ d * 10 ^ k"
    using slack_less [of s 1 "of_int b"] assms(2,4) by simp
  then show ?thesis using length_three_digits [of "of_int s" "10 ^ k" d] assms(2,3) by simp
qed

lemma formatSI_short:
  assumes "0 \<le> s" and "s < 999500000000000"
  shows "length (formatSI s) \<le> 5"
  unfolding formatSI_def Let_def
  apply (intro length_if_le)
  subgoal using length_small(1) [OF assms(1)] by simp
  apply (rule formatSI_three, assumption, assumption, simp, simp, simp)+
  using assms(2) by simp_all

lemma round_even_of_int [simp]: "round_even (of_int m) = m"
  by (simp add: round_even_def Let_def)

lemma pow2_nonneg: "0 \<le> e \<Longrightarrow> pow2 e = of_int (2 ^ nat e)"
  by (simp add: pow2_def)

lemma pow2_less: "pow2 a < pow2 b \<Longrightarrow> a < b"
proof (rule ccontr)
  assume "pow2 a < pow2 b" "\<not> a < b"
  moreover then have "pow2 a = pow2 b * 2 ^ nat (a - b)" using pow2_add [of b "a - b"] by (simp add: pow2_def [of "a - b"])
  moreover have "1 \<le> (2 :: rat) ^ nat (a - b)" by simp
  ultimately show False using mult_left_mono [of 1 "2 ^ nat (a - b)" "pow2 b"] by (simp add: less_imp_le)
qed

text \<open>Integers of at most 53 bits are doubles.\<close>

lemma dbl_int:
  assumes "0 < s" and "s < 2 ^ 53"
  shows "dbl (of_int s) = of_int s"
proof -
  define e where "e = exponent_of (of_int s)"
  have "pow2 e \<le> of_int s" using assms(1) by (simp add: e_def exponent_of_le)
  also have "of_int s < pow2 53" using assms(2) by (simp add: pow2_def)
  finally have "0 \<le> 52 - e" using pow2_less [of e 53] by simp
  then have "of_int s * pow2 (52 - e) = of_int (s * 2 ^ nat (52 - e))" by (simp add: pow2_nonneg)
  then have "of_int (round_even (of_int s * pow2 (52 - e))) = of_int s * pow2 (52 - e)"
    by (metis round_even_of_int)
  moreover have "pow2 (52 - e) * pow2 (e - 52) = 1" by (simp flip: pow2_add) (simp add: pow2_def)
  ultimately show ?thesis using assms(1) by (simp add: dbl_def Let_def e_def mult.assoc)
qed

lemma iec_units: "Mi = 1048576" "Gi = 1073741824" "Ti = 1099511627776"
  by code_simp+

lemma iec_limits:
  "dbl (Ki * dbl (9995 / 1000)) = 5626684784446013 / 549755813888"
  "dbl (Ki * dbl (9995 / 100)) = 7033355980557517 / 68719476736"
  "dbl (Ki * dbl (10235 / 10)) = 1048064"
  "dbl (Mi * dbl (9995 / 1000)) = 5626684784446013 / 536870912"
  "dbl (Mi * dbl (9995 / 100)) = 7033355980557517 / 67108864"
  "dbl (Mi * dbl (10235 / 10)) = 1073217536"
  "dbl (Gi * dbl (9995 / 1000)) = 5626684784446013 / 524288"
  "dbl (Gi * dbl (9995 / 100)) = 7033355980557517 / 65536"
  "dbl (Gi * dbl (10235 / 10)) = 1098974756864"
  "dbl (Ti * dbl (9995 / 1000)) = 5626684784446013 / 512"
  "dbl (Ti * dbl (9995 / 100)) = 7033355980557517 / 64"
  "dbl (Ti * dbl (10235 / 10)) = 1125350151028736"
  by code_simp+

lemma iec_three:
  assumes "of_int s < (L :: rat)" and "\<not> of_int s < Ki" and "dbl (of_int s) = of_int s" and "d \<le> 2" and "0 < u"
    and "L < of_int m + 1" and "of_int m + 1 / 10 \<le> (1999 / 2 / 10 ^ d * u :: rat)" and "1999 / 2 / 10 ^ d * u \<le> 2 * 10 ^ 14"
  shows "length (fmt_f d (dbl (of_int s / u)) @ [c, CHR ''i'']) \<le> 6"
proof -
  have s: "0 < s" using assms(2) by (simp add: Ki_def not_less)
  have "(of_int s :: rat) < of_int (m + 1)" using assms(1,6) by simp
  then have "s \<le> m" by simp
  then have "of_int s * slack * slack < 1999 / 2 / 10 ^ d * u"
    using slack_less [of s "1 / 10" "1999 / 2 / 10 ^ d * u"] s assms(7,8) by simp
  then show ?thesis using length_three_digits [of "of_int s" u d] s assms(3,4,5) by simp
qed

lemma iec_four:
  assumes "of_int s < (L :: rat)" and "\<not> of_int s < Ki" and "dbl (of_int s) = of_int s" and "0 < u" and "L = of_int b" and "L = 2047 / 2 * u" and "b \<le> 10 ^ 15 * 2"
  shows "length (fmt_f 0 (dbl (of_int s / u)) @ [c, CHR ''i'']) \<le> 6"
proof -
  have s: "0 < s" using assms(2) by (simp add: Ki_def not_less)
  have "s < b" using assms(1,5) by simp
  then have "of_int s + 1 \<le> (of_int b :: rat)" by linarith
  moreover have "of_int b \<le> (of_int (10 ^ 15 * 2) :: rat)" using assms(7) by (simp only: of_int_le_iff)
  ultimately have "of_int s * slack * slack < 2047 / 2 * u"
    using slack_less [of s 1 "of_int b"] s assms(5,6) by simp
  then show ?thesis using length_four_digits [of "of_int s" u] s assms(3,4) by simp
qed

lemma formatIEC_short:
  assumes "0 \<le> s" and "s < 1125350151028736"
  shows "length (formatIEC s) \<le> 6"
proof (cases "s = 0")
  case True
  then show ?thesis by (simp add: formatIEC_def dbl_def Ki_def length_small(2) [THEN order_trans])
next
  case False
  then have n: "dbl (of_int s) = of_int s" using assms by (intro dbl_int) simp_all
  have lt: "(of_int s :: rat) < 1125350151028736" using assms(2) by linarith
  show ?thesis
    unfolding formatIEC_def Let_def n iec_limits
    apply (intro length_if_le)
    subgoal using length_small(2) [OF assms(1)] by (simp add: Ki_def)
    subgoal by (rule iec_three [where m = 10234], assumption, assumption, rule n) (simp_all (no_asm) add: Ki_def)
    subgoal by (rule iec_three [where m = 102348], assumption, assumption, rule n) (simp_all (no_asm) add: Ki_def)
    subgoal by (rule iec_four [where b = 1048064], assumption, assumption, rule n) (simp_all (no_asm) add: Ki_def)
    subgoal by (rule iec_three [where m = 10480517], assumption, assumption, rule n) (simp_all (no_asm) add: iec_units)
    subgoal by (rule iec_three [where m = 104805171], assumption, assumption, rule n) (simp_all (no_asm) add: iec_units)
    subgoal by (rule iec_four [where b = 1073217536], assumption, assumption, rule n) (simp_all (no_asm) add: iec_units)
    subgoal by (rule iec_three [where m = 10732049530], assumption, assumption, rule n) (simp_all (no_asm) add: iec_units)
    subgoal by (rule iec_three [where m = 107320495308], assumption, assumption, rule n) (simp_all (no_asm) add: iec_units)
    subgoal by (rule iec_four [where b = 1098974756864], assumption, assumption, rule n) (simp_all (no_asm) add: iec_units)
    subgoal by (rule iec_three [where m = 10989618719621], assumption, assumption, rule n) (simp_all (no_asm) add: iec_units)
    subgoal by (rule iec_three [where m = 109896187196211], assumption, assumption, rule n) (simp_all (no_asm) add: iec_units)
    subgoal by (rule iec_four [where b = 1125350151028736], assumption, assumption, rule n) (simp_all (no_asm) add: iec_units)
    by (erule notE, rule lt)+
qed

text \<open>
  \<^bold>\<open>C30\<close>: below \<open>999.5T\<close>, \<open>formatSI\<close> prints a quantity in at most 5 characters and \<open>formatIEC\<close> in at most
  6, as the comments of \<open>LogStream.h\<close> promise: no rounding of the double quotient reaches the next power of ten.
\<close>

theorem formatted_lengths:
  assumes "0 \<le> s" and "s < 999500000000000"
  shows "length (formatSI s) \<le> 5 \<and> length (formatIEC s) \<le> 6"
  using formatSI_short [OF assms] formatIEC_short [of s] assms by simp

lemma formatted_lengths_witness:
  "length (formatSI 999499999999999) \<le> 5 \<and> length (formatIEC 999499999999999) \<le> 6"
  using formatted_lengths [of 999499999999999] by simp

text \<open>
  \<^bold>\<open>C40\<close>: the promise of \<open>formatSI\<close> fails for larger quantities. \<open>99949999999999999\<close> is below the
  bound \<open>99950000000000000\<close> that selects one decimal, but the double nearest to it is \<open>99950000000000000\<close>, and the double nearest to that over
  \<open>1e15\<close> prints as \<open>100.0\<close>: six characters with the unit.
\<close>

theorem formatSI_six_characters:
  "formatSI 99949999999999999 = ''100.0P''"
proof -
  have "round_even (dbl (dbl (of_int 99949999999999999) / 10 ^ 15) * 10 ^ 1) = 1000" by code_simp
  then have "fmt_f 1 (dbl (dbl (of_int 99949999999999999) / 10 ^ 15)) = ''100.0''"
    unfolding fmt_f_def Let_def by (simp only:) (simp add: nat_digits.simps char_of_def bit_Suc_0_iff)
  then show ?thesis unfolding formatSI_def Let_def by simp
qed

end
