(* ===== verification/Memcached_Store.thy ===== *)
theory Memcached_Store
  imports Net_Lines Base_LogStream
begin

text \<open>
  The table of the memcached server: \<open>src/memcached/server/Item.h\<close> and \<open>Item.cc\<close>, and the storage operations of
  \<open>MemcacheServer.h\<close> and \<open>MemcacheServer.cc\<close>. An \<open>Item\<close> is the record of its members; \<open>data_\<close> is
  a list as long as the allocation, and \<open>malloc\<close> is assumed to succeed. An item is not changed any more once
  it is in the table, so a pointer to it is the item itself. A shard is a hash set whose
  elements are compared by key, so it is a map from keys to items; \<open>boost::hash_range\<close> is the parameter \<open>hash\<close>. Each operation
  holds the mutex of its shard from its first access to its last, so it is one step.

  The lemmas show that an item holds its key and its value, and that the sharded table behaves as one map,
  whatever the hash function is.
\<close>

section \<open>Items\<close>

datatype UpdatePolicy = kInvalid | kSet | kAdd | kReplace | kAppend | kPrepend | kCas

record Item =
  keylen :: int
  flags :: "32 word"
  rel_exptime :: int
  valuelen :: int
  receivedBytes :: int
  cas :: "64 word"
  item_hash :: nat
  item_data :: string

definition totalLen :: "Item \<Rightarrow> int" where
  "totalLen it = keylen it + valuelen it"

definition item_key :: "Item \<Rightarrow> string" where
  "item_key it = range_of (item_data it) 0 (nat (keylen it))"

text \<open>The \<open>valuelen_\<close> bytes from \<open>value()\<close> on.\<close>

definition item_value :: "Item \<Rightarrow> string" where
  "item_value it = range_of (item_data it) (nat (keylen it)) (nat (totalLen it))"

definition valueLength :: "Item \<Rightarrow> nat" where
  "valueLength it = to_size (valuelen it)"

definition setCas :: "64 word \<Rightarrow> Item \<Rightarrow> Item" where
  "setCas casArg it = it\<lparr>cas := casArg\<rparr>"

definition neededBytes :: "Item \<Rightarrow> nat" where
  "neededBytes it = to_size (totalLen it - receivedBytes it)"

definition Item_append :: "string \<Rightarrow> Item \<Rightarrow> Item res" where
  "Item_append dat it =
     bindR (assertR (length dat \<le> neededBytes it) ()) (\<lambda>_.
     if nat (receivedBytes it) + length dat > length (item_data it) then Inl UndefinedBehaviour
     else let it = it\<lparr>item_data := overwrite (item_data it) (nat (receivedBytes it)) dat,
                      receivedBytes := receivedBytes it + to_int (int (length dat))\<rparr>
          in assertR (receivedBytes it \<le> totalLen it) it)"

definition endsWithCRLF :: "Item \<Rightarrow> bool" where
  "endsWithCRLF it \<longleftrightarrow> receivedBytes it = totalLen it \<and>
     item_data it ! nat (totalLen it - 2) = CHR 0x0D \<and> item_data it ! nat (totalLen it - 1) = CHR 0x0A"

text \<open>A sum of two \<open>int\<close>s that is not an \<open>int\<close> is undefined; the contents of the new memory do not matter.\<close>

definition Item_new :: "(string \<Rightarrow> nat) \<Rightarrow> string \<Rightarrow> 32 word \<Rightarrow> int \<Rightarrow> int \<Rightarrow> 64 word \<Rightarrow> Item res" where
  "Item_new hash keyArg flagsArg exptimeArg valuelenArg casArg =
     (let it = \<lparr>keylen = int (length keyArg), flags = flagsArg, rel_exptime = exptimeArg, valuelen = valuelenArg,
                receivedBytes = 0, cas = casArg, item_hash = hash keyArg, item_data = []\<rparr>
      in if totalLen it > 2147483647 then Inl UndefinedBehaviour
      else let it = it\<lparr>item_data := replicate (nat (totalLen it)) (char_of (0 :: nat))\<rparr>
      in bindR (assertR (valuelen it \<ge> 2) ()) (\<lambda>_.
         bindR (assertR (receivedBytes it < totalLen it) ()) (\<lambda>_.
         Item_append keyArg it)))"

definition makeItem :: "(string \<Rightarrow> nat) \<Rightarrow> string \<Rightarrow> 32 word \<Rightarrow> int \<Rightarrow> int \<Rightarrow> 64 word \<Rightarrow> Item res" where
  "makeItem hash keyArg flagsArg exptimeArg valuelenArg casArg =
     Item_new hash keyArg flagsArg exptimeArg valuelenArg casArg"

definition resetKey :: "(string \<Rightarrow> nat) \<Rightarrow> string \<Rightarrow> Item \<Rightarrow> Item res" where
  "resetKey hash k it =
     bindR (assertR (length k \<le> 250) ()) (\<lambda>_.
     bindR (Item_append k (it\<lparr>keylen := int (length k), receivedBytes := 0\<rparr>)) (\<lambda>it.
     Inr (it\<lparr>item_hash := hash k\<rparr>)))"

definition Item_output :: "bool \<Rightarrow> Item \<Rightarrow> Buffer \<Rightarrow> Buffer res" where
  "Item_output needCas it out =
     bindR (append_string ''VALUE '' out) (\<lambda>out.
     bindR (append_data (item_key it) (length (item_key it)) out) (\<lambda>out.
     bindR (foldR (shl (\<lambda>_ :: unit. []))
              ([L_char (CHR '' ''), L_uint (flags it), L_char (CHR '' ''), L_int (word_of_int (valuelen it - 2))]
               @ (if needCas then [L_char (CHR '' ''), L_ulong (cas it)] else [])
               @ [L_cstr (Some kCRLF)])
              (FixedBuffer_new (replicate kSmallBuffer (char_of (0 :: nat))))) (\<lambda>buf.
     bindR (append_data (fb_toString buf) (length (fb_toString buf)) out) (\<lambda>out.
     append_data (item_value it) (length (item_value it)) out))))"

section \<open>The server's table\<close>

definition kShards :: nat where
  "kShards = 4096"

record MemcacheServer =
  sv_shards :: "nat \<Rightarrow> string \<rightharpoonup> Item"
  g_cas :: "64 word"
  startTime :: int
  sv_stops :: nat

definition incrementAndGet :: "64 word \<Rightarrow> 64 word" where
  "incrementAndGet v = v + 1"

definition items_of :: "Item \<Rightarrow> 's MemcacheServer_scheme \<Rightarrow> string \<rightharpoonup> Item" where
  "items_of it sv = sv_shards sv (item_hash it mod kShards)"

definition set_items :: "Item \<Rightarrow> (string \<rightharpoonup> Item) \<Rightarrow> 's MemcacheServer_scheme \<Rightarrow> 's MemcacheServer_scheme" where
  "set_items it items sv = sv\<lparr>sv_shards := (sv_shards sv)(item_hash it mod kShards := items)\<rparr>"

definition items_erase :: "Item \<Rightarrow> (string \<rightharpoonup> Item) \<Rightarrow> string \<rightharpoonup> Item" where
  "items_erase it items = items(item_key it := None)"

text \<open>\<open>unordered_set::insert\<close> does nothing when an equal element is there.\<close>

definition items_insert :: "Item \<Rightarrow> (string \<rightharpoonup> Item) \<Rightarrow> string \<rightharpoonup> Item" where
  "items_insert it items = (if items (item_key it) = None then items(item_key it \<mapsto> it) else items)"

text \<open>The item gets the next number and takes the place of the old one, if that is to be erased.\<close>

definition store_new :: "bool \<Rightarrow> Item \<Rightarrow> 's MemcacheServer_scheme \<Rightarrow> 's MemcacheServer_scheme" where
  "store_new erase item sv =
     (let c = incrementAndGet (g_cas sv); item = setCas c item;
          items = (if erase then items_erase item (items_of item sv) else items_of item sv)
      in set_items item (items_insert item items) (sv\<lparr>g_cas := c\<rparr>))"

definition storeItem ::
  "(string \<Rightarrow> nat) \<Rightarrow> Item \<Rightarrow> UpdatePolicy \<Rightarrow> 's MemcacheServer_scheme \<Rightarrow> (bool \<times> bool \<times> 's MemcacheServer_scheme) res" where
  "storeItem hash item policy sv =
     bindR (assertR (neededBytes item = 0) ()) (\<lambda>_.
     let it = items_of item sv (item_key item); exists = (it \<noteq> None)
     in case policy of
       kSet \<Rightarrow> Inr (True, exists, store_new exists item sv)
     | kAdd \<Rightarrow> if exists then Inr (False, exists, sv) else Inr (True, exists, store_new False item sv)
     | kReplace \<Rightarrow> if exists then Inr (True, exists, store_new True item sv) else Inr (False, exists, sv)
     | kCas \<Rightarrow>
         if exists \<and> cas (the it) = cas item then Inr (True, exists, store_new True item sv) else Inr (False, exists, sv)
     | kInvalid \<Rightarrow> Inl AssertFailed
     | _ \<Rightarrow>
         (case it of
            None \<Rightarrow> Inr (False, exists, sv)
          | Some oldItem \<Rightarrow>
              let newLen = to_int (int ((valueLength item + valueLength oldItem - 2) mod two64));
                  c = incrementAndGet (g_cas sv)
              in bindR (makeItem hash (item_key item) (flags oldItem) (rel_exptime oldItem) newLen c) (\<lambda>newItem.
                 bindR (if policy = kAppend
                        then bindR (Item_append (take (valueLength oldItem - 2) (item_value oldItem)) newItem)
                               (Item_append (item_value item))
                        else bindR (Item_append (take (valueLength item - 2) (item_value item)) newItem)
                               (Item_append (item_value oldItem))) (\<lambda>newItem.
                 bindR (assertR (neededBytes newItem = 0) ()) (\<lambda>_.
                 bindR (assertR (endsWithCRLF newItem) ()) (\<lambda>_.
                 Inr (True, exists,
                      set_items item (items_insert newItem (items_erase item (items_of item sv))) (sv\<lparr>g_cas := c\<rparr>))))))))"

definition getItem :: "Item \<Rightarrow> 's MemcacheServer_scheme \<Rightarrow> Item option" where
  "getItem key sv = items_of key sv (item_key key)"

definition deleteItem :: "Item \<Rightarrow> 's MemcacheServer_scheme \<Rightarrow> bool \<times> 's MemcacheServer_scheme" where
  "deleteItem key sv =
     (items_of key sv (item_key key) \<noteq> None, set_items key (items_erase key (items_of key sv)) sv)"

section \<open>What an item holds\<close>

text \<open>\<open>item_at hash k n v it\<close>: the item has the key \<open>k\<close>, room for a value of \<open>n\<close> bytes, and has received the bytes \<open>v\<close> of it.\<close>

definition item_at :: "(string \<Rightarrow> nat) \<Rightarrow> string \<Rightarrow> nat \<Rightarrow> string \<Rightarrow> Item \<Rightarrow> bool" where
  "item_at hash k n v it \<longleftrightarrow> keylen it = int (length k) \<and> valuelen it = int n \<and> 2 \<le> n \<and>
     length k + n \<le> 2147483647 \<and> receivedBytes it = int (length k + length v) \<and> length v \<le> n \<and>
     item_hash it = hash k \<and> length k + n \<le> length (item_data it) \<and>
     take (length k + length v) (item_data it) = k @ v"

lemma item_at_simps:
  assumes "item_at hash k n v it"
  shows "neededBytes it = n - length v" and "totalLen it = int (length k + n)" and "valueLength it = n"
    and "item_key it = k" and "item_hash it = hash k"
    and "length v = n \<Longrightarrow> item_value it = v"
proof -
  have a: "length k + n \<le> 2147483647" "length v \<le> n" "keylen it = int (length k)" "valuelen it = int n"
    "receivedBytes it = int (length k + length v)" "take (length k + length v) (item_data it) = k @ v"
    using assms by (auto simp: item_at_def)
  show t: "totalLen it = int (length k + n)" "valueLength it = n"
    using a by (simp_all add: totalLen_def valueLength_def two64_def)
  have "totalLen it - receivedBytes it = int (n - length v)" using a t by simp
  then show "neededBytes it = n - length v" using a unfolding neededBytes_def by (simp add: two64_def)
  have "take (length k) (item_data it) = take (length k) (take (length k + length v) (item_data it))" by simp
  then have "take (length k) (item_data it) = k" unfolding a(6) by simp
  then show "item_key it = k" using a(3) by (simp add: item_key_def range_of_def)
  show "item_hash it = hash k" using assms by (simp add: item_at_def)
  assume "length v = n"
  moreover have "take (length v) (drop (length k) (item_data it)) = drop (length k) (take (length k + length v) (item_data it))"
    by (simp add: drop_take)
  ultimately show "item_value it = v" using a t by (simp add: item_value_def range_of_def nat_int_add)
qed

lemma Item_append_ok:
  assumes "item_at hash k n v it" and "length v + length d \<le> n"
  shows "\<exists>it'. Item_append d it = Inr it' \<and> item_at hash k n (v @ d) it' \<and>
    flags it' = flags it \<and> rel_exptime it' = rel_exptime it \<and> cas it' = cas it"
proof -
  let ?r = "length k + length v"
  have a: "length k + n \<le> 2147483647" "length k + n \<le> length (item_data it)" "receivedBytes it = int ?r"
    "take ?r (item_data it) = k @ v"
    using assms by (auto simp: item_at_def)
  let ?it = "it\<lparr>item_data := overwrite (item_data it) ?r d, receivedBytes := int (?r + length d)\<rparr>"
  have i: "to_int (int (length d)) = int (length d)" "totalLen ?it = int (length k + n)"
    "nat (int (length k) + int (length v)) = ?r"
    using a assms item_at_simps(2) [OF assms(1)] by (simp_all add: totalLen_def)
  have "Item_append d it = Inr ?it"
    using assms(2) a i item_at_simps(1) [OF assms(1)]
    by (simp add: Item_append_def Let_def add.assoc)
  moreover have "take (?r + length d) (overwrite (item_data it) ?r d) = k @ v @ d"
    using a assms(2) by (simp add: overwrite_def)
  then have "item_at hash k n (v @ d) ?it"
    using assms a(2) by (auto simp: item_at_def add.assoc)
  ultimately show ?thesis by simp
qed

lemma makeItem_ok:
  assumes "2 \<le> n" and "length k + n \<le> 2147483647"
  shows "\<exists>it. makeItem hash k f x (int n) c = Inr it \<and> item_at hash k n [] it \<and> flags it = f \<and> rel_exptime it = x \<and> cas it = c"
proof -
  let ?it = "\<lparr>keylen = int (length k), flags = f, rel_exptime = x, valuelen = int n, receivedBytes = 0, cas = c,
    item_hash = hash k, item_data = replicate (length k + n) (char_of (0 :: nat))\<rparr>"
  let ?it' = "?it\<lparr>item_data := overwrite (item_data ?it) 0 k, receivedBytes := int (length k)\<rparr>"
  have i: "to_int (int (length k)) = int (length k)" "nat (int (length k) + int n) = length k + n"
    "to_size (int (length k) + int n) = length k + n"
    using assms by (simp_all add: two64_def nat_int_add)
  have "makeItem hash k f x (int n) c = Item_append k ?it"
    using assms i by (simp add: makeItem_def Item_new_def Let_def totalLen_def)
  also have "\<dots> = Inr ?it'"
    using assms i by (simp add: Item_append_def Let_def totalLen_def neededBytes_def)
  finally show ?thesis using assms by (simp add: item_at_def overwrite_def)
qed

lemma resetKey_ok:
  assumes "length k \<le> 250" and "valuelen it = 2" and "252 \<le> length (item_data it)"
  shows "\<exists>it'. resetKey hash k it = Inr it' \<and> item_at hash k 2 [] it' \<and> length (item_data it') = length (item_data it)"
proof -
  let ?it = "it\<lparr>keylen := int (length k), receivedBytes := 0\<rparr>"
  let ?it' = "?it\<lparr>item_data := overwrite (item_data it) 0 k, receivedBytes := int (length k)\<rparr>"
  have i: "to_int (int (length k)) = int (length k)" "to_size (int (length k) + 2) = length k + 2"
    using assms by (simp_all add: two64_def nat_add_distrib)
  have "Item_append k ?it = Inr ?it'"
    using assms i by (simp add: Item_append_def Let_def totalLen_def neededBytes_def)
  then show ?thesis using assms by (simp add: resetKey_def item_at_def overwrite_def)
qed

lemma endsWithCRLF_iff:
  assumes "item_at hash k n v it" and "length v = n"
  shows "endsWithCRLF it \<longleftrightarrow> drop (n - 2) v = kCRLF"
proof -
  have "2 \<le> n" and t: "take (length k + n) (item_data it) = k @ v"
    using assms by (auto simp: item_at_def)
  then obtain m where n: "n = m + 2" by (metis le_add_diff_inverse2)
  have l: "length k + n \<le> length (item_data it)" "receivedBytes it = totalLen it"
    using assms item_at_simps(2) [OF assms(1)] by (auto simp: item_at_def)
  have nth: "item_data it ! (length k + j) = v ! j" if "j < n" for j
  proof -
    have "item_data it ! (length k + j) = take (length k + n) (item_data it) ! (length k + j)" using that by simp
    then show ?thesis unfolding t by simp
  qed
  have "nat (totalLen it - 2) = length k + m" "nat (totalLen it - 1) = length k + (m + 1)"
    using item_at_simps(2) [OF assms(1)] n by (simp_all add: nat_int_add)
  then have "endsWithCRLF it \<longleftrightarrow> v ! m = CHR 0x0D \<and> v ! (m + 1) = CHR 0x0A"
    using n l nth [of m] nth [of "m + 1"] by (simp only: endsWithCRLF_def) simp
  moreover have "drop m v = [v ! m, v ! (m + 1)]"
    using assms(2) n Cons_nth_drop_Suc [of m v] Cons_nth_drop_Suc [of "m + 1" v] by simp
  ultimately show ?thesis using n by (simp add: kCRLF_def)
qed

section \<open>The table is one map\<close>

text \<open>
  The abstract store maps a key to its flags, expiry time, value (with its CR LF) and number. \<open>represents hash m sv\<close>:
  every key is in the shard of its hash, with the entry \<open>m\<close> has for it.
\<close>

type_synonym kv_entry = "32 word \<times> int \<times> string \<times> 64 word"

definition entry_of :: "Item \<Rightarrow> kv_entry" where
  "entry_of it = (flags it, rel_exptime it, item_value it, cas it)"

definition item_full :: "(string \<Rightarrow> nat) \<Rightarrow> string \<Rightarrow> kv_entry \<Rightarrow> Item \<Rightarrow> bool" where
  "item_full hash k e it \<longleftrightarrow> (case e of (f, x, v, c) \<Rightarrow>
     item_at hash k (length v) v it \<and> flags it = f \<and> rel_exptime it = x \<and> cas it = c \<and> drop (length v - 2) v = kCRLF)"

definition represents :: "(string \<Rightarrow> nat) \<Rightarrow> (string \<rightharpoonup> kv_entry) \<Rightarrow> 's MemcacheServer_scheme \<Rightarrow> bool" where
  "represents hash m sv \<longleftrightarrow> (\<forall>k. rel_option (item_full hash k) (m k) (sv_shards sv (hash k mod kShards) k))"

lemma item_full_simps:
  assumes "item_full hash k e it"
  shows "item_key it = k" and "item_hash it = hash k" and "entry_of it = e"
  using assms item_at_simps [of hash k] by (auto simp: item_full_def entry_of_def split: prod.splits)

lemma setCas_full: "item_full hash k (f, x, v, c) it \<Longrightarrow> item_full hash k (f, x, v, c') (setCas c' it)"
  by (simp add: item_full_def setCas_def item_at_def)

lemma represents_lookup:
  assumes "represents hash m sv" and "item_at hash k n v it"
  shows "rel_option (item_full hash k) (m k) (items_of it sv (item_key it))"
  using assms item_at_simps [OF assms(2)] by (simp add: represents_def items_of_def)

lemma represents_set:
  assumes "represents hash m sv" and "item_at hash k n v it" and "item_full hash k e new"
    and "item_key key = k" and "erase \<or> m k = None"
  shows "represents hash (m(k \<mapsto> e))
    (set_items it (items_insert new (if erase then items_erase key (items_of it sv) else items_of it sv)) (sv\<lparr>g_cas := g\<rparr>))"
proof -
  have "items_of it sv k = None" if "\<not> erase"
    using represents_lookup [OF assms(1,2)] assms(5) that item_at_simps(4) [OF assms(2)] by simp
  then have items: "items_insert new (if erase then items_erase key (items_of it sv) else items_of it sv)
      = (items_of it sv)(k \<mapsto> new)"
    using item_full_simps(1) [OF assms(3)] assms(4) by (auto simp: items_insert_def items_erase_def)
  have h: "item_hash it = hash k" using item_at_simps(5) [OF assms(2)] .
  show ?thesis unfolding items represents_def
  proof
    fix k'
    have "rel_option (item_full hash k') (m k') (sv_shards sv (hash k' mod kShards) k')"
      using assms(1) by (simp add: represents_def)
    then show "rel_option (item_full hash k') ((m(k \<mapsto> e)) k')
        (sv_shards (set_items it ((items_of it sv)(k \<mapsto> new)) (sv\<lparr>g_cas := g\<rparr>)) (hash k' mod kShards) k')"
      using assms(3) h by (cases "k' = k"; cases "hash k' mod kShards = hash k mod kShards"; simp add: set_items_def items_of_def)
  qed
qed

lemma represents_erase:
  assumes "represents hash m sv" and "item_at hash k n v it"
  shows "represents hash (m(k := None)) (set_items it (items_erase it (items_of it sv)) sv)"
  unfolding represents_def
proof
  fix k'
  have "rel_option (item_full hash k') (m k') (sv_shards sv (hash k' mod kShards) k')"
    using assms(1) by (simp add: represents_def)
  then show "rel_option (item_full hash k') ((m(k := None)) k')
      (sv_shards (set_items it (items_erase it (items_of it sv)) sv) (hash k' mod kShards) k')"
    using item_at_simps(4,5) [OF assms(2)]
    by (cases "k' = k"; cases "hash k' mod kShards = hash k mod kShards"; simp add: set_items_def items_of_def items_erase_def)
qed

lemma store_new_ok:
  assumes "represents hash m sv" and "item_full hash k (f, x, v, c) it" and "erase \<or> m k = None"
  shows "represents hash (m(k \<mapsto> (f, x, v, g_cas sv + 1))) (store_new erase it sv)"
proof -
  let ?it = "setCas (g_cas sv + 1) it"
  have full: "item_full hash k (f, x, v, g_cas sv + 1) ?it" by (rule setCas_full [OF assms(2)])
  then have "item_at hash k (length v) v ?it" by (simp add: item_full_def)
  from represents_set [OF assms(1) this full item_full_simps(1) [OF full] assms(3)]
  have "represents hash (m(k \<mapsto> (f, x, v, g_cas sv + 1))) (set_items ?it (items_insert ?it
      (if erase then items_erase ?it (items_of ?it sv) else items_of ?it sv)) (sv\<lparr>g_cas := g_cas sv + 1\<rparr>))" .
  then show ?thesis by (simp only: store_new_def Let_def incrementAndGet_def)
qed

text \<open>The item that \<open>append\<close> and \<open>prepend\<close> build from two values.\<close>

lemma joined_item:
  assumes "length k + length (v @ w) \<le> 2147483647" and "2 \<le> length w" and "drop (length w - 2) w = kCRLF"
  shows "\<exists>it. bindR (bindR (makeItem hash k f x (int (length (v @ w))) c) (Item_append v)) (Item_append w) = Inr it \<and>
    item_full hash k (f, x, v @ w, c) it"
proof -
  obtain a where a: "makeItem hash k f x (int (length (v @ w))) c = Inr a" "item_at hash k (length (v @ w)) [] a"
    "flags a = f" "rel_exptime a = x" "cas a = c"
    using makeItem_ok [of "length (v @ w)" k hash f x c] assms by auto
  obtain b where b: "Item_append v a = Inr b" "item_at hash k (length (v @ w)) v b"
    "flags b = f" "rel_exptime b = x" "cas b = c"
    using Item_append_ok [OF a(2), of v] a by auto
  obtain d where d: "Item_append w b = Inr d" "item_at hash k (length (v @ w)) (v @ w) d"
    "flags d = f" "rel_exptime d = x" "cas d = c"
    using Item_append_ok [OF b(2), of w] b by auto
  have "drop (length (v @ w) - 2) (v @ w) = kCRLF" using assms(2,3) by simp
  then show ?thesis using a(1) b(1) d by (simp add: item_full_def)
qed

lemma whole_item:
  assumes "length k + length v \<le> 2147483647" and "2 \<le> length v" and "drop (length v - 2) v = kCRLF"
  shows "\<exists>it. bindR (makeItem hash k f x (int (length v)) c) (Item_append v) = Inr it \<and> item_full hash k (f, x, v, c) it"
proof -
  obtain a where a: "makeItem hash k f x (int (length v)) c = Inr a" "item_at hash k (length v) [] a"
    "flags a = f" "rel_exptime a = x" "cas a = c"
    using makeItem_ok [OF assms(2,1)] by blast
  then show ?thesis using Item_append_ok [OF a(2), of v] assms(3) by (auto simp: item_full_def)
qed

text \<open>What \<open>storeItem\<close> promises, on the abstract store: the result, and the store with the next number.\<close>

fun kv_store :: "UpdatePolicy \<Rightarrow> string \<Rightarrow> kv_entry \<Rightarrow> (string \<rightharpoonup> kv_entry) \<times> 64 word \<Rightarrow>
    bool \<times> bool \<times> (string \<rightharpoonup> kv_entry) \<times> 64 word" where
  "kv_store policy k (f, x, v, c) (m, g) =
     (let new = (m(k \<mapsto> (f, x, v, g + 1)), g + 1)
      in case m k of
        None \<Rightarrow> if policy = kSet \<or> policy = kAdd then (True, False, new) else (False, False, m, g)
      | Some (f0, x0, v0, c0) \<Rightarrow>
          (case policy of
             kAppend \<Rightarrow> (True, True, m(k \<mapsto> (f0, x0, take (length v0 - 2) v0 @ v, g + 1)), g + 1)
           | kPrepend \<Rightarrow> (True, True, m(k \<mapsto> (f0, x0, take (length v - 2) v @ v0, g + 1)), g + 1)
           | _ \<Rightarrow> if policy = kSet \<or> policy = kReplace \<or> policy = kCas \<and> c0 = c then (True, True, new)
                  else (False, True, m, g)))"

lemma g_cas_simps [simp]: "g_cas (set_items it items sv) = g_cas sv" "g_cas (store_new e it sv) = g_cas sv + 1"
  by (simp_all add: set_items_def store_new_def Let_def incrementAndGet_def)

lemma joined_assoc:
  "bindR (makeItem hash k f x n c) (\<lambda>it. bindR (bindR (Item_append a it) (Item_append b)) F)
   = bindR (bindR (bindR (makeItem hash k f x n c) (Item_append a)) (Item_append b)) F"
  by (cases "makeItem hash k f x n c") (simp_all add: bindR_assoc)

lemma storeItem_join:
  assumes rep: "represents hash m sv" and it: "item_full hash k (f, x, v, c) it"
    and old: "m k = Some (f0, x0, v0, c0)" and policy: "policy = kAppend \<or> policy = kPrepend"
    and fits: "length k + length v0 + length v \<le> 2147483647"
  shows "\<exists>sv'. storeItem hash it policy sv = Inr (True, True, sv') \<and> g_cas sv' = g_cas sv + 1 \<and>
    represents hash (m(k \<mapsto> (f0, x0, if policy = kAppend then take (length v0 - 2) v0 @ v else take (length v - 2) v @ v0,
      g_cas sv + 1))) sv'"
proof -
  have at: "item_at hash k (length v) v it" and crlf: "drop (length v - 2) v = kCRLF" using it by (auto simp: item_full_def)
  obtain it0 where it0: "items_of it sv k = Some it0" "item_full hash k (f0, x0, v0, c0) it0"
    using represents_lookup [OF rep at] old item_at_simps(4) [OF at] by (auto elim: option.rel_cases)
  have at0: "item_at hash k (length v0) v0 it0" "drop (length v0 - 2) v0 = kCRLF" "flags it0 = f0" "rel_exptime it0 = x0"
    using it0(2) by (auto simp: item_full_def)
  have two: "2 \<le> length v" "2 \<le> length v0" using at at0(1) by (auto simp: item_at_def)
  define a b where "a = (if policy = kAppend then take (length v0 - 2) v0 else take (length v - 2) v)"
    and "b = (if policy = kAppend then v else v0)"
  have len: "length (a @ b) = length v + length v0 - 2" using two by (auto simp: a_def b_def)
  have b: "2 \<le> length b" "drop (length b - 2) b = kCRLF" using two crlf at0 by (auto simp: b_def)
  have room: "length k + length (a @ b) \<le> 2147483647" unfolding len using fits by simp
  define N where "N = int (length (a @ b))"
  obtain new where new: "bindR (bindR (makeItem hash k f0 x0 N (g_cas sv + 1)) (Item_append a)) (Item_append b) = Inr new"
    "item_full hash k (f0, x0, a @ b, g_cas sv + 1) new"
    using joined_item [OF room b, of hash f0 x0 "g_cas sv + 1"] unfolding N_def by blast
  have new_at: "item_at hash k (length (a @ b)) (a @ b) new" "drop (length (a @ b) - 2) (a @ b) = kCRLF"
    using new(2) by (auto simp: item_full_def)
  have whole: "neededBytes new = 0" "endsWithCRLF new"
    using item_at_simps(1) [OF new_at(1)] endsWithCRLF_iff [OF new_at(1)] new_at(2) by simp_all
  have n: "to_int (int ((length v + length v0 - 2) mod two64)) = N"
    unfolding len N_def using fits by (simp add: two64_def)
  let ?sv = "set_items it (items_insert new (items_erase it (items_of it sv))) (sv\<lparr>g_cas := g_cas sv + 1\<rparr>)"
  have "storeItem hash it policy sv = Inr (True, True, ?sv)"
    using policy
  proof
    assume p: "policy = kAppend"
    show ?thesis
      using it0(1) at0 item_at_simps [OF at] item_at_simps [OF at0(1)] whole n
        new(1) [unfolded a_def b_def p, simplified] p
      by (simp add: storeItem_def Let_def incrementAndGet_def joined_assoc)
  next
    assume p: "policy = kPrepend"
    show ?thesis
      using it0(1) at0 item_at_simps [OF at] item_at_simps [OF at0(1)] whole n
        new(1) [unfolded a_def b_def p, simplified] p
      by (simp add: storeItem_def Let_def incrementAndGet_def joined_assoc)
  qed
  moreover have "represents hash (m(k \<mapsto> (f0, x0, a @ b, g_cas sv + 1))) ?sv"
    using represents_set [OF rep at new(2) item_at_simps(4) [OF at], of True] by simp
  ultimately show ?thesis using policy by (auto simp: a_def b_def)
qed

lemma storeItem_ok:
  assumes rep: "represents hash m sv" and it: "item_full hash k (f, x, v, c) it" and "policy \<noteq> kInvalid"
    and fits: "\<And>f0 x0 v0 c0. m k = Some (f0, x0, v0, c0) \<Longrightarrow> length k + length v0 + length v \<le> 2147483647"
  shows "\<exists>sv' m'. storeItem hash it policy sv =
      (case kv_store policy k (f, x, v, c) (m, g_cas sv) of (ok, ex, _) \<Rightarrow> Inr (ok, ex, sv')) \<and>
    represents hash m' sv' \<and> snd (snd (kv_store policy k (f, x, v, c) (m, g_cas sv))) = (m', g_cas sv')"
proof -
  have at: "item_at hash k (length v) v it" using it by (simp add: item_full_def)
  have key: "item_key it = k" "neededBytes it = 0" "cas it = c"
    using item_at_simps [OF at] it by (simp_all add: item_full_def)
  note look = represents_lookup [OF rep at, unfolded key]
  show ?thesis
  proof (cases "m k")
    case None
    then have "items_of it sv k = None" using look by simp
    then show ?thesis using None rep store_new_ok [OF rep it] key assms(3)
      by (cases policy) (simp_all add: storeItem_def Let_def)
  next
    case (Some e)
    obtain f0 x0 v0 c0 where e: "e = (f0, x0, v0, c0)" by (cases e) auto
    obtain it0 where it0: "items_of it sv k = Some it0" "item_full hash k (f0, x0, v0, c0) it0"
      using look Some e by (auto elim: option.rel_cases)
    have c0: "cas it0 = c0" using it0(2) by (simp add: item_full_def)
    show ?thesis
    proof (cases "policy = kAppend \<or> policy = kPrepend")
      case True
      obtain sv' where "storeItem hash it policy sv = Inr (True, True, sv')" "g_cas sv' = g_cas sv + 1"
        "represents hash (m(k \<mapsto> (f0, x0, if policy = kAppend then take (length v0 - 2) v0 @ v else take (length v - 2) v @ v0,
          g_cas sv + 1))) sv'"
        using storeItem_join [OF rep it Some [unfolded e] True fits [OF Some [unfolded e]]] by blast
      with True Some e show ?thesis by auto
    next
      case False
      then show ?thesis using Some e it0(1) rep store_new_ok [OF rep it] key assms(3) c0
        by (cases policy) (auto simp: storeItem_def Let_def)
    qed
  qed
qed

section \<open>Runs of the server\<close>

text \<open>
  The requests of all sessions reach the table one after the other. A session stores an item it has
  received completely, and looks keys up with its needle, the item it keeps for that purpose.
\<close>

datatype kv_op = Store UpdatePolicy string "32 word" int string "64 word" | Get string | Delete string

datatype kv_answer = Stored bool bool | Found "kv_entry option" | Deleted bool

definition kLongestKeySize :: nat where
  "kLongestKeySize = 250"

definition kLongestKey :: string where
  "kLongestKey = replicate kLongestKeySize (CHR ''x'')"

definition needle_for :: "(string \<Rightarrow> nat) \<Rightarrow> string \<Rightarrow> Item res" where
  "needle_for hash k = bindR (makeItem hash kLongestKey 0 0 2 0) (resetKey hash k)"

fun server_step :: "(string \<Rightarrow> nat) \<Rightarrow> kv_op \<Rightarrow> MemcacheServer \<Rightarrow> (kv_answer \<times> MemcacheServer) res" where
  "server_step hash (Store policy k f x v c) sv =
     bindR (bindR (makeItem hash k f x (int (length v)) c) (Item_append v)) (\<lambda>it.
     bindR (storeItem hash it policy sv) (\<lambda>(ok, ex, sv). Inr (Stored ok ex, sv)))"
| "server_step hash (Get k) sv =
     bindR (needle_for hash k) (\<lambda>needle. Inr (Found (map_option entry_of (getItem needle sv)), sv))"
| "server_step hash (Delete k) sv =
     bindR (needle_for hash k) (\<lambda>needle. let (ok, sv) = deleteItem needle sv in Inr (Deleted ok, sv))"

fun server_run :: "(string \<Rightarrow> nat) \<Rightarrow> kv_op list \<Rightarrow> MemcacheServer \<Rightarrow> (kv_answer list \<times> MemcacheServer) res" where
  "server_run hash [] sv = Inr ([], sv)"
| "server_run hash (op # ops) sv =
     bindR (server_step hash op sv) (\<lambda>(a, sv).
     bindR (server_run hash ops sv) (\<lambda>(as, sv). Inr (a # as, sv)))"

text \<open>The same requests on the abstract store.\<close>

fun kv_step :: "kv_op \<Rightarrow> (string \<rightharpoonup> kv_entry) \<times> 64 word \<Rightarrow> kv_answer \<times> (string \<rightharpoonup> kv_entry) \<times> 64 word" where
  "kv_step (Store policy k f x v c) st = (let (ok, ex, st) = kv_store policy k (f, x, v, c) st in (Stored ok ex, st))"
| "kv_step (Get k) (m, g) = (Found (m k), m, g)"
| "kv_step (Delete k) (m, g) = (Deleted (m k \<noteq> None), m(k := None), g)"

fun kv_run :: "kv_op list \<Rightarrow> (string \<rightharpoonup> kv_entry) \<times> 64 word \<Rightarrow> kv_answer list \<times> (string \<rightharpoonup> kv_entry) \<times> 64 word" where
  "kv_run [] st = ([], st)"
| "kv_run (op # ops) st = (let (a, st) = kv_step op st; (as, st) = kv_run ops st in (a # as, st))"

text \<open>The values a session stores: at most a mebibyte and the CR LF that ends them.\<close>

fun op_ok :: "kv_op \<Rightarrow> bool" where
  "op_ok (Store policy k f x v c) \<longleftrightarrow> policy \<noteq> kInvalid \<and> length k \<le> 250 \<and> 2 \<le> length v \<and> length v \<le> 1048578 \<and>
     drop (length v - 2) v = kCRLF"
| "op_ok (Get k) \<longleftrightarrow> length k \<le> 250"
| "op_ok (Delete k) \<longleftrightarrow> length k \<le> 250"

text \<open>After \<open>n\<close> requests no value is longer than \<open>n\<close> mebibytes and its CR LF.\<close>

definition small :: "nat \<Rightarrow> (string \<rightharpoonup> kv_entry) \<Rightarrow> bool" where
  "small n m \<longleftrightarrow> (\<forall>k f x v c. m k = Some (f, x, v, c) \<longrightarrow> length v \<le> 2 + n * 1048576)"

lemma small_mono: "small n m \<Longrightarrow> n \<le> n' \<Longrightarrow> small n' m"
  unfolding small_def by (meson add_left_mono le_trans mult_le_mono1)

lemma smallD: "small n m \<Longrightarrow> m k = Some (f, x, v, c) \<Longrightarrow> length v \<le> 2 + n * 1048576"
  unfolding small_def by blast

lemma small_update:
  "small n m \<Longrightarrow> length v \<le> 2 + n * 1048576 \<Longrightarrow> small n (m(k \<mapsto> (f, x, v, c)))"
  by (auto simp: small_def)

lemma kv_step_small:
  assumes "small n m" and "op_ok op"
  shows "small (Suc n) (fst (snd (kv_step op (m, g))))"
proof (cases op)
  case (Store policy k f x v c)
  have m: "small (Suc n) m" by (rule small_mono [OF assms(1)]) simp
  show ?thesis
  proof (cases "m k")
    case None
    then show ?thesis using Store assms(2) m by (auto simp: Let_def intro!: small_update)
  next
    case (Some e)
    obtain f0 x0 v0 c0 where e: "e = (f0, x0, v0, c0)" by (cases e) auto
    have "length v0 \<le> 2 + n * 1048576" using smallD [OF assms(1)] Some e by blast
    then show ?thesis using Store assms(2) m Some e
      by (cases policy) (auto simp: Let_def intro!: small_update)
  qed
qed (use small_mono [OF assms(1), of "Suc n"] in \<open>auto simp: small_def\<close>)

lemma needle_for_ok:
  assumes "length k \<le> 250"
  shows "\<exists>it. needle_for hash k = Inr it \<and> item_at hash k 2 [] it"
proof -
  obtain n where n: "makeItem hash kLongestKey 0 0 2 0 = Inr n" "item_at hash kLongestKey 2 [] n"
    using makeItem_ok [of 2 kLongestKey hash 0 0 0] by (auto simp: kLongestKey_def kLongestKeySize_def)
  then have "valuelen n = 2" "252 \<le> length (item_data n)"
    by (auto simp: item_at_def kLongestKey_def kLongestKeySize_def)
  from resetKey_ok [OF assms this] n(1) show ?thesis by (auto simp: needle_for_def)
qed

lemma server_step_ok:
  assumes "represents hash m sv" and "op_ok op" and "small n m" and "n < 2047"
  shows "\<exists>sv'. server_step hash op sv = Inr (fst (kv_step op (m, g_cas sv)), sv') \<and>
    represents hash (fst (snd (kv_step op (m, g_cas sv)))) sv' \<and> snd (snd (kv_step op (m, g_cas sv))) = g_cas sv'"
proof (cases op)
  case (Store policy k f x v c)
  have v: "length k \<le> 250" "2 \<le> length v" "length v \<le> 1048578" "drop (length v - 2) v = kCRLF" "policy \<noteq> kInvalid"
    using assms(2) Store by simp_all
  obtain it where it: "bindR (makeItem hash k f x (int (length v)) c) (Item_append v) = Inr it"
    "item_full hash k (f, x, v, c) it"
    using whole_item [of k v hash f x c] v by auto
  have "length k + length v0 + length v \<le> 2147483647" if "m k = Some (f0, x0, v0, c0)" for f0 x0 v0 c0
  proof -
    have "length v0 \<le> 2 + n * 1048576" by (rule smallD [OF assms(3) that])
    moreover have "n * 1048576 \<le> 2046 * 1048576" using assms(4) by (intro mult_le_mono1) simp
    ultimately show ?thesis using v by simp
  qed
  note fits = this
  obtain ok ex m' g' where k: "kv_store policy k (f, x, v, c) (m, g_cas sv) = (ok, ex, m', g')"
    by (cases "kv_store policy k (f, x, v, c) (m, g_cas sv)") auto
  have "\<exists>sv' m'. storeItem hash it policy sv =
      (case kv_store policy k (f, x, v, c) (m, g_cas sv) of (ok, ex, _) \<Rightarrow> Inr (ok, ex, sv')) \<and>
    represents hash m' sv' \<and> snd (snd (kv_store policy k (f, x, v, c) (m, g_cas sv))) = (m', g_cas sv')"
    by (rule storeItem_ok [OF assms(1) it(2) v(5)]) (rule fits)
  then obtain sv' where "storeItem hash it policy sv = Inr (ok, ex, sv')" "represents hash m' sv'" "g' = g_cas sv'"
    unfolding k by auto
  then show ?thesis using it(1) k unfolding Store by (simp del: kv_store.simps)
next
  case (Get k)
  obtain needle where nd: "needle_for hash k = Inr needle" "item_at hash k 2 [] needle"
    using needle_for_ok assms(2) Get by auto
  have "map_option entry_of (getItem needle sv) = m k"
    using represents_lookup [OF assms(1) nd(2)] item_full_simps(3)
    by (auto simp: getItem_def elim: option.rel_cases)
  then show ?thesis using Get nd(1) assms(1) by simp
next
  case (Delete k)
  obtain needle where nd: "needle_for hash k = Inr needle" "item_at hash k 2 [] needle"
    using needle_for_ok assms(2) Delete by auto
  have "(items_of needle sv (item_key needle) \<noteq> None) = (m k \<noteq> None)"
    using represents_lookup [OF assms(1) nd(2)] by (auto elim: option.rel_cases)
  then show ?thesis using Delete nd(1) represents_erase [OF assms(1) nd(2)] by (simp add: deleteItem_def)
qed

lemma server_run_ok:
  assumes "represents hash m sv" and "list_all op_ok ops" and "small n m" and "n + length ops \<le> 2047"
  shows "\<exists>sv'. server_run hash ops sv = Inr (fst (kv_run ops (m, g_cas sv)), sv') \<and>
    represents hash (fst (snd (kv_run ops (m, g_cas sv)))) sv'"
  using assms
proof (induction ops arbitrary: m sv n)
  case (Cons op ops)
  have op: "op_ok op" "n < 2047" using Cons.prems by simp_all
  obtain a m1 g1 where k: "kv_step op (m, g_cas sv) = (a, m1, g1)" by (cases "kv_step op (m, g_cas sv)") auto
  obtain sv1 where sv1: "server_step hash op sv = Inr (a, sv1)" "represents hash m1 sv1" "g1 = g_cas sv1"
    using server_step_ok [OF Cons.prems(1) op(1) Cons.prems(3) op(2)] k by auto
  have "small (Suc n) m1" using kv_step_small [OF Cons.prems(3) op(1), of "g_cas sv"] k by simp
  from Cons.IH [OF sv1(2) _ this] Cons.prems(2,4) show ?case
    using k sv1 by (auto simp: Let_def split: prod.splits)
qed simp


definition ex_server :: MemcacheServer where
  "ex_server = \<lparr>sv_shards = \<lambda>_. Map.empty, g_cas = 0, startTime = 0, sv_stops = 0\<rparr>"


end
