(* ===== verification/Memcached_Session.thy ===== *)
theory Memcached_Session
  imports Memcached_Store
begin

text \<open>
  The session of the memcached server, \<open>src/memcached/server/Session.h\<close> and \<open>Session.cc\<close>: the tokenizer, the number
  reader, the request handlers and the message loop, and \<open>MemcacheServer::onConnection\<close>. The record of a session extends that of the
  server, its owner. Of the connection it has whether it is connected, and the list of what
  was done to it. A tokenizer iterator is the list of the tokens from its position on; the end is the empty list,
  and dereferencing it there is undefined. \<open>boost::tokenizer\<close> itself is a parameter, with its documented behaviour as the hypothesis \<open>tokenizer_ok\<close> of the theorems that need it. The message loop need not end, so it is a partial function, and \<open>None\<close> is a call that does not
  return.

  The lemmas relate one pass of the loop to the bytes it consumes, and show that the loop returns, that what is set is what is got, and three ways
  in which a client breaks the server or its own connection.
\<close>

section \<open>Tokens and numbers\<close>

definition isBinaryProtocol :: "char \<Rightarrow> bool" where
  "isBinaryProtocol firstByte \<longleftrightarrow> (of_char firstByte :: nat) = 0x80"

text \<open>\<open>SpaceSeparator\<close> returns the next token and the rest of the text.\<close>

definition SpaceSeparator :: "string \<Rightarrow> (string \<times> string) option" where
  "SpaceSeparator text =
     (let start = dropWhile (\<lambda>c. c = CHR '' '') text
      in if start = [] then None
         else case memchr (CHR '' '') start of
            Some sp \<Rightarrow> Some (take sp start, drop sp start)
          | None \<Rightarrow> Some (start, []))"

lemma SpaceSeparator_shorter: "SpaceSeparator text = Some (t, rest) \<Longrightarrow> length rest < length text"
proof -
  assume s: "SpaceSeparator text = Some (t, rest)"
  define start where "start = dropWhile (\<lambda>c. c = CHR '' '') text"
  have le: "length start \<le> length text" unfolding start_def by (rule length_dropWhile_le)
  have ne: "start \<noteq> []" using s by (auto simp: SpaceSeparator_def start_def [symmetric] Let_def)
  have hd: "hd start \<noteq> CHR '' ''" using ne hd_dropWhile unfolding start_def by blast
  then have "std_find (CHR '' '') start \<noteq> 0" using ne by (cases start) auto
  then have "length start - std_find (CHR '' '') start < length text"
    using le ne by (cases start) auto
  then show ?thesis using s ne le
    by (auto simp: SpaceSeparator_def start_def [symmetric] Let_def memchr_def split: if_splits)
qed

text \<open>
  \<open>boost::tokenizer\<close> is a parameter of the session: a function of the separator and the text. It is documented to call the separator
  on what is left of the text until that returns \<open>false\<close>. \<open>tokenize\<close> is a function that does so, for separators that consume something.
\<close>

type_synonym tokenizer = "(string \<Rightarrow> (string \<times> string) option) \<Rightarrow> string \<Rightarrow> string list"

definition tokenizer_ok :: "tokenizer \<Rightarrow> bool" where
  "tokenizer_ok tok \<longleftrightarrow> (\<forall>sep text. (\<forall>xs t rest. sep xs = Some (t, rest) \<longrightarrow> length rest < length xs) \<longrightarrow>
     tok sep text = (case sep text of None \<Rightarrow> [] | Some (t, rest) \<Rightarrow> t # tok sep rest))"

fun tokenize_upto :: "nat \<Rightarrow> tokenizer" where
  "tokenize_upto 0 sep input = []"
| "tokenize_upto (Suc n) sep input = (case sep input of None \<Rightarrow> [] | Some (t, rest) \<Rightarrow> t # tokenize_upto n sep rest)"

definition tokenize :: tokenizer where
  "tokenize sep input = tokenize_upto (Suc (length input)) sep input"

lemma tokenize_upto_enough:
  assumes "\<And>xs t rest. sep xs = Some (t, rest) \<Longrightarrow> length rest < length xs"
  shows "length input < n \<Longrightarrow> tokenize_upto n sep input = tokenize sep input"
proof (induction "length input" arbitrary: n input rule: less_induct)
  case less
  obtain m where n: "n = Suc m" using less.prems by (cases n) auto
  show ?case
  proof (cases "sep input")
    case (Some tr)
    obtain t rest where tr: "tr = (t, rest)" by (cases tr)
    have shorter: "length rest < length input" using assms Some tr by simp
    then have "tokenize_upto m sep rest = tokenize sep rest" "tokenize_upto (length input) sep rest = tokenize sep rest"
      using less.hyps [OF shorter] less.prems n by simp_all
    then show ?thesis using Some tr n by (simp add: tokenize_def)
  qed (simp add: n tokenize_def)
qed

lemma tokenize_ok: "tokenizer_ok tokenize"
  unfolding tokenizer_ok_def
proof (intro allI impI)
  fix sep :: "string \<Rightarrow> (string \<times> string) option" and input
  assume a: "\<forall>xs t rest. sep xs = Some (t, rest) \<longrightarrow> length rest < length xs"
  show "tokenize sep input = (case sep input of None \<Rightarrow> [] | Some (t, rest) \<Rightarrow> t # tokenize sep rest)"
  proof (cases "sep input")
    case (Some tr)
    obtain t rest where tr: "tr = (t, rest)" by (cases tr)
    then have "length rest < length input" using a Some by simp
    then have "tokenize_upto (length input) sep rest = tokenize sep rest" by (intro tokenize_upto_enough) (use a in auto)
    then show ?thesis using Some tr by (simp add: tokenize_def)
  qed (simp add: tokenize_def)
qed

lemma tokenizer_step:
  "tokenizer_ok tok \<Longrightarrow> tok SpaceSeparator input = (case SpaceSeparator input of None \<Rightarrow> [] | Some (t, rest) \<Rightarrow> t # tok SpaceSeparator rest)"
  unfolding tokenizer_ok_def using SpaceSeparator_shorter by blast

text \<open>
  \<open>strtoull\<close> in base 10: blanks, a sign, digits. It returns the value and the number of characters it has used; a negative
  number wraps, one that is too large gives the largest value. The character after a token is a blank or the CR of the line, where
  digits end; a token without digits is rejected whatever follows it. So it is applied to the token alone.
\<close>

definition isdigit :: "char \<Rightarrow> bool" where
  "isdigit c \<longleftrightarrow> 48 \<le> (of_char c :: nat) \<and> (of_char c :: nat) \<le> 57"

definition decimal :: "string \<Rightarrow> nat" where
  "decimal ds = foldl (\<lambda>n c. 10 * n + (of_char c - 48)) 0 ds"

definition strtoull :: "string \<Rightarrow> nat \<times> nat" where
  "strtoull s =
     (let blanks = length (takeWhile isspace s); s1 = drop blanks s;
          sign = (if s1 \<noteq> [] \<and> (hd s1 = CHR ''+'' \<or> hd s1 = CHR ''-'') then 1 else 0);
          neg = (s1 \<noteq> [] \<and> hd s1 = CHR ''-''); ds = takeWhile isdigit (drop sign s1); n = decimal ds
      in if ds = [] then (0, 0)
         else (if n \<ge> two64 then two64 - 1 else if neg then (two64 - n) mod two64 else n,
               blanks + sign + length ds))"

text \<open>\<open>Reader::read\<close>: the number and the rest of the tokens, or \<open>None\<close> for \<open>false\<close>; the cast to the type of the variable is left to the caller.\<close>

definition Reader_read :: "string list \<Rightarrow> (nat \<times> string list) option" where
  "Reader_read toks = (case toks of
      [] \<Rightarrow> None
    | t # ts \<Rightarrow> let (x, used) = strtoull t in if used = length t then Some (x, ts) else None)"

section \<open>The session\<close>

datatype SessionState = kNewCommand | kReceiveValue | kDiscardValue

datatype Protocol = kAscii | kBinary | kAuto

datatype mc_call =
    McSend string        \<comment> \<open>\<open>conn_->send\<close>\<close>
  | McShutdown           \<comment> \<open>\<open>conn_->shutdown\<close>\<close>
  | McShrink nat         \<comment> \<open>the output buffer is shrunk to this reserve if it has more room\<close>

record Session = MemcacheServer +
  conn_connected :: bool
  conn_calls :: "mc_call list"
  ses_state :: SessionState
  ses_protocol :: Protocol
  ses_command :: string
  ses_noreply :: bool
  ses_policy :: UpdatePolicy
  ses_currItem :: "Item option"
  ses_bytesToDiscard :: nat
  ses_needle :: Item
  ses_outputBuf :: Buffer
  ses_bytesRead :: nat
  ses_requestsProcessed :: nat

definition Session_new :: "(string \<Rightarrow> nat) \<Rightarrow> MemcacheServer \<Rightarrow> Session res" where
  "Session_new hash sv =
     bindR (makeItem hash kLongestKey 0 0 2 0) (\<lambda>needle.
     Inr (MemcacheServer.extend sv
       \<lparr>conn_connected = True, conn_calls = [], ses_state = kNewCommand, ses_protocol = kAscii, ses_command = [],
        ses_noreply = False, ses_policy = kInvalid, ses_currItem = None, ses_bytesToDiscard = 0, ses_needle = needle,
        ses_outputBuf = emptyBuffer, ses_bytesRead = 0, ses_requestsProcessed = 0\<rparr>))"

text \<open>\<open>TcpConnection::send\<close> and \<open>shutdown\<close> do nothing unless the connection is in state \<open>kConnected\<close>; \<open>shutdown\<close> leaves that state.\<close>

definition conn_send :: "string \<Rightarrow> Session \<Rightarrow> Session" where
  "conn_send msg s = (if conn_connected s then s\<lparr>conn_calls := conn_calls s @ [McSend msg]\<rparr> else s)"

definition conn_shutdown :: "Session \<Rightarrow> Session" where
  "conn_shutdown s =
     (if conn_connected s then s\<lparr>conn_connected := False, conn_calls := conn_calls s @ [McShutdown]\<rparr> else s)"

text \<open>\<open>send\<close> of a buffer empties it.\<close>

definition send_outputBuf :: "Session \<Rightarrow> Session" where
  "send_outputBuf s =
     (if conn_connected s
      then (conn_send (content (ses_outputBuf s)) s)\<lparr>ses_outputBuf := retrieveAll (ses_outputBuf s)\<rparr> else s)"

definition MemcacheServer_stop :: "Session \<Rightarrow> Session" where
  "MemcacheServer_stop s = s\<lparr>sv_stops := sv_stops s + 1\<rparr>"

definition resetRequest :: "Session \<Rightarrow> Session" where
  "resetRequest s = s\<lparr>ses_command := [], ses_noreply := False, ses_policy := kInvalid, ses_currItem := None,
     ses_bytesToDiscard := 0\<rparr>"

definition reply :: "string \<Rightarrow> Session \<Rightarrow> Session" where
  "reply msg s = (if \<not> ses_noreply s then conn_send msg s else s)"

section \<open>Requests\<close>

text \<open>
  \<open>doUpdate\<close> chooses the policy, reads the numbers of the command line, which must all be there, and prepares the session for the value,
  which is discarded when it is too large.
\<close>

definition update_policy :: "string \<Rightarrow> UpdatePolicy res" where
  "update_policy cmd =
     (if cmd = ''set'' then Inr kSet
      else if cmd = ''add'' then Inr kAdd
      else if cmd = ''replace'' then Inr kReplace
      else if cmd = ''append'' then Inr kAppend
      else if cmd = ''prepend'' then Inr kPrepend
      else if cmd = ''cas'' then Inr kCas
      else Inl AssertFailed)"

definition read_numbers :: "UpdatePolicy \<Rightarrow> string \<Rightarrow> string list \<Rightarrow> (nat \<times> nat \<times> nat \<times> nat) option" where
  "read_numbers policy key beg =
     (if length key \<le> kLongestKeySize then
        (case Reader_read beg of None \<Rightarrow> None
         | Some (f, r) \<Rightarrow> (case Reader_read r of None \<Rightarrow> None
            | Some (x, r) \<Rightarrow> (case Reader_read r of None \<Rightarrow> None
               | Some (n, r) \<Rightarrow> (if policy = kCas
                    then (case Reader_read r of None \<Rightarrow> None | Some (c, r) \<Rightarrow> Some (f, x, n, c))
                    else Some (f, x, n, 0)))))
      else None)"

definition relative_exptime :: "nat \<Rightarrow> int \<Rightarrow> int" where
  "relative_exptime x start =
     (let exptime = sint (of_nat x :: 64 word)
      in if exptime > 60 * 60 * 24 * 30
         then (let r = to_int (exptime - start) in if r < 1 then 1 else r)
         else to_int exptime)"

definition begin_update :: "(string \<Rightarrow> nat) \<Rightarrow> string \<Rightarrow> nat \<times> nat \<times> nat \<times> nat \<Rightarrow> Session \<Rightarrow> (bool \<times> Session) res" where
  "begin_update hash key numbers s =
     (let (f, x, n, c) = numbers; bytes = to_int (int n)
      in if bytes > 1024 * 1024
         then let s = reply (''SERVER_ERROR object too large for cache'' @ kCRLF) s in
              bindR (resetKey hash key (ses_needle s)) (\<lambda>needle.
              let s = snd (deleteItem needle (s\<lparr>ses_needle := needle\<rparr>)) in
              if bytes + 2 > 2147483647 then Inl UndefinedBehaviour
              else Inr (False, s\<lparr>ses_bytesToDiscard := to_size (bytes + 2), ses_state := kDiscardValue\<rparr>))
         else bindR (makeItem hash key (of_nat f) (relative_exptime x (startTime s)) (bytes + 2) (of_nat c)) (\<lambda>item.
              Inr (False, s\<lparr>ses_currItem := Some item, ses_state := kReceiveValue\<rparr>)))"

definition doUpdate :: "(string \<Rightarrow> nat) \<Rightarrow> string list \<Rightarrow> Session \<Rightarrow> (bool \<times> Session) res" where
  "doUpdate hash beg s =
     bindR (update_policy (ses_command s)) (\<lambda>policy.
     let s = s\<lparr>ses_policy := policy\<rparr> in
     case beg of
       [] \<Rightarrow> Inl UndefinedBehaviour
     | key # beg \<Rightarrow>
         (case read_numbers policy key beg of
            None \<Rightarrow> Inr (True, reply (''CLIENT_ERROR bad command line format'' @ kCRLF) s)
          | Some numbers \<Rightarrow> begin_update hash key numbers s))"

definition doDelete :: "(string \<Rightarrow> nat) \<Rightarrow> string list \<Rightarrow> Session \<Rightarrow> Session res" where
  "doDelete hash beg s =
     bindR (assertR (ses_command s = ''delete'') ()) (\<lambda>_.
     case beg of
       [] \<Rightarrow> Inl UndefinedBehaviour
     | key # beg \<Rightarrow>
         if \<not> length key \<le> kLongestKeySize then Inr (reply (''CLIENT_ERROR bad command line format'' @ kCRLF) s)
         else if beg \<noteq> [] \<and> hd beg \<noteq> ''0''
         then Inr (reply (''CLIENT_ERROR bad command line format.  Usage: delete <key> [noreply]'' @ kCRLF) s)
         else bindR (resetKey hash key (ses_needle s)) (\<lambda>needle.
              let (ok, s) = deleteItem needle (s\<lparr>ses_needle := needle\<rparr>)
              in Inr (reply ((if ok then ''DELETED'' else ''NOT_FOUND'') @ kCRLF) s)))"

text \<open>The loop over the keys of \<open>get\<close>; \<open>False\<close> is the early return for a key that is too long.\<close>

fun get_keys :: "(string \<Rightarrow> nat) \<Rightarrow> bool \<Rightarrow> string list \<Rightarrow> Session \<Rightarrow> (bool \<times> Session) res" where
  "get_keys hash needCas [] s = Inr (True, s)"
| "get_keys hash needCas (key # beg) s =
     (if \<not> length key \<le> kLongestKeySize then Inr (False, reply (''CLIENT_ERROR bad command line format'' @ kCRLF) s)
      else bindR (resetKey hash key (ses_needle s)) (\<lambda>needle.
           let s = s\<lparr>ses_needle := needle\<rparr>
           in bindR (case getItem needle s of
                       None \<Rightarrow> Inr s
                     | Some item \<Rightarrow> bindR (Item_output needCas item (ses_outputBuf s)) (\<lambda>out. Inr (s\<lparr>ses_outputBuf := out\<rparr>)))
              (get_keys hash needCas beg)))"

definition finish_get :: "Session \<Rightarrow> Session res" where
  "finish_get s =
     bindR (append_string (''END'' @ kCRLF) (ses_outputBuf s)) (\<lambda>out.
     let s = s\<lparr>ses_outputBuf := out, conn_calls := conn_calls s @ [McShrink (65536 + readableBytes out)]\<rparr>
     in Inr (send_outputBuf s))"

definition processRequest :: "tokenizer \<Rightarrow> (string \<Rightarrow> nat) \<Rightarrow> string \<Rightarrow> Session \<Rightarrow> (bool \<times> Session) res" where
  "processRequest tok hash request s =
     bindR (assertR (ses_command s = []) ()) (\<lambda>_.
     bindR (assertR (\<not> ses_noreply s) ()) (\<lambda>_.
     bindR (assertR (ses_policy s = kInvalid) ()) (\<lambda>_.
     bindR (assertR (ses_currItem s = None) ()) (\<lambda>_.
     bindR (assertR (ses_bytesToDiscard s = 0) ()) (\<lambda>_.
     let s = s\<lparr>ses_requestsProcessed := szt (ses_requestsProcessed s + 1)\<rparr>;
         quiet = (length request \<ge> 8 \<and> drop (length request - 8) request = '' noreply'');
         s = (if quiet then s\<lparr>ses_noreply := True\<rparr> else s);
         request = (if quiet then take (length request - 8) request else request)
     in case tok SpaceSeparator request of
          [] \<Rightarrow> Inr (True, reply (''ERROR'' @ kCRLF) s)
        | cmd # beg \<Rightarrow>
            let s = s\<lparr>ses_command := cmd\<rparr>
            in if cmd \<in> {''set'', ''add'', ''replace'', ''append'', ''prepend'', ''cas''} then doUpdate hash beg s
            else if cmd = ''get'' \<or> cmd = ''gets''
            then bindR (get_keys hash (cmd = ''gets'') beg s) (\<lambda>(good, s).
                 if \<not> good then Inr (True, s) else bindR (finish_get s) (\<lambda>s. Inr (True, s)))
            else if cmd = ''delete'' then bindR (doDelete hash beg s) (\<lambda>s. Inr (True, s))
            else if cmd = ''version'' then Inr (True, reply (''VERSION 0.01 muduo'' @ kCRLF) s)
            else if cmd = ''quit'' then Inr (True, conn_shutdown s)
            else if cmd = ''shutdown'' then Inr (True, MemcacheServer_stop (conn_shutdown s))
            else Inr (True, reply (''ERROR'' @ kCRLF) s))))))"

section \<open>Messages\<close>

definition store_reply :: "UpdatePolicy \<Rightarrow> bool \<Rightarrow> bool \<Rightarrow> string" where
  "store_reply policy stored exists =
     (if stored then ''STORED'' @ kCRLF
      else if policy = kCas then (if exists then ''EXISTS'' @ kCRLF else ''NOT_FOUND'' @ kCRLF)
      else ''NOT_STORED'' @ kCRLF)"

text \<open>What \<open>receiveValue\<close> does once it has taken the bytes from the buffer.\<close>

definition value_received :: "(string \<Rightarrow> nat) \<Rightarrow> Item \<Rightarrow> Session \<Rightarrow> Session res" where
  "value_received hash item s =
     (let s = s\<lparr>ses_currItem := Some item\<rparr>
      in if neededBytes item = 0
         then bindR (if endsWithCRLF item
                     then bindR (storeItem hash item (ses_policy s) s) (\<lambda>(stored, exists, s).
                          Inr (reply (store_reply (ses_policy s) stored exists) s))
                     else Inr (reply (''CLIENT_ERROR bad data chunk'' @ kCRLF) s)) (\<lambda>s.
              Inr ((resetRequest s)\<lparr>ses_state := kNewCommand\<rparr>))
         else Inr s)"

definition receiveValue :: "(string \<Rightarrow> nat) \<Rightarrow> Buffer \<Rightarrow> Session \<Rightarrow> (Session \<times> Buffer) res" where
  "receiveValue hash buf s =
     (case ses_currItem s of
        None \<Rightarrow> Inl AssertFailed
      | Some item \<Rightarrow>
          bindR (assertR (ses_state s = kReceiveValue) ()) (\<lambda>_.
          let avail = min (readableBytes buf) (neededBytes item)
          in bindR (Item_append (range_of (buffer buf) (peek buf) (peek buf + avail)) item) (\<lambda>item.
             bindR (retrieve avail buf) (\<lambda>buf.
             bindR (value_received hash item s) (\<lambda>s. Inr (s, buf))))))"

definition discardValue :: "Buffer \<Rightarrow> Session \<Rightarrow> (Session \<times> Buffer) res" where
  "discardValue buf s =
     bindR (assertR (ses_currItem s = None) ()) (\<lambda>_.
     bindR (assertR (ses_state s = kDiscardValue) ()) (\<lambda>_.
     if readableBytes buf < ses_bytesToDiscard s
     then Inr (s\<lparr>ses_bytesToDiscard := ses_bytesToDiscard s - readableBytes buf\<rparr>, retrieveAll buf)
     else bindR (retrieve (ses_bytesToDiscard s) buf) (\<lambda>buf.
          Inr ((resetRequest (s\<lparr>ses_bytesToDiscard := 0\<rparr>))\<lparr>ses_state := kNewCommand\<rparr>, buf))))"

text \<open>The choice of the protocol and its two assertions.\<close>

definition choose_protocol :: "Buffer \<Rightarrow> Session \<Rightarrow> Session res" where
  "choose_protocol buf s =
     bindR (if ses_protocol s = kAuto
            then bindR (assertR (ses_bytesRead s = 0) ()) (\<lambda>_.
                 Inr (s\<lparr>ses_protocol := (if isBinaryProtocol (buffer buf ! peek buf) then kBinary else kAscii)\<rparr>))
            else Inr s) (\<lambda>s.
     assertR (ses_protocol s = kAscii \<or> ses_protocol s = kBinary) s)"

definition process_line :: "tokenizer \<Rightarrow> (string \<Rightarrow> nat) \<Rightarrow> nat \<Rightarrow> Buffer \<Rightarrow> Session \<Rightarrow> (Session \<times> Buffer) res" where
  "process_line tok hash crlf buf s =
     bindR (processRequest tok hash (range_of (buffer buf) (peek buf) crlf) s) (\<lambda>(finished, s).
     let s = (if finished then resetRequest s else s)
     in bindR (retrieveUntil (crlf + 2) buf) (\<lambda>buf. Inr (s, buf)))"

partial_function (option) onMessage_loop :: "tokenizer \<Rightarrow> (string \<Rightarrow> nat) \<Rightarrow> Session \<Rightarrow> Buffer \<Rightarrow> (Session \<times> Buffer) res option" where
  "onMessage_loop tok hash s buf =
     (if \<not> readableBytes buf > 0 then Some (Inr (s, buf))
      else case ses_state s of
        kNewCommand \<Rightarrow>
          (case choose_protocol buf s of
             Inl e \<Rightarrow> Some (Inl e)
           | Inr s \<Rightarrow>
               if ses_protocol s = kBinary then onMessage_loop tok hash s buf
               else (case findCRLF buf of
                  Some crlf \<Rightarrow>
                    (case process_line tok hash crlf buf s of
                       Inl e \<Rightarrow> Some (Inl e)
                     | Inr r \<Rightarrow> onMessage_loop tok hash (fst r) (snd r))
                | None \<Rightarrow> Some (Inr (if readableBytes buf > 1024 then conn_shutdown s else s, buf))))
      | kReceiveValue \<Rightarrow>
          (case receiveValue hash buf s of Inl e \<Rightarrow> Some (Inl e) | Inr r \<Rightarrow> onMessage_loop tok hash (fst r) (snd r))
      | kDiscardValue \<Rightarrow>
          (case discardValue buf s of Inl e \<Rightarrow> Some (Inl e) | Inr r \<Rightarrow> onMessage_loop tok hash (fst r) (snd r)))"

definition Session_onMessage :: "tokenizer \<Rightarrow> (string \<Rightarrow> nat) \<Rightarrow> Session \<Rightarrow> Buffer \<Rightarrow> (Session \<times> Buffer) res option" where
  "Session_onMessage tok hash s buf =
     (let initialReadable = readableBytes buf
      in case onMessage_loop tok hash s buf of
           None \<Rightarrow> None
         | Some r \<Rightarrow> Some (bindR r (\<lambda>(s, buf).
             Inr (s\<lparr>ses_bytesRead := szt (ses_bytesRead s + (initialReadable - readableBytes buf))\<rparr>, buf))))"

text \<open>\<open>MemcacheServer::onConnection\<close> on the map of the sessions by the name of their connection.\<close>

definition MemcacheServer_onConnection ::
  "(string \<Rightarrow> nat) \<Rightarrow> MemcacheServer \<Rightarrow> bool \<Rightarrow> string \<Rightarrow> (string \<rightharpoonup> Session) \<Rightarrow> (string \<rightharpoonup> Session) res" where
  "MemcacheServer_onConnection hash sv up name sessions =
     (if up
      then bindR (Session_new hash sv) (\<lambda>session.
           bindR (assertR (sessions name = None) ()) (\<lambda>_. Inr (sessions(name \<mapsto> session))))
      else bindR (assertR (sessions name \<noteq> None) ()) (\<lambda>_. Inr (sessions(name := None))))"

section \<open>One pass of the loop on the bytes\<close>

text \<open>
  \<open>ses_pass tok hash s xs\<close> is one pass over the readable bytes \<open>xs\<close>: the new session, and the bytes that are left for the next pass or
  \<open>None\<close> when the loop stops to wait for more.
\<close>

definition ses_pass :: "tokenizer \<Rightarrow> (string \<Rightarrow> nat) \<Rightarrow> Session \<Rightarrow> string \<Rightarrow> (Session \<times> string option) res" where
  "ses_pass tok hash s xs =
     (case ses_state s of
        kNewCommand \<Rightarrow>
          (case crlf_split xs of
             None \<Rightarrow> Inr (if length xs > 1024 then conn_shutdown s else s, None)
           | Some (line, rest) \<Rightarrow>
               bindR (processRequest tok hash line s) (\<lambda>(finished, s). Inr (if finished then resetRequest s else s, Some rest)))
      | kReceiveValue \<Rightarrow>
          (case ses_currItem s of
             None \<Rightarrow> Inl AssertFailed
           | Some item \<Rightarrow>
               bindR (Item_append (take (neededBytes item) xs) item) (\<lambda>item'.
               bindR (value_received hash item' s) (\<lambda>s. Inr (s, Some (drop (neededBytes item) xs)))))
      | kDiscardValue \<Rightarrow>
          bindR (assertR (ses_currItem s = None) ()) (\<lambda>_.
          if length xs < ses_bytesToDiscard s
          then Inr (s\<lparr>ses_bytesToDiscard := ses_bytesToDiscard s - length xs\<rparr>, Some [])
          else Inr ((resetRequest (s\<lparr>ses_bytesToDiscard := 0\<rparr>))\<lparr>ses_state := kNewCommand\<rparr>,
                    Some (drop (ses_bytesToDiscard s) xs))))"

lemma take_min: "take (min (length xs) n) xs = take n xs" "drop (min (length xs) n) xs = drop n xs"
  by (auto simp: min_def)

lemma receiveValue_pass:
  assumes "buf_inv b" and "ses_state s = kReceiveValue" and "ses_currItem s = Some item"
  shows "\<exists>b'. buf_inv b' \<and> content b' = drop (neededBytes item) (content b) \<and>
    receiveValue hash b s = bindR (Item_append (take (neededBytes item) (content b)) item) (\<lambda>item'.
      bindR (value_received hash item' s) (\<lambda>s. Inr (s, b')))"
proof -
  let ?n = "min (readableBytes b) (neededBytes item)"
  obtain b' where b': "retrieve ?n b = Inr b'" "buf_inv b'" "content b' = drop ?n (content b)"
    using retrieve_ok [OF assms(1), of ?n] by auto
  have "take ?n (content b) = take (neededBytes item) (content b)" "drop ?n (content b) = drop (neededBytes item) (content b)"
    using take_min [of "content b" "neededBytes item"] assms(1) by simp_all
  then show ?thesis using b' assms by (auto simp: receiveValue_def Let_def content_peek)
qed

lemma loop_empty: "buf_inv b \<Longrightarrow> content b = [] \<Longrightarrow> onMessage_loop tok hash s b = Some (Inr (s, b))"
  using length_content [of b] by (simp add: onMessage_loop.simps)

lemma loop_pass:
  assumes "buf_inv b" and "content b \<noteq> []" and "ses_protocol s = kAscii"
  shows "case ses_pass tok hash s (content b) of
      Inl e \<Rightarrow> onMessage_loop tok hash s b = Some (Inl e)
    | Inr (s', None) \<Rightarrow> onMessage_loop tok hash s b = Some (Inr (s', b))
    | Inr (s', Some rest) \<Rightarrow>
        \<exists>b'. buf_inv b' \<and> content b' = rest \<and> onMessage_loop tok hash s b = onMessage_loop tok hash s' b'"
proof -
  have r: "0 < readableBytes b" using assms(2) length_content [OF assms(1)] by (metis length_greater_0_conv)
  have proto: "choose_protocol b s = Inr s" using assms(3) by (simp add: choose_protocol_def)
  show ?thesis
  proof (cases "ses_state s")
    case kNewCommand
    note split = findCRLF_split [OF assms(1)]
    show ?thesis
    proof (cases "crlf_split (content b)")
      case None
      then show ?thesis using kNewCommand split r proto assms by (simp add: ses_pass_def onMessage_loop.simps [of tok hash s b])
    next
      case (Some lr)
      obtain line rest where lr: "lr = (line, rest)" by (cases lr)
      obtain crlf b' where b': "findCRLF b = Some crlf" "range_of (buffer b) (peek b) crlf = line"
        "retrieveUntil (crlf + 2) b = Inr b'" "buf_inv b'" "content b' = rest"
        using split Some lr by auto
      show ?thesis
      proof (cases "processRequest tok hash line s")
        case (Inl e)
        then show ?thesis using kNewCommand Some lr b' r proto assms(3)
          by (simp add: ses_pass_def onMessage_loop.simps [of tok hash s b] process_line_def)
      next
        case (Inr fs)
        then show ?thesis using kNewCommand Some lr b' r proto assms(3)
          by (cases fs) (auto simp: ses_pass_def onMessage_loop.simps [of tok hash s b] process_line_def Let_def)
      qed
    qed
  next
    case kReceiveValue
    show ?thesis
    proof (cases "ses_currItem s")
      case None
      then show ?thesis using kReceiveValue r by (simp add: ses_pass_def onMessage_loop.simps [of tok hash s b] receiveValue_def)
    next
      case (Some item)
      obtain b' where b': "buf_inv b'" "content b' = drop (neededBytes item) (content b)"
        "receiveValue hash b s = bindR (Item_append (take (neededBytes item) (content b)) item) (\<lambda>item'.
           bindR (value_received hash item' s) (\<lambda>s. Inr (s, b')))"
        using receiveValue_pass [OF assms(1) kReceiveValue Some] by blast
      show ?thesis
      proof (cases "bindR (Item_append (take (neededBytes item) (content b)) item) (\<lambda>item'. value_received hash item' s)")
        case (Inl e)
        then show ?thesis using kReceiveValue Some r b'(3)
          by (auto simp: ses_pass_def onMessage_loop.simps [of tok hash s b] bindR_def split: sum.splits)
      next
        case (Inr s')
        then show ?thesis using kReceiveValue Some r b'
          by (auto simp: ses_pass_def onMessage_loop.simps [of tok hash s b] bindR_Inr_iff)
      qed
    qed
  next
    case kDiscardValue
    obtain b' where b': "ses_bytesToDiscard s \<le> readableBytes b \<Longrightarrow> retrieve (ses_bytesToDiscard s) b = Inr b' \<and> buf_inv b' \<and>
        content b' = drop (ses_bytesToDiscard s) (content b)"
      using retrieve_ok [OF assms(1)] by (cases "ses_bytesToDiscard s \<le> readableBytes b") auto
    show ?thesis
    proof (cases "ses_currItem s = None")
      case True
      show ?thesis
      proof (cases "readableBytes b < ses_bytesToDiscard s")
        case lt: True
        then show ?thesis using kDiscardValue True r assms(1)
          by (auto simp: ses_pass_def onMessage_loop.simps [of tok hash s b] discardValue_def intro!: exI [of _ "retrieveAll b"])
      next
        case False
        then show ?thesis using kDiscardValue True r assms(1) b'
          by (auto simp: ses_pass_def onMessage_loop.simps [of tok hash s b] discardValue_def not_less)
      qed
    qed (use kDiscardValue r in \<open>simp add: ses_pass_def onMessage_loop.simps [of tok hash s b] discardValue_def\<close>)
  qed
qed

section \<open>The session stays well formed\<close>

text \<open>
  Between passes: the needle has room for the longest key; a session that expects a command has no request; one that receives a value has an
  incomplete item; one that discards a value has bytes left to discard.
\<close>

definition ses_base :: "Session \<Rightarrow> bool" where
  "ses_base s \<longleftrightarrow> ses_protocol s = kAscii \<and> valuelen (ses_needle s) = 2 \<and> 252 \<le> length (item_data (ses_needle s))"

definition ses_ready :: "Session \<Rightarrow> bool" where
  "ses_ready s \<longleftrightarrow> ses_command s = [] \<and> \<not> ses_noreply s \<and> ses_policy s = kInvalid \<and> ses_currItem s = None \<and>
     ses_bytesToDiscard s = 0"

definition ses_ok :: "(string \<Rightarrow> nat) \<Rightarrow> Session \<Rightarrow> bool" where
  "ses_ok hash s \<longleftrightarrow> ses_base s \<and> (case ses_state s of
      kNewCommand \<Rightarrow> ses_ready s
    | kReceiveValue \<Rightarrow> \<exists>it k n v. ses_currItem s = Some it \<and> item_at hash k n v it \<and> length v < n \<and> ses_policy s \<noteq> kInvalid
    | kDiscardValue \<Rightarrow> ses_currItem s = None \<and> 0 < ses_bytesToDiscard s)"

lemmas session_defs = reply_def conn_send_def conn_shutdown_def send_outputBuf_def MemcacheServer_stop_def

lemma ses_base_simps [simp]:
  "ses_base (reply m s) = ses_base s" "ses_state (reply m s) = ses_state s" "ses_needle (reply m s) = ses_needle s"
  "ses_base (conn_shutdown s) = ses_base s" "ses_state (conn_shutdown s) = ses_state s" "ses_ready (conn_shutdown s) = ses_ready s"
  "ses_base (MemcacheServer_stop s) = ses_base s" "ses_state (MemcacheServer_stop s) = ses_state s"
  "ses_base (send_outputBuf s) = ses_base s" "ses_state (send_outputBuf s) = ses_state s"
  "ses_base (resetRequest s) = ses_base s" "ses_state (resetRequest s) = ses_state s" "ses_ready (resetRequest s)"
  "ses_currItem (reply m s) = ses_currItem s" "ses_policy (reply m s) = ses_policy s"
  by (simp_all add: ses_base_def ses_ready_def session_defs resetRequest_def)

lemma ses_base_update [simp]:
  "ses_base (s\<lparr>ses_state := x\<rparr>) = ses_base s" "ses_base (s\<lparr>ses_currItem := i\<rparr>) = ses_base s"
  "ses_base (s\<lparr>ses_policy := p\<rparr>) = ses_base s" "ses_base (s\<lparr>ses_bytesToDiscard := n\<rparr>) = ses_base s"
  "ses_base (s\<lparr>ses_noreply := q\<rparr>) = ses_base s" "ses_base (s\<lparr>ses_command := c\<rparr>) = ses_base s"
  "ses_base (s\<lparr>ses_outputBuf := b\<rparr>) = ses_base s" "ses_base (s\<lparr>conn_calls := cs\<rparr>) = ses_base s"
  "ses_base (s\<lparr>ses_requestsProcessed := r\<rparr>) = ses_base s" "ses_base (s\<lparr>sv_shards := sh\<rparr>) = ses_base s"
  "ses_base (s\<lparr>g_cas := g\<rparr>) = ses_base s"
  by (simp_all add: ses_base_def)

lemma resetKey_base:
  "ses_base s \<Longrightarrow> length k \<le> kLongestKeySize \<Longrightarrow>
   \<exists>it. resetKey hash k (ses_needle s) = Inr it \<and> item_at hash k 2 [] it \<and> ses_base (s\<lparr>ses_needle := it\<rparr>)"
  using resetKey_ok [of k "ses_needle s" hash] by (auto simp: ses_base_def item_at_def kLongestKeySize_def)

lemma makeItem_Inr:
  assumes "makeItem hash k f x n c = Inr it"
  shows "2 \<le> n" and "item_at hash k (nat n) [] it"
proof -
  have n: "2 \<le> n" "int (length k) + n \<le> 2147483647"
    using assms by (auto simp: makeItem_def Item_new_def Let_def totalLen_def bindR_Inr_iff split: if_splits)
  then have "2 \<le> nat n" "length k + nat n \<le> 2147483647" "int (nat n) = n" by linarith+
  with makeItem_ok [of "nat n" k hash f x c] assms show "item_at hash k (nat n) [] it" by auto
  show "2 \<le> n" by (rule n)
qed

lemma deleteItem_frame [simp]:
  "ses_base (snd (deleteItem it s)) = ses_base s" "ses_state (snd (deleteItem it s)) = ses_state s"
  "ses_currItem (snd (deleteItem it s)) = ses_currItem s"
  by (simp_all add: deleteItem_def set_items_def)

lemma storeItem_frame:
  assumes "storeItem hash it p s = Inr (ok, ex, s')"
  shows "\<exists>sh g. s' = s\<lparr>sv_shards := sh, g_cas := g\<rparr>"
proof -
  have eq: "\<exists>sh g. s\<lparr>g_cas := g'\<rparr>\<lparr>sv_shards := sh'\<rparr> = s\<lparr>sv_shards := sh, g_cas := g\<rparr>" "\<exists>sh g. s = s\<lparr>sv_shards := sh, g_cas := g\<rparr>" for g' sh'
    by (rule exI [of _ sh'], rule exI [of _ g'], simp) (rule exI [of _ "sv_shards s"], rule exI [of _ "g_cas s"], simp)
  show ?thesis
    using assms eq
    by (cases p) (auto simp: storeItem_def store_new_def set_items_def Let_def bindR_Inr_iff split: if_splits option.splits)
qed

lemma to_size_pos: "0 < n \<Longrightarrow> n \<le> 2147483647 \<Longrightarrow> 0 < to_size n"
  by (simp add: two64_def)

lemma begin_update_ok:
  assumes "ses_base s" and "ses_currItem s = None" and "length key \<le> kLongestKeySize" and "ses_policy s \<noteq> kInvalid"
  shows "ends UNIV (begin_update hash key numbers s) (\<lambda>(fin, s'). \<not> fin \<and> ses_ok hash s')"
proof -
  obtain f x n c where num: "numbers = (f, x, n, c)" by (cases numbers)
  show ?thesis
  proof (cases "to_int (int n) > 1024 * 1024")
    case True
    let ?s = "reply (''SERVER_ERROR object too large for cache'' @ kCRLF) s"
    obtain it where it: "resetKey hash key (ses_needle ?s) = Inr it" "ses_base (?s\<lparr>ses_needle := it\<rparr>)"
      using resetKey_base [of ?s key hash] assms by auto
    show ?thesis using True it assms to_size_pos [of "to_int (int n) + 2"]
      by (simp add: begin_update_def num Let_def ses_ok_def)
  next
    case False
    show ?thesis
    proof (cases "makeItem hash key (of_nat f) (relative_exptime x (startTime s)) (to_int (int n) + 2) (of_nat c)")
      case (Inr it)
      have "item_at hash key (nat (to_int (int n) + 2)) [] it" "0 < nat (to_int (int n) + 2)"
        using makeItem_Inr [OF Inr] by simp_all
      then have "\<exists>k m v. item_at hash k m v it \<and> length v < m" by fastforce
      then show ?thesis using False Inr assms by (simp add: begin_update_def num Let_def ses_ok_def)
    qed (use False in \<open>simp add: begin_update_def num Let_def\<close>)
  qed
qed

lemma doUpdate_ok:
  assumes "ses_base s" and "ses_currItem s = None"
  shows "ends UNIV (doUpdate hash beg s) (\<lambda>(fin, s'). if fin then ses_base s' \<and> ses_state s' = ses_state s else ses_ok hash s')"
proof (cases "update_policy (ses_command s)")
  case (Inr policy)
  have p: "policy \<noteq> kInvalid" using Inr by (auto simp: update_policy_def split: if_splits)
  show ?thesis
  proof (cases beg)
    case (Cons key r)
    show ?thesis
    proof (cases "read_numbers policy key r")
      case (Some numbers)
      then have "length key \<le> kLongestKeySize" by (simp add: read_numbers_def split: if_splits)
      with assms p have "ends UNIV (begin_update hash key numbers (s\<lparr>ses_policy := policy\<rparr>)) (\<lambda>(fin, s'). \<not> fin \<and> ses_ok hash s')"
        by (intro begin_update_ok) simp_all
      then show ?thesis using Inr Cons Some by (auto simp: doUpdate_def Let_def elim: ends_mono)
    qed (use Inr Cons assms in \<open>simp add: doUpdate_def Let_def\<close>)
  qed (use Inr in \<open>simp add: doUpdate_def Let_def\<close>)
qed (simp add: doUpdate_def)

lemma doDelete_ok:
  assumes "ses_base s"
  shows "ends UNIV (doDelete hash beg s) (\<lambda>s'. ses_base s' \<and> ses_state s' = ses_state s)"
proof (cases beg)
  case (Cons key r)
  show ?thesis
  proof (cases "length key \<le> kLongestKeySize")
    case True
    obtain it where it: "resetKey hash key (ses_needle s) = Inr it" "ses_base (s\<lparr>ses_needle := it\<rparr>)"
      using resetKey_base [OF assms True, of hash] by auto
    obtain ok s' where d: "deleteItem it (s\<lparr>ses_needle := it\<rparr>) = (ok, s')" by (cases "deleteItem it (s\<lparr>ses_needle := it\<rparr>)")
    have "ses_base s'" "ses_state s' = ses_state s"
      using deleteItem_frame(1,2) [of it "s\<lparr>ses_needle := it\<rparr>"] it(2) d by simp_all
    then show ?thesis using Cons True it d assms by (simp add: doDelete_def assertR_def)
  qed (use Cons assms in \<open>simp add: doDelete_def assertR_def\<close>)
qed (simp add: doDelete_def assertR_def)

lemma get_keys_ok:
  assumes "ses_base s"
  shows "ends UNIV (get_keys hash needCas beg s) (\<lambda>(good, s'). ses_base s' \<and> ses_state s' = ses_state s)"
  using assms
proof (induction beg arbitrary: s)
  case (Cons key beg)
  show ?case
  proof (cases "length key \<le> kLongestKeySize")
    case True
    obtain it where it: "resetKey hash key (ses_needle s) = Inr it" "ses_base (s\<lparr>ses_needle := it\<rparr>)"
      using resetKey_base [OF Cons.prems True, of hash] by auto
    let ?s = "s\<lparr>ses_needle := it\<rparr>"
    let ?out = "case getItem it ?s of None \<Rightarrow> Inr ?s
        | Some item \<Rightarrow> bindR (Item_output needCas item (ses_outputBuf ?s)) (\<lambda>out. Inr (?s\<lparr>ses_outputBuf := out\<rparr>))"
    have "ends UNIV ?out (\<lambda>s'. ses_base s' \<and> ses_state s' = ses_state s)"
      using it(2) by (cases "getItem it ?s"; cases "Item_output needCas (the (getItem it ?s)) (ses_outputBuf ?s)") simp_all
    then have "ends UNIV (bindR ?out (get_keys hash needCas beg)) (\<lambda>(good, s'). ses_base s' \<and> ses_state s' = ses_state s)"
      by (rule ends_bind) (use Cons.IH in fastforce)
    then show ?thesis using True it(1) by (simp add: Let_def)
  qed (use Cons.prems in simp)
qed simp

lemma finish_get_ok: "ses_base s \<Longrightarrow> ends UNIV (finish_get s) (\<lambda>s'. ses_base s' \<and> ses_state s' = ses_state s)"
  by (cases "append_string (''END'' @ kCRLF) (ses_outputBuf s)") (simp_all add: finish_get_def Let_def)

lemma processRequest_ok:
  assumes "ses_base s" and "ses_ready s" and "ses_state s = kNewCommand"
  shows "ends UNIV (processRequest tok hash request s)
    (\<lambda>(fin, s'). if fin then ses_base s' \<and> ses_state s' = kNewCommand else ses_ok hash s')"
proof -
  define quiet where "quiet \<longleftrightarrow> length request \<ge> 8 \<and> drop (length request - 8) request = '' noreply''"
  define s1 where "s1 = s\<lparr>ses_requestsProcessed := szt (ses_requestsProcessed s + 1)\<rparr>"
  define s2 where "s2 = (if quiet then s1\<lparr>ses_noreply := True\<rparr> else s1)"
  have s2: "ses_base s2" "ses_state s2 = kNewCommand" "ses_currItem s2 = None"
    using assms by (auto simp: s2_def s1_def ses_ready_def)
  define toks where "toks = tok SpaceSeparator (if quiet then take (length request - 8) request else request)"
  show ?thesis
  proof (cases toks)
    case Nil
    then show ?thesis
      using assms(2) s2 unfolding processRequest_def Let_def quiet_def [symmetric] s1_def [symmetric] s2_def [symmetric] toks_def [symmetric]
      by (simp add: ses_ready_def)
  next
    case (Cons cmd beg)
    let ?s = "s2\<lparr>ses_command := cmd\<rparr>"
    define Q where "Q = (\<lambda>(fin, s'). if fin then ses_base s' \<and> ses_state s' = kNewCommand else ses_ok hash s')"
    have Q: "Q (True, s') \<longleftrightarrow> ses_base s' \<and> ses_state s' = kNewCommand" for s' by (simp add: Q_def)
    have b: "ses_base ?s" "ses_currItem ?s = None" "ses_state ?s = kNewCommand" using s2 by simp_all
    have u: "ends UNIV (doUpdate hash beg ?s) Q"
      using doUpdate_ok [OF b(1,2), of hash beg] unfolding Q_def b(3) .
    have g: "ends UNIV (bindR (get_keys hash (cmd = ''gets'') beg ?s) (\<lambda>(good, s).
          if \<not> good then Inr (True, s) else bindR (finish_get s) (\<lambda>s. Inr (True, s)))) Q"
      by (rule ends_bind [OF get_keys_ok [OF b(1), unfolded b(3)]])
        (auto simp: Q intro!: ends_bind [OF finish_get_ok])
    have d: "ends UNIV (bindR (doDelete hash beg ?s) (\<lambda>s. Inr (True, s))) Q"
      by (rule ends_bind [OF doDelete_ok [OF b(1), of hash beg, unfolded b(3)]]) (simp add: Q)
    show ?thesis
      using assms(2) b u g d Cons
      unfolding processRequest_def Let_def quiet_def [symmetric] s1_def [symmetric] s2_def [symmetric] toks_def [symmetric] Q_def [symmetric]
      by (auto simp: ses_ready_def Q)
  qed
qed

lemma value_received_ok:
  assumes "ses_base s" and "item_at hash k n v it" and "ses_policy s \<noteq> kInvalid" and "ses_state s = kReceiveValue"
  shows "ends UNIV (value_received hash it s) (ses_ok hash)"
proof (cases "neededBytes it = 0")
  case True
  let ?s = "s\<lparr>ses_currItem := Some it\<rparr>"
  have st: "ses_base s'" if "storeItem hash it (ses_policy s) ?s = Inr (ok, ex, s')" for ok ex s'
    using storeItem_frame [OF that] assms(1) by auto
  show ?thesis
    using True assms(1) st
    by (cases "storeItem hash it (ses_policy s) ?s")
      (auto simp: value_received_def Let_def ses_ok_def ses_ready_def resetRequest_def session_defs)
next
  case False
  then have "length v < n" using item_at_simps(1) [OF assms(2)] by simp
  then show ?thesis using False assms by (auto simp: value_received_def Let_def ses_ok_def)
qed

lemma ses_pass_ok:
  assumes "ses_ok hash s" and "xs \<noteq> []"
  shows "ends UNIV (ses_pass tok hash s xs) (\<lambda>(s', r). ses_ok hash s' \<and>
    (case r of None \<Rightarrow> ses_state s' = kNewCommand \<and> crlf_split xs = None | Some rest \<Rightarrow> length rest < length xs))"
proof (cases "ses_state s")
  case kNewCommand
  have r: "ses_base s" "ses_ready s" using assms(1) kNewCommand by (simp_all add: ses_ok_def)
  show ?thesis
  proof (cases "crlf_split xs")
    case None
    then show ?thesis using kNewCommand assms(1) r by (simp add: ses_pass_def ses_ok_def)
  next
    case (Some lr)
    obtain line rest where lr: "lr = (line, rest)" by (cases lr)
    have "length rest < length xs" using crlf_split_Some(2) Some lr by blast
    then have "ends UNIV (bindR (processRequest tok hash line s) (\<lambda>(finished, s). Inr (if finished then resetRequest s else s, Some rest)))
      (\<lambda>(s', r). ses_ok hash s' \<and>
        (case r of None \<Rightarrow> ses_state s' = kNewCommand \<and> crlf_split xs = None | Some rest \<Rightarrow> length rest < length xs))"
      by (intro ends_bind [OF processRequest_ok [OF r kNewCommand]]) (auto simp: ses_ok_def split: if_splits)
    then show ?thesis using kNewCommand Some lr by (simp add: ses_pass_def)
  qed
next
  case kReceiveValue
  then obtain it k n v where it: "ses_currItem s = Some it" "item_at hash k n v it" "length v < n" "ses_policy s \<noteq> kInvalid"
    "ses_base s"
    using assms(1) by (auto simp: ses_ok_def)
  have less: "length (drop (n - length v) xs) < length xs" using it(3) assms(2) by (cases xs) auto
  have need: "neededBytes it = n - length v" by (rule item_at_simps(1) [OF it(2)])
  have "length v + length (take (n - length v) xs) \<le> n" using it(3) by simp
  then obtain it' where it': "Item_append (take (n - length v) xs) it = Inr it'" "item_at hash k n (v @ take (n - length v) xs) it'"
    using Item_append_ok [OF it(2)] by blast
  have "ends UNIV (bindR (value_received hash it' s) (\<lambda>s. Inr (s, Some (drop (n - length v) xs))))
    (\<lambda>(s', r). ses_ok hash s' \<and>
      (case r of None \<Rightarrow> ses_state s' = kNewCommand \<and> crlf_split xs = None | Some rest \<Rightarrow> length rest < length xs))"
    by (rule ends_bind [OF value_received_ok [OF it(5) it'(2) it(4) kReceiveValue]]) (use less in simp)
  then show ?thesis using kReceiveValue it(1) it'(1) need by (simp add: ses_pass_def)
next
  case kDiscardValue
  then show ?thesis using assms
    by (auto simp: ses_pass_def ses_ok_def ses_ready_def resetRequest_def)
qed

lemma ses_ok_protocol: "ses_ok hash s \<Longrightarrow> ses_protocol s = kAscii"
  by (simp add: ses_ok_def ses_base_def)

lemma loop_returns:
  assumes "ses_ok hash s" and "buf_inv b"
  shows "\<exists>r. onMessage_loop tok hash s b = Some r \<and> ends UNIV r (\<lambda>(s', b'). ses_ok hash s' \<and> buf_inv b' \<and>
    (content b' = [] \<or> ses_state s' = kNewCommand \<and> crlf_split (content b') = None))"
  using assms
proof (induction "length (content b)" arbitrary: s b rule: less_induct)
  case less
  show ?case
  proof (cases "content b = []")
    case True
    then show ?thesis using loop_empty [OF less.prems(2)] less.prems by simp
  next
    case False
    note p = loop_pass [OF less.prems(2) False ses_ok_protocol [OF less.prems(1)], of tok hash] and ok = ses_pass_ok [OF less.prems(1) False, of tok]
    show ?thesis
    proof (cases "ses_pass tok hash s (content b)")
      case (Inr sr)
      obtain s' r where sr: "sr = (s', r)" by (cases sr)
      show ?thesis
      proof (cases r)
        case None
        then show ?thesis using p ok Inr sr less.prems by simp
      next
        case (Some rest)
        obtain b' where b': "buf_inv b'" "content b' = rest" "onMessage_loop tok hash s b = onMessage_loop tok hash s' b'"
          using p Inr sr Some by auto
        then show ?thesis using less.hyps [of b' s'] ok Inr sr Some by simp
      qed
    qed (use p in simp)
  qed
qed

section \<open>Printing and reading requests\<close>

fun unwords :: "string list \<Rightarrow> string" where
  "unwords [] = []"
| "unwords [w] = w"
| "unwords (w # ws) = w @ '' '' @ unwords ws"

definition word_ok :: "string \<Rightarrow> bool" where
  "word_ok w \<longleftrightarrow> w \<noteq> [] \<and> CHR '' '' \<notin> set w"

lemma SpaceSeparator_word:
  assumes "word_ok w" and "rest = [] \<or> hd rest = CHR '' ''"
  shows "SpaceSeparator (w @ rest) = Some (w, rest)"
proof -
  have "dropWhile (\<lambda>c. c = CHR '' '') (w @ rest) = w @ rest"
    using assms(1) by (cases w) (auto simp: word_ok_def)
  moreover have "std_find (CHR '' '') (w @ rest) = length w"
    using assms std_find_append_notin [of "CHR '' ''" w rest] by (cases rest) (auto simp: word_ok_def)
  ultimately show ?thesis using assms by (cases rest) (auto simp: SpaceSeparator_def Let_def memchr_def word_ok_def)
qed

lemma tokens_space: "tokenizer_ok tok \<Longrightarrow> tok SpaceSeparator (CHR '' '' # xs) = tok SpaceSeparator xs"
  using tokenizer_step [of tok "CHR '' '' # xs"] tokenizer_step [of tok xs] by (simp add: SpaceSeparator_def)

lemma tokens_empty: "tokenizer_ok tok \<Longrightarrow> tok SpaceSeparator [] = []"
  using tokenizer_step [of tok "[]"] by (simp add: SpaceSeparator_def)

lemma tokens_unwords:
  assumes "tokenizer_ok tok"
  shows "list_all word_ok ws \<Longrightarrow> tok SpaceSeparator (unwords ws) = ws"
proof (induction ws rule: unwords.induct)
  case (2 w)
  then show ?case using SpaceSeparator_word [of w "[]"] tokenizer_step [OF assms, of w] tokens_empty [OF assms] by simp
next
  case (3 w w' ws)
  then show ?case
    using SpaceSeparator_word [of w "CHR '' '' # unwords (w' # ws)"] tokens_space [OF assms]
      tokenizer_step [OF assms, of "w @ CHR '' '' # unwords (w' # ws)"]
    by simp
qed (simp add: tokens_empty [OF assms])

lemma digit_char: "n < 10 \<Longrightarrow> (of_char (char_of (48 + n) :: char) :: nat) = 48 + n"
  by simp

lemma nat_digits_digits: "c \<in> set (nat_digits n) \<Longrightarrow> isdigit c"
proof (induction n rule: nat_digits.induct)
  case (1 n)
  then show ?case using digit_char [of n] digit_char [of "n mod 10"]
    by (auto simp: nat_digits.simps [of n] isdigit_def split: if_splits)
qed

lemma nat_digits_ne [simp]: "nat_digits n \<noteq> []"
  by (simp add: nat_digits.simps [of n])

lemma decimal_snoc: "decimal (xs @ [c]) = 10 * decimal xs + (of_char c - 48)"
  by (simp add: decimal_def)

lemma decimal_nat_digits: "decimal (nat_digits n) = n"
proof (induction n rule: nat_digits.induct)
  case (1 n)
  then show ?case using digit_char [of n] digit_char [of "n mod 10"]
    by (auto simp: nat_digits.simps [of n] decimal_snoc decimal_snoc [of "[]", simplified] decimal_def [of "[]"])
qed

lemma isdigit_other: "isdigit c \<Longrightarrow> \<not> isspace c \<and> c \<noteq> CHR ''+'' \<and> c \<noteq> CHR ''-'' \<and> c \<noteq> CHR '' '' \<and> c \<noteq> CHR 0x0D \<and> c \<noteq> CHR ''y''"
  by (auto simp: isdigit_def isspace_def)

lemma nat_digits_word: "word_ok (nat_digits n)" "CHR 0x0D \<notin> set (nat_digits n)" "last (nat_digits n) \<noteq> CHR ''y''"
  using nat_digits_digits [of _ n] isdigit_other last_in_set [OF nat_digits_ne [of n]] by (auto simp: word_ok_def)

lemma strtoull_nat_digits:
  assumes "n < two64"
  shows "strtoull (nat_digits n) = (n, length (nat_digits n))"
proof -
  obtain c cs where c: "nat_digits n = c # cs" by (cases "nat_digits n") simp_all
  have "isdigit c" using nat_digits_digits [of c n] c by simp
  then have h: "takeWhile isspace (nat_digits n) = []" "c \<noteq> CHR ''+''" "c \<noteq> CHR ''-''"
    using isdigit_other c by auto
  have d: "takeWhile isdigit (nat_digits n) = nat_digits n"
    using nat_digits_digits by (simp add: takeWhile_eq_all_conv)
  show ?thesis using h d assms decimal_nat_digits [of n] c by (simp add: strtoull_def Let_def)
qed

lemma Reader_read_nat: "n < two64 \<Longrightarrow> Reader_read (nat_digits n # ts) = Some (n, ts)"
  by (simp add: Reader_read_def strtoull_nat_digits)

lemma noreply_last: "drop (length xs - 8) xs = '' noreply'' \<Longrightarrow> 8 \<le> length xs \<Longrightarrow> last xs = CHR ''y''"
  by (metis append_take_drop_id last_appendR last.simps list.distinct(1))

lemma unwords_last: "ws \<noteq> [] \<Longrightarrow> list_all (\<lambda>w. w \<noteq> []) ws \<Longrightarrow> last (unwords ws) = last (last ws) \<and> unwords ws \<noteq> []"
  by (induction ws rule: unwords.induct) auto

lemma unwords_set: "set (unwords ws) \<subseteq> insert (CHR '' '') (\<Union> (set ` set ws))"
  by (induction ws rule: unwords.induct) auto

text \<open>Only the key \<open>noreply\<close> is mistaken for the option at the end of a \<open>get\<close> line.\<close>

lemma get_not_noreply:
  assumes "CHR '' '' \<notin> set k" and "k \<noteq> ''noreply''"
  shows "drop (length (u @ '' '' @ k) - 8) (u @ '' '' @ k) \<noteq> '' noreply''"
proof
  let ?xs = "u @ '' '' @ k"
  assume "drop (length ?xs - 8) ?xs = '' noreply''"
  then have "?xs = take (length ?xs - 8) ?xs @ '' noreply''" by (metis append_take_drop_id)
  then have "rev k @ CHR '' '' # rev u = rev ''noreply'' @ CHR '' '' # rev (take (length ?xs - 8) ?xs)"
    by (metis (no_types, opaque_lifting) append_Cons append_Nil append_assoc rev.simps(2) rev_append rev_rev_ident)
  moreover have "takeWhile (\<lambda>c. c \<noteq> CHR '' '') (rev k @ CHR '' '' # rev u) = rev k"
    using assms(1) by (subst takeWhile_append2) auto
  moreover have "takeWhile (\<lambda>c. c \<noteq> CHR '' '') (rev ''noreply'' @ CHR '' '' # ys) = rev ''noreply''" for ys by simp
  ultimately have "rev k = rev ''noreply''" by metis
  then show False using assms(2) by (simp only: rev_is_rev_conv)
qed

section \<open>What a value looks like on the wire\<close>

definition value_header :: "bool \<Rightarrow> kv_entry \<Rightarrow> string" where
  "value_header needCas e = (case e of (f, x, v, c) \<Rightarrow>
     '' '' @ int_digits (uint f) @ '' '' @ int_digits (int (length v - 2)) @
     (if needCas then '' '' @ int_digits (uint c) else []) @ kCRLF)"

definition value_text :: "bool \<Rightarrow> string \<Rightarrow> kv_entry \<Rightarrow> string" where
  "value_text needCas k e = ''VALUE '' @ k @ value_header needCas e @ fst (snd (snd e))"

lemma put_simps:
  "length xs + length t < n \<Longrightarrow> put_text n t xs = xs @ t"
  "length xs + 32 \<le> n \<Longrightarrow> put_number n t xs = xs @ t"
  by (simp_all add: put_text_def put_number_def)

lemma header_stream:
  assumes "length v < 2147483648" and "2 \<le> length v" and "n = int (length v) - 2"
  shows "\<exists>b. foldR (shl (\<lambda>_ :: unit. []))
      ([L_char (CHR '' ''), L_uint f, L_char (CHR '' ''), L_int (word_of_int n)]
       @ (if needCas then [L_char (CHR '' ''), L_ulong c] else []) @ [L_cstr (Some kCRLF)])
      (FixedBuffer_new (replicate kSmallBuffer (char_of (0 :: nat)))) = Inr b \<and>
    fb_toString b = value_header needCas (f, x, v, c) \<and> length (fb_toString b) < 100"
proof -
  let ?items = "[L_char (CHR '' ''), L_uint f, L_char (CHR '' ''), L_int (word_of_int n)]
       @ (if needCas then [L_char (CHR '' ''), L_ulong c] else []) @ [L_cstr (Some kCRLF)]"
  have s: "sint (word_of_int n :: 32 word) = int (length v - 2)"
    using assms by (simp only: int_word_sint) (simp add: of_nat_diff)
  have l: "length (int_digits (uint f)) \<le> 21" "length (int_digits (uint c)) \<le> 21" "length (int_digits (int (length v - 2))) \<le> 21"
    using assms word_range(2) [of f] word_range(2) [of c] by (auto intro!: length_int_digits)
  have "fold (item_put (\<lambda>_ :: unit. []) 4000) ?items [] = value_header needCas (f, x, v, c)"
    using l by (simp add: put_simps s value_header_def)
  moreover have "length (value_header needCas (f, x, v, c)) < 100" using l by (simp add: value_header_def)
  moreover have "holds 4000 [] (FixedBuffer_new (replicate kSmallBuffer (char_of (0 :: nat))))"
    using new_holds [of "replicate kSmallBuffer (char_of (0 :: nat))"] by (simp add: kSmallBuffer_def)
  then have "ends {} (foldR (shl (\<lambda>_ :: unit. [])) ?items (FixedBuffer_new (replicate kSmallBuffer (char_of (0 :: nat)))))
      (holds 4000 (fold (item_put (\<lambda>_ :: unit. []) 4000) ?items []))"
    by (intro stream_holds) simp_all
  ultimately show ?thesis by (auto simp: ends_empty holds_def)
qed

lemma append_string_ok:
  assumes "buf_inv b" and "length d \<le> room b" and "length d < 2147483648"
  shows "\<exists>b'. append_string d b = Inr b' \<and> buf_inv b' \<and> content b' = content b @ d \<and> room b \<le> room b' + length d"
  using append_all_ok [OF assms(1,2)] append_string_eq [OF assms(3)] by auto

lemma Item_output_ok:
  assumes it: "item_full hash k e it" and "length k \<le> 250" and "fst (snd (snd e)) = v" and "length v \<le> 1048578"
    and b: "buf_inv b" and "2000000 \<le> room b"
  shows "\<exists>b'. Item_output needCas it b = Inr b' \<and> buf_inv b' \<and> content b' = content b @ value_text needCas k e \<and>
    room b \<le> room b' + 1100000"
proof -
  obtain f x c where e: "e = (f, x, v, c)" using assms(3) by (cases e) auto
  have at: "item_at hash k (length v) v it" and fl: "flags it = f" "cas it = c" using it e by (auto simp: item_full_def)
  have two: "2 \<le> length v" using at by (simp add: item_at_def)
  have key: "item_key it = k" "item_value it = v" "valuelen it = int (length v)"
    using item_at_simps [OF at] at by (simp_all add: item_at_def)
  obtain h where h: "foldR (shl (\<lambda>_ :: unit. []))
      ([L_char (CHR '' ''), L_uint f, L_char (CHR '' ''), L_int (word_of_int (valuelen it - 2))]
       @ (if needCas then [L_char (CHR '' ''), L_ulong c] else []) @ [L_cstr (Some kCRLF)])
      (FixedBuffer_new (replicate kSmallBuffer (char_of (0 :: nat)))) = Inr h"
    "fb_toString h = value_header needCas e" "length (fb_toString h) < 100"
    using header_stream [of v "valuelen it - 2" f needCas c x] assms(4) two e key(3) by fastforce
  obtain b1 where b1: "append_string ''VALUE '' b = Inr b1" "buf_inv b1" "content b1 = content b @ ''VALUE ''" "room b \<le> room b1 + 6"
    using append_string_ok [OF b, of "''VALUE ''"] assms(6) by auto
  obtain b2 where b2: "append_data k (length k) b1 = Inr b2" "buf_inv b2" "content b2 = content b1 @ k" "room b1 \<le> room b2 + length k"
    using append_all_ok [OF b1(2), of k] assms(2,6) b1(4) by auto
  obtain b3 where b3: "append_data (fb_toString h) (length (fb_toString h)) b2 = Inr b3" "buf_inv b3" "content b3 = content b2 @ fb_toString h"
    "room b2 \<le> room b3 + length (fb_toString h)"
    using append_all_ok [OF b2(2), of "fb_toString h"] assms(2,6) b1(4) b2(4) h(3) by auto
  obtain b4 where b4: "append_data v (length v) b3 = Inr b4" "buf_inv b4" "content b4 = content b3 @ v" "room b3 \<le> room b4 + length v"
    using append_all_ok [OF b3(2), of v] assms(2,4,6) b1(4) b2(4) b3(4) h(3) by auto
  have "Item_output needCas it b = Inr b4"
    by (simp only: Item_output_def b1(1) b2(1) b3(1) b4(1) h(1) key(1,2) fl bindR_simps)
  moreover have "content b4 = content b @ value_text needCas k e"
    using b1(3) b2(3) b3(3) b4(3) h(2) assms(3) by (simp add: value_text_def)
  moreover have "room b \<le> room b4 + 1100000" using b1(4) b2(4) b3(4) b4(4) h(3) assms(2,4) by simp
  ultimately show ?thesis using b4(2) by blast
qed

section \<open>A set and a get\<close>

definition set_line :: "string \<Rightarrow> nat \<Rightarrow> nat \<Rightarrow> string \<Rightarrow> string" where
  "set_line k f x v = unwords [''set'', k, nat_digits f, nat_digits x, nat_digits (length v)]"

definition get_line :: "string \<Rightarrow> string" where
  "get_line k = unwords [''get'', k]"

definition key_ok :: "string \<Rightarrow> bool" where
  "key_ok k \<longleftrightarrow> word_ok k \<and> CHR 0x0D \<notin> set k \<and> length k \<le> 250 \<and> k \<noteq> ''noreply''"

lemma represents_shards: "sv_shards s = sv_shards s' \<Longrightarrow> represents hash m s = represents hash m s'"
  by (simp add: represents_def)

text \<open>A request line without the option goes to its handler.\<close>

lemma processRequest_plain:
  assumes "ses_ready s" and "\<not> (8 \<le> length line \<and> drop (length line - 8) line = '' noreply'')"
    and "tok SpaceSeparator line = cmd # beg"
  defines "s1 \<equiv> s\<lparr>ses_requestsProcessed := szt (ses_requestsProcessed s + 1), ses_command := cmd\<rparr>"
  shows "cmd = ''set'' \<Longrightarrow> processRequest tok hash line s = doUpdate hash beg s1"
    and "cmd = ''get'' \<Longrightarrow> processRequest tok hash line s = bindR (get_keys hash False beg s1) (\<lambda>(good, s).
      if \<not> good then Inr (True, s) else bindR (finish_get s) (\<lambda>s. Inr (True, s)))"
proof -
  have q: "(8 \<le> length line \<and> drop (length line - 8) line = '' noreply'') = False" using assms(2) by simp
  note r = assms(1) [unfolded ses_ready_def]
  show "processRequest tok hash line s = doUpdate hash beg s1" if "cmd = ''set''"
    unfolding processRequest_def Let_def q if_False assms(3) s1_def using r that by simp
  show "processRequest tok hash line s = bindR (get_keys hash False beg s1) (\<lambda>(good, s).
      if \<not> good then Inr (True, s) else bindR (finish_get s) (\<lambda>s. Inr (True, s)))" if "cmd = ''get''"
    unfolding processRequest_def Let_def q if_False assms(3) s1_def using r that by simp
qed

lemma relative_exptime_near: "x \<le> 2592000 \<Longrightarrow> relative_exptime x start = int x"
proof -
  assume x: "x \<le> 2592000"
  then have "sint (of_nat x :: 64 word) = int x"
    using int_word_sint [of "int x", where 'a = 64] by simp
  with x show ?thesis by (simp add: relative_exptime_def)
qed

lemma set_pass:
  assumes "ses_ok hash s" and "ses_state s = kNewCommand" and k: "key_ok k" and "f < 4294967296" and x: "x \<le> 2592000"
    and v: "length v \<le> 1048576" and tk: "tokenizer_ok tok"
  shows "\<exists>it. ses_pass tok hash s (set_line k f x v @ kCRLF @ rest) =
      Inr (s\<lparr>ses_requestsProcessed := szt (ses_requestsProcessed s + 1), ses_command := ''set'', ses_policy := kSet,
             ses_currItem := Some it, ses_state := kReceiveValue\<rparr>, Some rest) \<and>
    item_at hash k (length v + 2) [] it \<and> flags it = of_nat f \<and> rel_exptime it = int x \<and> cas it = 0"
proof -
  let ?ws = "[''set'', k, nat_digits f, nat_digits x, nat_digits (length v)]"
  have ready: "ses_ready s" using assms(1,2) by (simp add: ses_ok_def)
  have ws: "list_all word_ok ?ws" using k nat_digits_word(1) by (simp add: key_ok_def) (simp add: word_ok_def)
  then have toks: "tok SpaceSeparator (set_line k f x v) = ''set'' # [k, nat_digits f, nat_digits x, nat_digits (length v)]"
    using tokens_unwords [OF tk ws] by (simp only: set_line_def)
  have "last (set_line k f x v) = last (nat_digits (length v))"
    using unwords_last [of ?ws] ws by (simp add: set_line_def word_ok_def)
  then have plain: "\<not> (8 \<le> length (set_line k f x v) \<and> drop (length (set_line k f x v) - 8) (set_line k f x v) = '' noreply'')"
    using noreply_last [of "set_line k f x v"] nat_digits_word(3) by auto
  have "CHR 0x0D \<notin> set (set_line k f x v)"
    using unwords_set [of ?ws] nat_digits_word(2) k by (auto simp: set_line_def key_ok_def)
  then have split: "crlf_split (set_line k f x v @ kCRLF @ rest) = Some (set_line k f x v, rest)" by (rule crlf_split_line)
  have num: "read_numbers kSet k [nat_digits f, nat_digits x, nat_digits (length v)] = Some (f, x, length v, 0)"
    using k assms(4) x v by (simp add: read_numbers_def Reader_read_nat key_ok_def kLongestKeySize_def two64_def)
  obtain it where it: "makeItem hash k (of_nat f) (int x) (int (length v + 2)) 0 = Inr it" "item_at hash k (length v + 2) [] it"
    "flags it = of_nat f" "rel_exptime it = int x" "cas it = 0"
    using makeItem_ok [of "length v + 2" k hash "of_nat f" "int x" 0] v k by (auto simp: key_ok_def)
  let ?s1 = "s\<lparr>ses_requestsProcessed := szt (ses_requestsProcessed s + 1), ses_command := ''set''\<rparr>"
  have "doUpdate hash [k, nat_digits f, nat_digits x, nat_digits (length v)] ?s1 =
      Inr (False, ?s1\<lparr>ses_policy := kSet, ses_currItem := Some it, ses_state := kReceiveValue\<rparr>)"
    using num it(1) v relative_exptime_near [OF x, of "startTime s"]
    by (simp add: doUpdate_def update_policy_def begin_update_def Let_def add.commute)
  then have "processRequest tok hash (set_line k f x v) s =
      Inr (False, ?s1\<lparr>ses_policy := kSet, ses_currItem := Some it, ses_state := kReceiveValue\<rparr>)"
    using processRequest_plain(1) [where tok = tok and hash = hash, OF ready plain toks refl] by simp
  then show ?thesis using it split assms(2) by (intro exI [of _ it]) (simp add: ses_pass_def)
qed

lemma value_pass:
  assumes st: "ses_state s = kReceiveValue" "ses_currItem s = Some it" "ses_policy s = kSet" "\<not> ses_noreply s" "conn_connected s"
    and it: "item_at hash k (length v + 2) [] it" "flags it = f" "rel_exptime it = x"
    and rep: "represents hash m s"
  shows "\<exists>s'. ses_pass tok hash s (v @ kCRLF @ rest) = Inr (s', Some rest) \<and> ses_state s' = kNewCommand \<and>
    represents hash (m(k \<mapsto> (f, x, v @ kCRLF, g_cas s + 1))) s' \<and> conn_connected s' \<and>
    conn_calls s' = conn_calls s @ [McSend (''STORED'' @ kCRLF)] \<and> ses_outputBuf s' = ses_outputBuf s"
proof -
  have need: "neededBytes it = length (v @ kCRLF)" using item_at_simps(1) [OF it(1)] by simp
  obtain it' where a: "Item_append (v @ kCRLF) it = Inr it'" "item_at hash k (length (v @ kCRLF)) (v @ kCRLF) it'"
    "flags it' = f" "rel_exptime it' = x"
    using Item_append_ok [OF it(1), of "v @ kCRLF"] it(2,3) by auto
  have full: "item_full hash k (f, x, v @ kCRLF, cas it') it'" using a by (simp add: item_full_def)
  have done0: "neededBytes it' = 0" "endsWithCRLF it'"
    using item_at_simps(1) [OF a(2)] endsWithCRLF_iff [OF a(2)] by simp_all
  let ?s = "s\<lparr>ses_currItem := Some it'\<rparr>"
  let ?ex = "items_of it' ?s (item_key it') \<noteq> None"
  let ?s1 = "store_new ?ex it' ?s"
  have rep': "represents hash m ?s" using rep represents_shards [of ?s s] by simp
  have "m k = None" if "\<not> ?ex"
    using represents_lookup [OF rep' a(2)] that by simp
  then have "represents hash (m(k \<mapsto> (f, x, v @ kCRLF, g_cas s + 1))) ?s1"
    using store_new_ok [OF rep' full, of ?ex] by auto
  moreover have st1: "storeItem hash it' kSet ?s = Inr (True, ?ex, ?s1)"
    using done0(1) by (simp add: storeItem_def Let_def)
  obtain sh g where fr: "?s1 = ?s\<lparr>sv_shards := sh, g_cas := g\<rparr>" using storeItem_frame [OF st1] by blast
  have vr: "value_received hash it' s = Inr ((resetRequest (reply (''STORED'' @ kCRLF) ?s1))\<lparr>ses_state := kNewCommand\<rparr>)"
    using done0 st(3) st1 fr by (simp add: value_received_def Let_def store_reply_def)
  have "ses_pass tok hash s (v @ kCRLF @ rest) = Inr ((resetRequest (reply (''STORED'' @ kCRLF) ?s1))\<lparr>ses_state := kNewCommand\<rparr>, Some rest)"
    using st(1,2) need a(1) vr by (simp add: ses_pass_def)
  moreover have "sv_shards ((resetRequest (reply (''STORED'' @ kCRLF) ?s1))\<lparr>ses_state := kNewCommand\<rparr>) = sv_shards ?s1"
    by (simp add: resetRequest_def session_defs)
  ultimately show ?thesis
    using represents_shards [of "(resetRequest (reply (''STORED'' @ kCRLF) ?s1))\<lparr>ses_state := kNewCommand\<rparr>" ?s1 hash] fr st(4,5)
    by (simp add: resetRequest_def session_defs)
qed

definition found_text :: "(string \<rightharpoonup> kv_entry) \<Rightarrow> string \<Rightarrow> string" where
  "found_text m k = (case m k of None \<Rightarrow> [] | Some e \<Rightarrow> value_text False k e)"

lemma get_key_ok:
  assumes "ses_base s" and "represents hash m s" and "length k \<le> 250"
    and size: "\<And>e. m k = Some e \<Longrightarrow> length (fst (snd (snd e))) \<le> 1048578"
    and buf: "buf_inv (ses_outputBuf s)" "2000000 \<le> room (ses_outputBuf s)"
  shows "\<exists>nd out. get_keys hash False (k # ks) s = get_keys hash False ks (s\<lparr>ses_needle := nd, ses_outputBuf := out\<rparr>) \<and>
    ses_base (s\<lparr>ses_needle := nd, ses_outputBuf := out\<rparr>) \<and> buf_inv out \<and>
    content out = content (ses_outputBuf s) @ found_text m k \<and> room (ses_outputBuf s) \<le> room out + 1100000"
proof -
  obtain nd where nd: "resetKey hash k (ses_needle s) = Inr nd" "item_at hash k 2 [] nd" "ses_base (s\<lparr>ses_needle := nd\<rparr>)"
    using resetKey_base [OF assms(1)] assms(3) by (auto simp: kLongestKeySize_def)
  let ?s = "s\<lparr>ses_needle := nd\<rparr>"
  have key: "length k \<le> kLongestKeySize" using assms(3) by (simp add: kLongestKeySize_def)
  have look: "rel_option (item_full hash k) (m k) (getItem nd ?s)"
    using represents_lookup [of hash m ?s, OF _ nd(2)] represents_shards [of ?s s hash m] assms(2) by (simp add: getItem_def)
  show ?thesis
  proof (cases "m k")
    case None
    then have "getItem nd ?s = None" using look by simp
    then have "get_keys hash False (k # ks) s = get_keys hash False ks (?s\<lparr>ses_outputBuf := ses_outputBuf s\<rparr>)"
      using nd(1) key by (simp add: Let_def)
    then show ?thesis using None nd(3) buf by (intro exI [of _ nd] exI [of _ "ses_outputBuf s"]) (simp add: found_text_def)
  next
    case (Some e)
    then obtain it where it: "getItem nd ?s = Some it" "item_full hash k e it" using look by (auto elim: option.rel_cases)
    obtain out where out: "Item_output False it (ses_outputBuf s) = Inr out" "buf_inv out"
      "content out = content (ses_outputBuf s) @ value_text False k e" "room (ses_outputBuf s) \<le> room out + 1100000"
      using Item_output_ok [OF it(2) assms(3) refl size [OF Some] buf, of False] by blast
    have "get_keys hash False (k # ks) s = get_keys hash False ks (?s\<lparr>ses_outputBuf := out\<rparr>)"
      using nd(1) key it(1) out(1) by (simp add: Let_def)
    then show ?thesis using Some nd(3) out by (intro exI [of _ nd] exI [of _ out]) (simp add: found_text_def)
  qed
qed

lemma finish_get_text:
  assumes "buf_inv (ses_outputBuf s)" and "100 \<le> room (ses_outputBuf s)" and "conn_connected s"
  defines "text \<equiv> content (ses_outputBuf s) @ ''END'' @ kCRLF"
  shows "\<exists>out. finish_get s = Inr (s\<lparr>ses_outputBuf := out,
      conn_calls := conn_calls s @ [McShrink (65536 + length text), McSend text]\<rparr>) \<and> buf_inv out \<and> content out = []"
proof -
  obtain b where b: "append_string (''END'' @ kCRLF) (ses_outputBuf s) = Inr b" "buf_inv b" "content b = text"
    using append_string_ok [OF assms(1), of "''END'' @ kCRLF"] assms(2) by (auto simp: text_def)
  then have "readableBytes b = length text" using length_content [OF b(2)] by simp
  then show ?thesis using b assms(3)
    by (intro exI [of _ "retrieveAll b"]) (simp add: finish_get_def Let_def session_defs)
qed

lemma get_pass:
  assumes "ses_ok hash s" and "ses_state s = kNewCommand" and k: "key_ok k" and rep: "represents hash m s"
    and size: "\<And>e. m k = Some e \<Longrightarrow> length (fst (snd (snd e))) \<le> 1048578"
    and buf: "buf_inv (ses_outputBuf s)" "2000000 \<le> room (ses_outputBuf s)" "conn_connected s"
    and tk: "tokenizer_ok tok"
  defines "text \<equiv> content (ses_outputBuf s) @ found_text m k @ ''END'' @ kCRLF"
  shows "\<exists>s'. ses_pass tok hash s (get_line k @ kCRLF @ rest) = Inr (s', Some rest) \<and> sv_shards s' = sv_shards s \<and>
    conn_calls s' = conn_calls s @ [McShrink (65536 + length text), McSend text]"
proof -
  have ready: "ses_ready s" "ses_base s" using assms(1,2) by (simp_all add: ses_ok_def)
  have toks: "tok SpaceSeparator (get_line k) = ''get'' # [k]"
    using tokens_unwords [OF tk, of "[''get'', k]"] k by (simp add: get_line_def key_ok_def) (simp add: word_ok_def)
  have plain: "\<not> (8 \<le> length (get_line k) \<and> drop (length (get_line k) - 8) (get_line k) = '' noreply'')"
    using get_not_noreply [of k "''get''"] k by (simp add: get_line_def key_ok_def word_ok_def)
  have "CHR 0x0D \<notin> set (get_line k)" using k by (simp add: get_line_def key_ok_def)
  then have split: "crlf_split (get_line k @ kCRLF @ rest) = Some (get_line k, rest)" by (rule crlf_split_line)
  let ?s1 = "s\<lparr>ses_requestsProcessed := szt (ses_requestsProcessed s + 1), ses_command := ''get''\<rparr>"
  have s1: "ses_base ?s1" "represents hash m ?s1" "length k \<le> 250" "buf_inv (ses_outputBuf ?s1)" "2000000 \<le> room (ses_outputBuf ?s1)"
    using ready(2) rep represents_shards [of ?s1 s hash m] k buf by (simp_all add: key_ok_def)
  obtain nd out where g: "get_keys hash False [k] ?s1 = Inr (True, ?s1\<lparr>ses_needle := nd, ses_outputBuf := out\<rparr>)" "buf_inv out"
    "content out = content (ses_outputBuf s) @ found_text m k" "room (ses_outputBuf s) \<le> room out + 1100000"
    using get_key_ok [OF s1(1-3) size s1(4,5), of "[]"] by auto
  let ?s2 = "?s1\<lparr>ses_needle := nd, ses_outputBuf := out\<rparr>"
  obtain out' where f: "finish_get ?s2 = Inr (?s2\<lparr>ses_outputBuf := out',
      conn_calls := conn_calls s @ [McShrink (65536 + length text), McSend text]\<rparr>)"
    using finish_get_text [of ?s2] g(2-4) buf by (auto simp: text_def)
  have "processRequest tok hash (get_line k) s = Inr (True, ?s2\<lparr>ses_outputBuf := out',
      conn_calls := conn_calls s @ [McShrink (65536 + length text), McSend text]\<rparr>)"
    using processRequest_plain(2) [where tok = tok and hash = hash, OF ready(1) plain toks refl] g(1) f by simp
  then show ?thesis using split assms(2) by (simp add: ses_pass_def resetRequest_def)
qed

lemma loop_next:
  assumes "ses_ok hash s" and "buf_inv b" and "content b \<noteq> []" and "ses_pass tok hash s (content b) = Inr (s', Some rest)"
  shows "\<exists>b'. buf_inv b' \<and> content b' = rest \<and> onMessage_loop tok hash s b = onMessage_loop tok hash s' b'" and "ses_ok hash s'"
  using loop_pass [OF assms(2,3) ses_ok_protocol [OF assms(1)], of tok hash] ses_pass_ok [OF assms(1,3), of tok] assms(4) by auto

lemma onMessage_result:
  "onMessage_loop tok hash s b = Some (Inr (s', b')) \<Longrightarrow>
   Session_onMessage tok hash s b = Some (Inr (s'\<lparr>ses_bytesRead := szt (ses_bytesRead s' + (readableBytes b - readableBytes b'))\<rparr>, b'))"
  by (simp add: Session_onMessage_def)

lemma set_get_run:
  assumes ok: "ses_ok hash s" "ses_state s = kNewCommand" and con: "conn_connected s" and rep: "represents hash m s"
    and k: "key_ok k" and num: "f < 4294967296" "x \<le> 2592000" and v: "length v \<le> 1048576"
    and out: "buf_inv (ses_outputBuf s)" "content (ses_outputBuf s) = []" "2000000 \<le> room (ses_outputBuf s)"
    and b: "buf_inv b" "content b = set_line k f x v @ kCRLF @ v @ kCRLF @ get_line k @ kCRLF"
    and tk: "tokenizer_ok tok"
  defines "e \<equiv> (of_nat f, int x, v @ kCRLF, g_cas s + 1)"
  defines "text \<equiv> value_text False k e @ ''END'' @ kCRLF"
  shows "\<exists>s' b'. onMessage_loop tok hash s b = Some (Inr (s', b')) \<and> content b' = [] \<and> represents hash (m(k \<mapsto> e)) s' \<and>
    conn_calls s' = conn_calls s @ [McSend (''STORED'' @ kCRLF), McShrink (65536 + length text), McSend text]"
proof -
  obtain it where p1: "ses_pass tok hash s (content b) =
      Inr (s\<lparr>ses_requestsProcessed := szt (ses_requestsProcessed s + 1), ses_command := ''set'', ses_policy := kSet,
             ses_currItem := Some it, ses_state := kReceiveValue\<rparr>, Some (v @ kCRLF @ get_line k @ kCRLF))"
    and it: "item_at hash k (length v + 2) [] it" "flags it = of_nat f" "rel_exptime it = int x"
    using set_pass [OF ok k num v tk] unfolding b(2) by blast
  define s1 where "s1 = s\<lparr>ses_requestsProcessed := szt (ses_requestsProcessed s + 1), ses_command := ''set'',
    ses_policy := kSet, ses_currItem := Some it, ses_state := kReceiveValue\<rparr>"
  have "content b \<noteq> []" using b(2) by (simp add: kCRLF_def)
  from loop_next [OF ok(1) b(1) this p1 [folded s1_def]] obtain b1 where b1: "buf_inv b1"
    "content b1 = v @ kCRLF @ get_line k @ kCRLF" "onMessage_loop tok hash s b = onMessage_loop tok hash s1 b1" "ses_ok hash s1" by blast
  have s1: "ses_state s1 = kReceiveValue" "ses_currItem s1 = Some it" "ses_policy s1 = kSet" "\<not> ses_noreply s1" "conn_connected s1"
    "represents hash m s1" "g_cas s1 = g_cas s" "conn_calls s1 = conn_calls s" "ses_outputBuf s1 = ses_outputBuf s"
    using ok con rep represents_shards [of s1 s hash m] by (simp_all add: s1_def ses_ok_def ses_ready_def)
  obtain s2 where p2: "ses_pass tok hash s1 (content b1) = Inr (s2, Some (get_line k @ kCRLF))"
    and s2: "ses_state s2 = kNewCommand" "represents hash (m(k \<mapsto> e)) s2" "conn_connected s2"
      "conn_calls s2 = conn_calls s @ [McSend (''STORED'' @ kCRLF)]" "ses_outputBuf s2 = ses_outputBuf s"
    using value_pass [OF s1(1-5) it s1(6), of tok "get_line k @ kCRLF"] s1(7-9) b1(2) by (auto simp: e_def)
  have "content b1 \<noteq> []" using b1(2) by (simp add: kCRLF_def)
  from loop_next [OF b1(4,1) this p2] obtain b2 where b2: "buf_inv b2" "content b2 = get_line k @ kCRLF"
    "onMessage_loop tok hash s1 b1 = onMessage_loop tok hash s2 b2" "ses_ok hash s2" by blast
  have "length (fst (snd (snd e'))) \<le> 1048578" if "(m(k \<mapsto> e)) k = Some e'" for e'
    using that v by (auto simp: e_def)
  moreover have "content (ses_outputBuf s2) @ found_text (m(k \<mapsto> e)) k @ ''END'' @ kCRLF = text"
    using out(2) s2(5) by (simp add: found_text_def text_def)
  ultimately obtain s3 where p3: "ses_pass tok hash s2 (content b2) = Inr (s3, Some [])"
    and s3: "sv_shards s3 = sv_shards s2" "conn_calls s3 = conn_calls s2 @ [McShrink (65536 + length text), McSend text]"
    using get_pass [OF b2(4) s2(1) k s2(2), where rest = "[]" and tok = tok] tk out(1,3) s2(3,5) b2(2) by auto
  have "content b2 \<noteq> []" using b2(2) by (simp add: kCRLF_def)
  from loop_next(1) [OF b2(4,1) this p3] obtain b3 where b3: "buf_inv b3" "content b3 = []"
    "onMessage_loop tok hash s2 b2 = onMessage_loop tok hash s3 b3" by blast
  then have "onMessage_loop tok hash s b = Some (Inr (s3, b3))" using b1(3) b2(3) loop_empty by simp
  moreover have "represents hash (m(k \<mapsto> e)) s3" using represents_shards [OF s3(1), of hash "m(k \<mapsto> e)"] s2(2) by simp
  ultimately show ?thesis using s3(2) s2(4) b3(2) by auto
qed

lemma long_key_pass:
  assumes "ses_ok hash s" and "ses_state s = kNewCommand" and "key_ok k" and rep: "represents hash m s"
    and size: "\<And>e. m k = Some e \<Longrightarrow> length (fst (snd (snd e))) \<le> 1048578"
    and buf: "buf_inv (ses_outputBuf s)" "4000000 \<le> room (ses_outputBuf s)" "conn_connected s"
    and w: "word_ok w" "CHR 0x0D \<notin> set w" "250 < length w" and tk: "tokenizer_ok tok"
  shows "\<exists>s'. ses_pass tok hash s (unwords [''get'', k, w] @ kCRLF @ rest) = Inr (s', Some rest) \<and> sv_shards s' = sv_shards s \<and>
    ses_state s' = kNewCommand \<and> conn_connected s' \<and>
    conn_calls s' = conn_calls s @ [McSend (''CLIENT_ERROR bad command line format'' @ kCRLF)] \<and>
    buf_inv (ses_outputBuf s') \<and> content (ses_outputBuf s') = content (ses_outputBuf s) @ found_text m k \<and>
    2000000 \<le> room (ses_outputBuf s')"
proof -
  let ?line = "unwords [''get'', k, w]"
  have ready: "ses_ready s" "ses_base s" using assms(1,2) by (simp_all add: ses_ok_def)
  have toks: "tok SpaceSeparator ?line = ''get'' # [k, w]"
    by (rule tokens_unwords [OF tk]) (use assms(3) w in \<open>simp add: key_ok_def, simp add: word_ok_def\<close>)
  have "w \<noteq> ''noreply''" using w(3) by auto
  then have plain: "\<not> (8 \<le> length ?line \<and> drop (length ?line - 8) ?line = '' noreply'')"
    using get_not_noreply [of w "''get '' @ k"] w(1) by (simp add: word_ok_def)
  have "CHR 0x0D \<notin> set ?line" using assms(3) w(2) by (simp add: key_ok_def)
  then have split: "crlf_split (?line @ kCRLF @ rest) = Some (?line, rest)" by (rule crlf_split_line)
  let ?s1 = "s\<lparr>ses_requestsProcessed := szt (ses_requestsProcessed s + 1), ses_command := ''get''\<rparr>"
  have s1: "ses_base ?s1" "represents hash m ?s1" "length k \<le> 250" "buf_inv (ses_outputBuf ?s1)" "2000000 \<le> room (ses_outputBuf ?s1)"
    using ready(2) rep represents_shards [of ?s1 s hash m] assms(3) buf by (simp_all add: key_ok_def)
  obtain nd out where g: "get_keys hash False [k, w] ?s1 = get_keys hash False [w] (?s1\<lparr>ses_needle := nd, ses_outputBuf := out\<rparr>)"
    "buf_inv out" "content out = content (ses_outputBuf s) @ found_text m k" "room (ses_outputBuf s) \<le> room out + 1100000"
    using get_key_ok [OF s1(1-3) size s1(4,5), of "[w]"] by auto
  have "processRequest tok hash ?line s =
      Inr (True, reply (''CLIENT_ERROR bad command line format'' @ kCRLF) (?s1\<lparr>ses_needle := nd, ses_outputBuf := out\<rparr>))"
    using processRequest_plain(2) [where tok = tok and hash = hash, OF ready(1) plain toks refl] g(1) w(3) by (simp add: kLongestKeySize_def)
  then show ?thesis using split assms(2) g(2-4) buf ready(1)
    by (simp add: ses_pass_def resetRequest_def session_defs ses_ready_def)
qed

section \<open>Properties\<close>

lemma Session_new_ok:
  "\<exists>s. Session_new hash sv = Inr s \<and> ses_ok hash s \<and> ses_state s = kNewCommand \<and> conn_connected s \<and> conn_calls s = [] \<and>
     ses_outputBuf s = emptyBuffer \<and> sv_shards s = sv_shards sv \<and> g_cas s = g_cas sv"
proof -
  obtain n where n: "makeItem hash kLongestKey 0 0 2 0 = Inr n" "item_at hash kLongestKey 2 [] n"
    using makeItem_ok [of 2 kLongestKey hash 0 0 0] by (auto simp: kLongestKey_def kLongestKeySize_def)
  then have "valuelen n = 2" "252 \<le> length (item_data n)"
    by (auto simp: item_at_def kLongestKey_def kLongestKeySize_def)
  then show ?thesis using n(1)
    by (simp add: Session_new_def ses_ok_def ses_base_def ses_ready_def MemcacheServer.defs)
qed

lemma empty_represents: "represents hash Map.empty ex_server"
  by (simp add: represents_def ex_server_def)



text \<open>
  \<^bold>\<open>C6\<close>: what a client sets is what it gets. Sent a \<open>set\<close> of any value of up to a mebibyte (which may itself contain CR LF) and a \<open>get\<close> of the same key, a session answers
  \<open>STORED\<close> and then the value with its key, flags and length, and the table has the new entry under the next number. Keys are up to 250 characters
  without blank and CR; the key \<open>noreply\<close> is excluded, since \<open>get noreply\<close> is taken for a \<open>get\<close> without keys.
\<close>

theorem set_then_get:
  assumes "ses_ok hash s" and "ses_state s = kNewCommand" and "conn_connected s" and "represents hash m s"
    and "key_ok k" and "f < 4294967296" and "x \<le> 2592000" and "length v \<le> 1048576"
    and "buf_inv (ses_outputBuf s)" and "content (ses_outputBuf s) = []" and "2000000 \<le> room (ses_outputBuf s)"
    and "buf_inv b" and "content b = set_line k f x v @ kCRLF @ v @ kCRLF @ get_line k @ kCRLF"
    and "tokenizer_ok tok"
  shows "\<exists>s' b' reserve. Session_onMessage tok hash s b = Some (Inr (s', b')) \<and> content b' = [] \<and>
    represents hash (m(k \<mapsto> (of_nat f, int x, v @ kCRLF, g_cas s + 1))) s' \<and>
    conn_calls s' = conn_calls s @ [McSend (''STORED'' @ kCRLF), McShrink reserve,
      McSend (''VALUE '' @ k @ '' '' @ nat_digits f @ '' '' @ nat_digits (length v) @ kCRLF @ v @ kCRLF @ ''END'' @ kCRLF)]"
proof -
  let ?e = "(of_nat f :: 32 word, int x, v @ kCRLF, g_cas s + 1)"
  have "uint (of_nat f :: 32 word) = int f" "unat (of_nat f :: 32 word) = f"
    using assms(6) by (simp_all add: uint_nat unat_of_nat)
  then have wire: "value_text False k ?e =
      ''VALUE '' @ k @ '' '' @ nat_digits f @ '' '' @ nat_digits (length v) @ kCRLF @ v @ kCRLF"
    by (simp add: value_text_def value_header_def int_digits_def)
  obtain s' b' where r: "onMessage_loop tok hash s b = Some (Inr (s', b'))" "content b' = []" "represents hash (m(k \<mapsto> ?e)) s'"
    "conn_calls s' = conn_calls s @ [McSend (''STORED'' @ kCRLF),
      McShrink (65536 + length (value_text False k ?e @ ''END'' @ kCRLF)), McSend (value_text False k ?e @ ''END'' @ kCRLF)]"
    using set_get_run [OF assms] by blast
  let ?s = "s'\<lparr>ses_bytesRead := szt (ses_bytesRead s' + (readableBytes b - readableBytes b'))\<rparr>"
  have "represents hash (m(k \<mapsto> ?e)) ?s" using r(3) represents_shards [of ?s s' hash "m(k \<mapsto> ?e)"] by simp
  then show ?thesis using onMessage_result [OF r(1)] r(2,4) unfolding wire by auto
qed

lemma set_then_get_witness:
  "\<exists>s s' b' reserve. Session_new length ex_server = Inr s \<and>
    Session_onMessage tokenize length s (ex_buf (''set key 5 0 2'' @ kCRLF @ ''hi'' @ kCRLF @ ''get key'' @ kCRLF)) = Some (Inr (s', b')) \<and>
    conn_calls s' = [McSend (''STORED'' @ kCRLF), McShrink reserve,
      McSend (''VALUE key 5 2'' @ kCRLF @ ''hi'' @ kCRLF @ ''END'' @ kCRLF)]"
proof -
  obtain s where s: "Session_new length ex_server = Inr s" "ses_ok length s" "ses_state s = kNewCommand" "conn_connected s"
    "conn_calls s = []" "ses_outputBuf s = emptyBuffer" "sv_shards s = sv_shards ex_server"
    using Session_new_ok [of length ex_server] by blast
  let ?b = "ex_buf (''set key 5 0 2'' @ kCRLF @ ''hi'' @ kCRLF @ ''get key'' @ kCRLF)"
  have d: "nat_digits 5 = ''5''" "nat_digits 0 = ''0''" "nat_digits (Suc (Suc 0)) = ''2''" by code_simp+
  have rep: "represents length Map.empty s" using s(7) represents_shards [of s ex_server length Map.empty] empty_represents by (simp add: represents_def)
  have k: "key_ok ''key''" by (simp add: key_ok_def word_ok_def)
  have b: "buf_inv ?b" "content ?b = set_line ''key'' 5 0 ''hi'' @ kCRLF @ ''hi'' @ kCRLF @ get_line ''key'' @ kCRLF"
    using ex_buf_ok(1) by (simp_all add: ex_buf_ok(2) set_line_def get_line_def d kCRLF_def)
  show ?thesis
    using set_then_get [OF s(2-4) rep k _ _ _ _ _ _ b tokenize_ok] s(1,5,6) by (simp add: d) blast
qed

text \<open>
  \<^bold>\<open>C39\<close>: a \<open>get\<close> that is rejected leaks values into the next answer. When a \<open>get\<close> names a stored key and then a key of more than 250
  characters, the session answers with an error but leaves the value of the first key in its output buffer; the next \<open>get\<close>, of a key that is not
  stored, is answered with that value in front of \<open>END\<close>.
\<close>

theorem rejected_get_leaks:
  assumes ok: "ses_ok hash s" "ses_state s = kNewCommand" and con: "conn_connected s" and rep: "represents hash m s"
    and k: "key_ok k" "m k = Some (f, x, v, c)" "length v \<le> 1048578" and k2: "key_ok k2" "m k2 = None"
    and w: "word_ok w" "CHR 0x0D \<notin> set w" "250 < length w"
    and out: "buf_inv (ses_outputBuf s)" "content (ses_outputBuf s) = []" "4000000 \<le> room (ses_outputBuf s)"
    and b: "buf_inv b" "content b = unwords [''get'', k, w] @ kCRLF @ get_line k2 @ kCRLF"
    and tk: "tokenizer_ok tok"
  shows "\<exists>s' b' reserve. Session_onMessage tok hash s b = Some (Inr (s', b')) \<and>
    conn_calls s' = conn_calls s @ [McSend (''CLIENT_ERROR bad command line format'' @ kCRLF), McShrink reserve,
      McSend (value_text False k (f, x, v, c) @ ''END'' @ kCRLF)]"
proof -
  have size: "length (fst (snd (snd e))) \<le> 1048578" if "m k = Some e" for e using k(2,3) that by auto
  obtain s1 where p1: "ses_pass tok hash s (content b) = Inr (s1, Some (get_line k2 @ kCRLF))"
    and s1: "sv_shards s1 = sv_shards s" "ses_state s1 = kNewCommand" "conn_connected s1"
      "conn_calls s1 = conn_calls s @ [McSend (''CLIENT_ERROR bad command line format'' @ kCRLF)]"
      "buf_inv (ses_outputBuf s1)" "content (ses_outputBuf s1) = found_text m k" "2000000 \<le> room (ses_outputBuf s1)"
    using long_key_pass [OF ok k(1) rep size out(1,3) con w tk, where rest = "get_line k2 @ kCRLF"] out(2) unfolding b(2) by auto
  have "content b \<noteq> []" using b(2) by (simp add: kCRLF_def)
  from loop_next [OF ok(1) b(1) this p1] obtain b1 where b1: "buf_inv b1" "content b1 = get_line k2 @ kCRLF"
    "onMessage_loop tok hash s b = onMessage_loop tok hash s1 b1" "ses_ok hash s1" by blast
  have rep1: "represents hash m s1" using rep represents_shards [OF s1(1), of hash m] by simp
  have none: "length (fst (snd (snd e))) \<le> 1048578" if "m k2 = Some e" for e using k2(2) that by simp
  obtain s2 reserve where p2: "ses_pass tok hash s1 (content b1) = Inr (s2, Some [])"
    and s2: "conn_calls s2 = conn_calls s1 @ [McShrink reserve, McSend (value_text False k (f, x, v, c) @ ''END'' @ kCRLF)]"
    using get_pass [OF b1(4) s1(2) k2(1) rep1 none s1(5,7,3) tk, where rest = "[]"] s1(6) k(2) k2(2) b1(2)
    by (auto simp: found_text_def)
  have "content b1 \<noteq> []" using b1(2) by (simp add: kCRLF_def)
  from loop_next(1) [OF b1(4,1) this p2] obtain b2 where b2: "buf_inv b2" "content b2 = []"
    "onMessage_loop tok hash s1 b1 = onMessage_loop tok hash s2 b2" by blast
  then have "onMessage_loop tok hash s b = Some (Inr (s2, b2))" using b1(3) loop_empty by simp
  from onMessage_result [OF this] s2 s1(4) show ?thesis by auto
qed

definition leak_server :: "Item \<Rightarrow> MemcacheServer" where
  "leak_server it = ex_server\<lparr>sv_shards := (\<lambda>_. Map.empty)(1 := [''k'' \<mapsto> it])\<rparr>"

lemma rejected_get_leaks_witness:
  "\<exists>it s s' b' reserve. Session_new length (leak_server it) = Inr s \<and>
    Session_onMessage tokenize length s (ex_buf (''get k '' @ replicate 251 (CHR ''w'') @ kCRLF @ ''get other'' @ kCRLF)) = Some (Inr (s', b')) \<and>
    conn_calls s' = [McSend (''CLIENT_ERROR bad command line format'' @ kCRLF), McShrink reserve,
      McSend (value_text False ''k'' (7, 0, ''hi'' @ kCRLF, 1) @ ''END'' @ kCRLF)]"
proof -
  obtain it where it: "item_full length ''k'' (7, 0, ''hi'' @ kCRLF, 1) it"
    using whole_item [of "''k''" "''hi'' @ kCRLF" length 7 0 1] by (auto simp: kCRLF_def)
  obtain s where s: "Session_new length (leak_server it) = Inr s" "ses_ok length s" "ses_state s = kNewCommand" "conn_connected s"
    "conn_calls s = []" "ses_outputBuf s = emptyBuffer" "sv_shards s = sv_shards (leak_server it)"
    using Session_new_ok [of length "leak_server it"] by blast
  let ?m = "[''k'' \<mapsto> (7, 0, ''hi'' @ kCRLF, 1)]"
  let ?w = "replicate 251 (CHR ''w'')"
  let ?b = "ex_buf (''get k '' @ ?w @ kCRLF @ ''get other'' @ kCRLF)"
  have rep: "represents length ?m s"
    using it s(7) by (simp add: represents_def leak_server_def kShards_def ex_server_def)
  have keys: "key_ok ''k''" "key_ok ''other''" "?m ''other'' = None" "?m ''k'' = Some (7, 0, ''hi'' @ kCRLF, 1)"
    by (simp_all add: key_ok_def word_ok_def)
  have w: "word_ok ?w" "CHR 0x0D \<notin> set ?w" "250 < length ?w"
    by (simp_all add: word_ok_def del: replicate.simps)
  have b: "buf_inv ?b" "content ?b = unwords [''get'', ''k'', ?w] @ kCRLF @ get_line ''other'' @ kCRLF"
    using ex_buf_ok(1) [of "''get k '' @ ?w @ kCRLF @ ''get other'' @ kCRLF"]
    by (simp_all add: ex_buf_ok(2) get_line_def del: replicate.simps)
  have "\<exists>s' b' reserve. Session_onMessage tokenize length s ?b = Some (Inr (s', b')) \<and>
    conn_calls s' = conn_calls s @ [McSend (''CLIENT_ERROR bad command line format'' @ kCRLF), McShrink reserve,
      McSend (value_text False ''k'' (7, 0, ''hi'' @ kCRLF, 1) @ ''END'' @ kCRLF)]"
    by (rule rejected_get_leaks [OF s(2-4) rep keys(1,4) _ keys(2,3) w _ _ _ b tokenize_ok]) (simp_all add: s(6) kCRLF_def)
  then show ?thesis using s(1,5) by auto
qed

text \<open>
  \<^bold>\<open>C38\<close>: a client can stop the server with one line. A negative length passes the number reader as a large one and is converted back, so that \<open>set k 0 0 -1\<close> fails
  the assertion of the constructor of \<open>Item\<close>; a \<open>delete\<close> without a key dereferences the end of the tokens; and the length \<open>2147483647\<close> overflows
  the number of the bytes to discard.
\<close>

theorem client_crashes_server:
  assumes ok: "ses_ok hash s" "ses_state s = kNewCommand" and buf: "buf_inv b1" "buf_inv b2" "buf_inv b3"
    and c: "content b1 = ''set k 0 0 -1'' @ kCRLF" "content b2 = ''delete'' @ kCRLF" "content b3 = ''set k 0 0 2147483647'' @ kCRLF"
    and tk: "tokenizer_ok tok"
  shows "Session_onMessage tok hash s b1 = Some (Inl AssertFailed) \<and>
    Session_onMessage tok hash s b2 = Some (Inl UndefinedBehaviour) \<and>
    Session_onMessage tok hash s b3 = Some (Inl UndefinedBehaviour)"
proof -
  have ready: "ses_ready s" "ses_base s" using ok by (simp_all add: ses_ok_def)
  have fail: "Session_onMessage tok hash s b = Some (Inl e)"
    if "buf_inv b" "content b = line @ kCRLF" "CHR 0x0D \<notin> set line" "processRequest tok hash line s = Inl e" for b line e
  proof -
    have "content b \<noteq> []" using that(2) by (simp add: kCRLF_def)
    moreover have "ses_pass tok hash s (content b) = Inl e"
      using crlf_split_line [OF that(3), of "[]"] that(2,4) ok(2) by (simp add: ses_pass_def)
    ultimately show ?thesis
      using loop_pass [OF that(1) _ ses_ok_protocol [OF ok(1)], of tok hash] by (simp add: Session_onMessage_def)
  qed
  have toks: "tok SpaceSeparator ''set k 0 0 -1'' = [''set'', ''k'', ''0'', ''0'', ''-1'']" "tok SpaceSeparator ''delete'' = [''delete'']"
    "tok SpaceSeparator ''set k 0 0 2147483647'' = [''set'', ''k'', ''0'', ''0'', ''2147483647'']"
    using tokens_unwords [OF tk, of "[''set'', ''k'', ''0'', ''0'', ''-1'']"] tokens_unwords [OF tk, of "[''delete'']"]
      tokens_unwords [OF tk, of "[''set'', ''k'', ''0'', ''0'', ''2147483647'']"] by (simp_all add: word_ok_def)
  have num: "read_numbers kSet ''k'' [''0'', ''0'', ''-1''] = Some (0, 0, 18446744073709551615, 0)"
    "read_numbers kSet ''k'' [''0'', ''0'', ''2147483647''] = Some (0, 0, 2147483647, 0)"
    by (simp_all add: read_numbers_def Reader_read_def strtoull_def isspace_def isdigit_def decimal_def two64_def kLongestKeySize_def)
  obtain nd where nd: "resetKey hash ''k'' (ses_needle s) = Inr nd"
    using resetKey_base [OF ready(2), of "''k''" hash] by (auto simp: kLongestKeySize_def)
  let ?s = "s\<lparr>ses_requestsProcessed := szt (ses_requestsProcessed s + 1), ses_command := ''set''\<rparr>"
  have "processRequest tok hash ''set k 0 0 -1'' s = Inl AssertFailed"
    using processRequest_plain(1) [where tok = tok and hash = hash, OF ready(1) _ toks(1) refl] num(1)
    by (simp add: doUpdate_def update_policy_def begin_update_def Let_def to_int_def makeItem_def Item_new_def totalLen_def)
  moreover have "processRequest tok hash ''set k 0 0 2147483647'' s = Inl UndefinedBehaviour"
    using processRequest_plain(1) [where tok = tok and hash = hash, OF ready(1) _ toks(3) refl] num(2) nd
    by (simp add: doUpdate_def update_policy_def begin_update_def Let_def)
  moreover have "processRequest tok hash ''delete'' s = Inl UndefinedBehaviour"
    using ready(1) toks(2) by (simp add: processRequest_def ses_ready_def doDelete_def)
  ultimately show ?thesis using fail [OF buf(1) c(1)] fail [OF buf(2) c(2)] fail [OF buf(3) c(3)] by simp
qed

lemma client_crashes_server_witness:
  "\<exists>s. Session_new length ex_server = Inr s \<and>
    Session_onMessage tokenize length s (ex_buf (''set k 0 0 -1'' @ kCRLF)) = Some (Inl AssertFailed)"
proof -
  obtain s where s: "Session_new length ex_server = Inr s" "ses_ok length s" "ses_state s = kNewCommand"
    using Session_new_ok [of length ex_server] by blast
  have b: "buf_inv (ex_buf (''set k 0 0 -1'' @ kCRLF))" "buf_inv (ex_buf (''delete'' @ kCRLF))"
    "buf_inv (ex_buf (''set k 0 0 2147483647'' @ kCRLF))"
    by (rule ex_buf_ok(1); simp)+
  show ?thesis using s(1) client_crashes_server [OF s(2,3) b _ _ _ tokenize_ok] by (simp add: ex_buf_ok(2))
qed

end
