(* ===== verification/Spec2Isabelle.thy ===== *)
theory Spec2Isabelle
  imports Net_TcpRun Net_TimerQueue Http Memcached_Session
begin

text \<open>
  A verification development of muduo, a C++ library for network servers on Linux, and of two of the servers built on it.

  \<^bold>\<open>The program\<close>. An \<open>EventLoop\<close> waits in a \<open>Poller\<close> (over \<open>epoll\<close> or \<open>poll\<close>) for events on file descriptors, lets the
  \<open>Channel\<close> of each active descriptor call its handlers, and then runs the functors that other threads have queued. A \<open>TcpConnection\<close>
  is a channel with an input and an output \<open>Buffer\<close>; a \<open>TimerQueue\<close> is a channel of a timer descriptor with a set of timers. The HTTP server and the memcached server are
  message callbacks of connections that parse what the input buffer holds. \<open>Date\<close>, \<open>TimeZone\<close>, \<open>Timestamp\<close> and \<open>LogStream\<close> are
  the parts of the base library with an algorithm of their own.

  \<^bold>\<open>How the code is modelled\<close>. The model is the build with assertions. A C++ class is a record with the members of the class, in the order of the
  layers: a component extends the record of the one it rests on (\<open>Loop\<close>, then \<open>EPoll\<close> or \<open>PollP\<close>, then \<open>EventLoop\<close>, then \<open>World\<close> of a connection or \<open>TimerQ\<close>; \<open>MemcacheServer\<close>, then
  \<open>Session\<close>). A method takes the record and returns it updated; one that can fail returns a result whose left
  side is a failed assertion, an access outside an object, an exception or a fatal log message. Pointers are addresses into a map of objects, or
  offsets into a buffer. System calls, clocks, the allocator, callbacks, \<open>boost::hash_range\<close> and \<open>boost::tokenizer\<close> are parameters. Integers are words or
  integers with their conversions written out where a width matters.

  \<^bold>\<open>The theories\<close>.

  \<^item> \<open>Muduo_Prelude\<close>: failures, results and their sequencing, integer conversions, ranges of arrays, searches, decimal digits.

  \<^item> \<open>Net_Endian\<close> and \<open>Net_Buffer\<close>: \<open>muduo/net/Endian.h\<close>, \<open>Buffer.h\<close> and \<open>Buffer.cc\<close>. A buffer refines a byte queue, through the interface \<open>byte_buffer\<close> that the
  clients use; integers and \<open>readFd\<close> round trip; \<open>findCRLF\<close> finds the first line end. \<open>Net_Lines\<close> has what the text protocols share.

  \<^item> \<open>Net_Channel\<close> and \<open>Net_Poller\<close>: \<open>Channel\<close>, \<open>EPollPoller\<close> and \<open>PollPoller\<close>. Both pollers satisfy the interface \<open>poller\<close> and agree on every legal sequence of
  changes of interest; \<open>epoll_kernel\<close> states what is relied on of the kernel, and a model of the kernel satisfies it.

  \<^item> \<open>Net_EventLoop\<close>: the functor queue and the wake-up, with all interleavings of the loop and of threads that call \<open>queueInLoop\<close>. No wake-up is lost and functors run
  once, in order.

  \<^item> \<open>Net_TcpConnection\<close> and \<open>Net_TcpRun\<close>: the handlers of a connection, and its runs as sequences of events and calls. No assertion fails in a legal run, the
  bytes on the wire are the accepted ones in order, shutdown drains the output, and callbacks follow their protocol.

  \<^item> \<open>Net_TimerQueue\<close>: \<open>TimerQueue\<close>, \<open>Timer\<close>, \<open>TimerId\<close> and the timer calls of \<open>EventLoop\<close>. The two sets of timers agree, no timer is used after its deletion, due
  timers run in order, and cancelled ones do not run.

  \<^item> \<open>Base_Date\<close>, \<open>Base_TimeZone\<close>, \<open>Base_Timestamp\<close>: calendar dates, time zones with the file format, time stamps. Conversions round trip.

  \<^item> \<open>Base_LogStream\<close>: \<open>LogStream\<close>, its fixed buffer, \<open>Fmt\<close>, \<open>formatSI\<close>, \<open>formatIEC\<close>. The conversions print the decimal form of every integer type, the buffer is never overrun,
  and the lengths of formatted quantities are bounded, with doubles rounded as IEEE 754 does.

  \<^item> \<open>Http\<close>: requests, responses, the parser and the message handler of \<open>src/http\<close>. Parsing inverts printing, does not depend on how reads split the input, and returns except in
  one state.

  \<^item> \<open>Memcached_Store\<close> and \<open>Memcached_Session\<close>: \<open>src/memcached/server\<close>. The sharded table refines one map; the message loop returns; what is set is what is got.

  \<^bold>\<open>Bounds and fuel\<close>. No definition of the program runs on fuel. \<open>parse_loop\<close> and \<open>onMessage_loop\<close> need not end and are partial functions whose value \<open>None\<close> is a call that does not
  return; that they return is proved, by the length of the readable bytes. The other loops are structural or have a termination proof. Sizes are those of
  the code: 64 bit \<open>size_t\<close>, 32 bit \<open>int\<close>, \<open>std::vector::max_size\<close>. The 2047 requests of the refinement of the memcached table keep joined values, which grow by at most a mebibyte with each
  request, within \<open>int\<close>; \<open>tokenize_upto\<close>, an instance of the tokenizer parameter, is given one step more than the length of the text, and each of its steps consumes a character.

  \<^bold>\<open>What the theorems found\<close>. Some theorems show behaviour the authors did not intend: a channel that was never enabled cannot be removed from \<open>PollPoller\<close>; closing an unwatched
  connection registers it again; a connection in shutdown cannot be destroyed; an unreadable zone file gives a valid zone; \<open>addTimer\<close> races with the loop; a rejected
  HTTP request line fails an assertion at the next read, and a body is parsed again; \<open>formatSI\<close> can be six characters long; a memcached client can stop the server with one line,
  and can see values of a rejected request.

  \<^bold>\<open>Not modelled\<close>. \<open>Acceptor\<close>, \<open>Connector\<close>, \<open>TcpServer\<close>, \<open>TcpClient\<close>, \<open>EventLoopThread\<close> and its pool: they create sockets and threads for the modelled parts. \<open>Socket\<close>, \<open>SocketsOps\<close>, \<open>InetAddress\<close>,
  and the wrappers of pthreads: system calls, which are parameters here. \<open>BlockingQueue\<close>, \<open>BoundedBlockingQueue\<close>, \<open>CountDownLatch\<close>, \<open>ThreadPool\<close>: the modelled parts do not use them. \<open>Logging\<close>,
  \<open>LogFile\<close>, \<open>AsyncLogging\<close>: file output. Log messages other than fatal ones have no effect on the state and are left out. \<open>protorpc\<close> and \<open>protobuf\<close>: they need the
  protobuf library and the code it generates. The adapters to c-ares, libcurl, hiredis, thrift and FastCGI, the inspector, the example programs and the tests.
  The memory model of C++ is not modelled: an access under a mutex, and an atomic operation, is one step.
\<close>

end
